(* ===== verification/Xv6_Prelude.thy ===== *)
theory Xv6_Prelude
  imports Main "HOL-Library.Word"
begin

text \<open>
  The shared base of the development.

  Kernel code is modelled as a state transformer \<open>('s, 'a) kop\<close>: from a state it
  either returns (\<open>Done\<close>), calls \<open>panic\<close> (\<open>Panic\<close>), gives the processor
  to the scheduler inside \<open>sched\<close> (\<open>Switch\<close>) or spins on a lock another
  processor holds (\<open>Spin\<close>).  \<open>bnd\<close> is C's sequencing.

  Two predicate transformers speak about such code.  \<open>wp m Q s\<close>: if \<open>m\<close> returns
  from \<open>s\<close> then \<open>Q\<close> holds of the value and the new state.  \<open>twp m Q s\<close>: \<open>m\<close>
  returns from \<open>s\<close>, and \<open>Q\<close> holds.  The equations of the collection \<open>wp\<close> push
  both through the program text, so a component proof is one call of the
  simplifier over its operations' rules.

  The second part holds little-endian byte encodings (the C structures the kernel
  keeps on disk and in memory) and generic list and function lemmas.
\<close>

named_theorems wp \<open>equations of the predicate transformers over program text\<close>
named_theorems kdefs \<open>definitions of small helpers, unfolded in component proofs\<close>
named_theorems enc \<open>read-after-write rules of the byte encodings\<close>

section \<open>Outcomes of kernel code\<close>

datatype ('s, 'a) outcome =
    Done 'a 's
  | Panic string
  | Switch 's
  | Spin

type_synonym ('s, 'a) kop = "'s \<Rightarrow> ('s, 'a) outcome"

definition ret :: "'a \<Rightarrow> ('s, 'a) kop" where
  "ret a s = Done a s"

definition bnd :: "('s, 'a) kop \<Rightarrow> ('a \<Rightarrow> ('s, 'b) kop) \<Rightarrow> ('s, 'b) kop" where
  "bnd m f s =
     (case m s of
        Done a s' \<Rightarrow> f a s'
      | Panic e \<Rightarrow> Panic e
      | Switch s' \<Rightarrow> Switch s'
      | Spin \<Rightarrow> Spin)"

definition sq :: "('s, 'a) kop \<Rightarrow> ('s, 'b) kop \<Rightarrow> ('s, 'b) kop" where
  "sq m n = bnd m (\<lambda>_. n)"

definition gets :: "('s \<Rightarrow> 'a) \<Rightarrow> ('s, 'a) kop" where
  "gets f s = Done (f s) s"

definition modify :: "('s \<Rightarrow> 's) \<Rightarrow> ('s, unit) kop" where
  "modify f s = Done () (f s)"

definition panic :: "string \<Rightarrow> ('s, 'a) kop" where
  "panic e s = Panic e"

definition switch_away :: "('s, 'a) kop" where
  "switch_away s = Switch s"

definition whenk :: "bool \<Rightarrow> ('s, unit) kop \<Rightarrow> ('s, unit) kop" where
  "whenk c m = (if c then m else ret ())"

fun forM :: "'a list \<Rightarrow> ('a \<Rightarrow> ('s, unit) kop) \<Rightarrow> ('s, unit) kop" where
  "forM [] f = ret ()"
| "forM (x # xs) f = sq (f x) (forM xs f)"

section \<open>Predicate transformers\<close>

definition wp :: "('s, 'a) kop \<Rightarrow> ('a \<Rightarrow> 's \<Rightarrow> bool) \<Rightarrow> 's \<Rightarrow> bool" where
  "wp m Q s = (case m s of Done a s' \<Rightarrow> Q a s' | Panic e \<Rightarrow> True | Switch s' \<Rightarrow> True | Spin \<Rightarrow> True)"

definition twp :: "('s, 'a) kop \<Rightarrow> ('a \<Rightarrow> 's \<Rightarrow> bool) \<Rightarrow> 's \<Rightarrow> bool" where
  "twp m Q s = (case m s of Done a s' \<Rightarrow> Q a s' | Panic e \<Rightarrow> False | Switch s' \<Rightarrow> False | Spin \<Rightarrow> False)"

lemma wp_ret [wp]: "wp (ret a) Q s = Q a s"
  by (simp add: wp_def ret_def)

lemma wp_bnd [wp]: "wp (bnd m f) Q s = wp m (\<lambda>a. wp (f a) Q) s"
  by (simp add: wp_def bnd_def split: outcome.split)

lemma wp_sq [wp]: "wp (sq m n) Q s = wp m (\<lambda>_. wp n Q) s"
  by (simp add: sq_def wp_bnd)

lemma wp_gets [wp]: "wp (gets f) Q s = Q (f s) s"
  by (simp add: wp_def gets_def)

lemma wp_modify [wp]: "wp (modify f) Q s = Q () (f s)"
  by (simp add: wp_def modify_def)

lemma wp_panic [wp]: "wp (panic e) Q s = True"
  by (simp add: wp_def panic_def)

lemma wp_switch_away [wp]: "wp switch_away Q s = True"
  by (simp add: wp_def switch_away_def)

lemma wp_if [wp]: "wp (if c then m else n) Q s = (if c then wp m Q s else wp n Q s)"
  by simp

lemma wp_whenk [wp]: "wp (whenk c m) Q s = (if c then wp m Q s else Q () s)"
  by (simp add: whenk_def wp_ret)

lemma wp_case_option [wp]:
  "wp (case x of None \<Rightarrow> m | Some y \<Rightarrow> f y) Q s = (case x of None \<Rightarrow> wp m Q s | Some y \<Rightarrow> wp (f y) Q s)"
  by (cases x) simp_all

lemma wp_case_prod [wp]:
  "wp (case x of (a, b) \<Rightarrow> f a b) Q s = (case x of (a, b) \<Rightarrow> wp (f a b) Q s)"
  by (cases x) simp

lemma wp_Let [wp]: "wp (Let x f) Q s = wp (f x) Q s"
  by simp

lemma wp_mono: "wp m Q s \<Longrightarrow> (\<And>a s'. Q a s' \<Longrightarrow> R a s') \<Longrightarrow> wp m R s"
  by (auto simp: wp_def split: outcome.splits)

lemma wp_conj: "wp m Q s \<Longrightarrow> wp m R s \<Longrightarrow> wp m (\<lambda>a s'. Q a s' \<and> R a s') s"
  by (auto simp: wp_def split: outcome.splits)

lemma wp_DoneD: "wp m Q s \<Longrightarrow> m s = Done a s' \<Longrightarrow> Q a s'"
  by (simp add: wp_def)

lemma wp_DoneI: "(\<And>a s'. m s = Done a s' \<Longrightarrow> Q a s') \<Longrightarrow> wp m Q s"
  by (auto simp: wp_def split: outcome.splits)

lemma twp_ret [wp]: "twp (ret a) Q s = Q a s"
  by (simp add: twp_def ret_def)

lemma twp_bnd [wp]: "twp (bnd m f) Q s = twp m (\<lambda>a. twp (f a) Q) s"
  by (simp add: twp_def bnd_def split: outcome.split)

lemma twp_sq [wp]: "twp (sq m n) Q s = twp m (\<lambda>_. twp n Q) s"
  by (simp add: sq_def twp_bnd)

lemma twp_gets [wp]: "twp (gets f) Q s = Q (f s) s"
  by (simp add: twp_def gets_def)

lemma twp_modify [wp]: "twp (modify f) Q s = Q () (f s)"
  by (simp add: twp_def modify_def)

lemma twp_panic [wp]: "twp (panic e) Q s = False"
  by (simp add: twp_def panic_def)

lemma twp_switch_away [wp]: "twp switch_away Q s = False"
  by (simp add: twp_def switch_away_def)

lemma twp_if [wp]: "twp (if c then m else n) Q s = (if c then twp m Q s else twp n Q s)"
  by simp

lemma twp_whenk [wp]: "twp (whenk c m) Q s = (if c then twp m Q s else Q () s)"
  by (simp add: whenk_def twp_ret)

lemma twp_case_option [wp]:
  "twp (case x of None \<Rightarrow> m | Some y \<Rightarrow> f y) Q s = (case x of None \<Rightarrow> twp m Q s | Some y \<Rightarrow> twp (f y) Q s)"
  by (cases x) simp_all

lemma twp_case_prod [wp]:
  "twp (case x of (a, b) \<Rightarrow> f a b) Q s = (case x of (a, b) \<Rightarrow> twp (f a b) Q s)"
  by (cases x) simp

lemma twp_mono: "twp m Q s \<Longrightarrow> (\<And>a s'. Q a s' \<Longrightarrow> R a s') \<Longrightarrow> twp m R s"
  by (auto simp: twp_def split: outcome.splits)

lemma twp_iff: "twp m Q s \<longleftrightarrow> (\<exists>a s'. m s = Done a s' \<and> Q a s')"
  by (auto simp: twp_def split: outcome.splits)

lemma wp_forM:
  assumes step: "\<And>x s. x \<in> set xs \<Longrightarrow> I s \<Longrightarrow> wp (f x) (\<lambda>_. I) s"
    and init: "I s"
  shows "wp (forM xs f) (\<lambda>_. I) s"
  using assms
proof (induction xs arbitrary: s)
  case Nil
  then show ?case by (simp add: wp)
next
  case (Cons x xs)
  have "wp (f x) (\<lambda>_. I) s" using Cons.prems by simp
  moreover have "wp (forM xs f) (\<lambda>_. I) s'" if "I s'" for s'
    using Cons.IH Cons.prems(1) that by simp
  ultimately show ?case by (auto simp: wp intro: wp_mono)
qed

text \<open>Counted loops: an invariant indexed by the rounds done.\<close>

lemma twp_forM_upt:
  assumes step: "\<And>k s. k < n \<Longrightarrow> I k s \<Longrightarrow> twp (f k) (\<lambda>_. I (Suc k)) s" and init: "I 0 s"
  shows "twp (forM [0 ..< n] f) (\<lambda>_. I n) s"
proof -
  have "twp (forM [k ..< n] f) (\<lambda>_. I n) s" if "k \<le> n" "I k s" for k s
    using that
  proof (induction "n - k" arbitrary: k s)
    case 0
    then show ?case by (simp add: wp)
  next
    case (Suc m)
    then have k: "k < n" by simp
    have "twp (f k) (\<lambda>_ t. twp (forM [Suc k ..< n] f) (\<lambda>_. I n) t) s"
      by (rule twp_mono [OF step [OF k Suc.prems(2)]]) (use Suc k in auto)
    then show ?case using k by (simp add: upt_conv_Cons wp)
  qed
  then show ?thesis using init by blast
qed

section \<open>Preserved parts of the state\<close>

definition keeps :: "('s \<Rightarrow> 'b) \<Rightarrow> ('s, 'a) kop \<Rightarrow> bool" where
  "keeps f m = (\<forall>s. wp m (\<lambda>_ s'. f s' = f s) s)"

lemma keepsD: "keeps f m \<Longrightarrow> m s = Done a s' \<Longrightarrow> f s' = f s"
  by (auto simp: keeps_def dest: wp_DoneD)

lemma keeps_wp: "keeps f m \<Longrightarrow> wp m (\<lambda>_ s'. f s' = f s) s"
  by (simp add: keeps_def)

lemma keeps_ret [intro]: "keeps f (ret a)"
  by (simp add: keeps_def wp)

lemma keeps_gets [intro]: "keeps f (gets g)"
  by (simp add: keeps_def wp)

lemma keeps_panic [intro]: "keeps f (panic e)"
  by (simp add: keeps_def wp)

lemma keeps_switch_away [intro]: "keeps f switch_away"
  by (simp add: keeps_def wp)

lemma keeps_modify [intro]: "(\<And>s. f (g s) = f s) \<Longrightarrow> keeps f (modify g)"
  by (simp add: keeps_def wp)

lemma keeps_bnd [intro]:
  assumes "keeps f m" and "\<And>a. keeps f (n a)"
  shows "keeps f (bnd m n)"
  unfolding keeps_def wp_bnd
proof
  fix s
  show "wp m (\<lambda>a. wp (n a) (\<lambda>_ s'. f s' = f s)) s"
    by (rule wp_mono [OF keeps_wp [OF assms(1)]]) (metis assms(2) keeps_wp)
qed

lemma keeps_sq [intro]: "keeps f m \<Longrightarrow> keeps f n \<Longrightarrow> keeps f (sq m n)"
  unfolding sq_def by (rule keeps_bnd)

lemma keeps_if [intro]: "(c \<Longrightarrow> keeps f m) \<Longrightarrow> (\<not> c \<Longrightarrow> keeps f n) \<Longrightarrow> keeps f (if c then m else n)"
  by simp

lemma keeps_whenk [intro]: "(c \<Longrightarrow> keeps f m) \<Longrightarrow> keeps f (whenk c m)"
  unfolding whenk_def by auto

lemma keeps_case_option [intro]:
  "keeps f m \<Longrightarrow> (\<And>y. x = Some y \<Longrightarrow> keeps f (g y)) \<Longrightarrow> keeps f (case x of None \<Rightarrow> m | Some y \<Rightarrow> g y)"
  by (cases x) auto

lemma keeps_case_prod [intro]:
  "(\<And>a b. x = (a, b) \<Longrightarrow> keeps f (g a b)) \<Longrightarrow> keeps f (case x of (a, b) \<Rightarrow> g a b)"
  by (cases x) auto

lemma keeps_Let [intro]: "keeps f (g x) \<Longrightarrow> keeps f (Let x g)"
  by simp

lemma keeps_forM [intro]: "(\<And>x. x \<in> set xs \<Longrightarrow> keeps f (g x)) \<Longrightarrow> keeps f (forM xs g)"
  by (induction xs) auto

section \<open>Bytes and little-endian fields\<close>

type_synonym byte = "8 word"
type_synonym bytes = "nat \<Rightarrow> byte"

text \<open>
  A disk block, a page or a C structure is a function from offsets to bytes; only the
  offsets below its size are meaningful.
\<close>

definition zeros :: bytes where
  "zeros = (\<lambda>_. 0)"

definition get16 :: "bytes \<Rightarrow> nat \<Rightarrow> nat" where
  "get16 d p = unat (d p) + 256 * unat (d (p + 1))"

definition put16 :: "nat \<Rightarrow> nat \<Rightarrow> bytes \<Rightarrow> bytes" where
  "put16 p v d = d(p := of_nat v, p + 1 := of_nat (v div 256))"

definition get32 :: "bytes \<Rightarrow> nat \<Rightarrow> nat" where
  "get32 d p = get16 d p + 65536 * get16 d (p + 2)"

definition put32 :: "nat \<Rightarrow> nat \<Rightarrow> bytes \<Rightarrow> bytes" where
  "put32 p v d = put16 (p + 2) (v div 65536) (put16 p v d)"

text \<open>A 32-bit pattern read as a C \<open>int\<close>, and an \<open>int\<close> as its 32-bit pattern.\<close>

definition sint32 :: "nat \<Rightarrow> int" where
  "sint32 v = (if v < 2147483648 then int v else int v - 4294967296)"

definition nat32 :: "int \<Rightarrow> nat" where
  "nat32 v = nat (v mod 4294967296)"

text \<open>The same for C's \<open>short\<close>.\<close>

definition sint16 :: "nat \<Rightarrow> int" where
  "sint16 v = (if v < 32768 then int v else int v - 65536)"

definition nat16 :: "int \<Rightarrow> nat" where
  "nat16 v = nat (v mod 65536)"

text \<open>C's \<open>memmove\<close> of \<open>n\<close> bytes between two different objects.\<close>

definition blit :: "nat \<Rightarrow> nat \<Rightarrow> bytes \<Rightarrow> nat \<Rightarrow> bytes \<Rightarrow> bytes" where
  "blit n p src q dst = (\<lambda>i. if p \<le> i \<and> i < p + n then src (q + (i - p)) else dst i)"

definition bytes_of :: "byte list \<Rightarrow> bytes" where
  "bytes_of xs = (\<lambda>i. if i < length xs then xs ! i else 0)"

definition slice :: "bytes \<Rightarrow> nat \<Rightarrow> nat \<Rightarrow> byte list" where
  "slice d p n = map d [p ..< p + n]"

lemma unat_of_nat_byte: "unat (of_nat v :: byte) = v mod 256"
  by (simp add: unat_of_nat)

lemma get16_lt [simp]: "get16 d p < 65536"
proof -
  have "unat (d p) < 256" "unat (d (p + 1)) < 256"
    using unsigned_less [of "d p"] unsigned_less [of "d (p + 1)"] by simp_all
  then show ?thesis unfolding get16_def by linarith
qed

lemma get32_lt [simp]: "get32 d p < 4294967296"
  unfolding get32_def using get16_lt [of d p] get16_lt [of d "p + 2"] by linarith

lemma get16_put16_same [enc]: "get16 (put16 p v d) p = v mod 65536"
proof -
  have "v mod 65536 = v mod 256 + 256 * (v div 256 mod 256)"
    using mod_mult2_eq [of v 256 256] by simp
  then show ?thesis by (simp add: get16_def put16_def unat_of_nat_byte)
qed

lemma get16_put16_other [enc]: "q + 2 \<le> p \<or> p + 2 \<le> q \<Longrightarrow> get16 (put16 p v d) q = get16 d q"
  by (auto simp: get16_def put16_def)

lemma put16_other [enc]: "i < p \<or> p + 2 \<le> i \<Longrightarrow> put16 p v d i = d i"
  by (auto simp: put16_def)

lemma get32_put16_other [enc]: "q + 4 \<le> p \<or> p + 2 \<le> q \<Longrightarrow> get32 (put16 p v d) q = get32 d q"
  by (auto simp: get32_def get16_put16_other)

lemma get16_put32_other [enc]: "q + 2 \<le> p \<or> p + 4 \<le> q \<Longrightarrow> get16 (put32 p v d) q = get16 d q"
  by (auto simp: put32_def get16_put16_other)

lemma get32_put32_same [enc]: "get32 (put32 p v d) p = v mod 4294967296"
proof -
  have "v mod 4294967296 = v mod 65536 + 65536 * (v div 65536 mod 65536)"
    using mod_mult2_eq [of v 65536 65536] by simp
  then show ?thesis
    by (simp add: get32_def put32_def get16_put16_same get16_put16_other)
qed

lemma get32_put32_other [enc]: "q + 4 \<le> p \<or> p + 4 \<le> q \<Longrightarrow> get32 (put32 p v d) q = get32 d q"
  by (auto simp: get32_def get16_put32_other)

lemma put32_other [enc]: "i < p \<or> p + 4 \<le> i \<Longrightarrow> put32 p v d i = d i"
  by (auto simp: put32_def put16_other)

lemma get16_zeros [enc]: "get16 zeros p = 0"
  by (simp add: get16_def zeros_def)

lemma get32_zeros [enc]: "get32 zeros p = 0"
  by (simp add: get32_def get16_zeros)

lemma sint32_nat [simp]: "v < 2147483648 \<Longrightarrow> sint32 v = int v"
  by (simp add: sint32_def)

lemma nat32_nat [simp]: "0 \<le> v \<Longrightarrow> v < 4294967296 \<Longrightarrow> nat32 v = nat v"
  by (simp add: nat32_def)

lemma nat32_lt [simp]: "nat32 v < 4294967296"
  by (simp add: nat32_def nat_less_iff)

lemma nat16_lt [simp]: "nat16 v < 65536"
  by (simp add: nat16_def nat_less_iff)

lemma sint32_nat32: "- 2147483648 \<le> v \<Longrightarrow> v < 2147483648 \<Longrightarrow> sint32 (nat32 v) = v"
proof (cases "0 \<le> v")
  case False
  assume "- 2147483648 \<le> v" "v < 2147483648"
  moreover have "v mod 4294967296 = (v + 4294967296) mod 4294967296" by simp
  moreover have "(v + 4294967296) mod 4294967296 = v + 4294967296"
    using False \<open>- 2147483648 \<le> v\<close> by (intro mod_pos_pos_trivial) auto
  ultimately show ?thesis using False by (simp add: sint32_def nat32_def)
qed (simp add: sint32_def nat32_def)

lemma sint16_nat16: "- 32768 \<le> v \<Longrightarrow> v < 32768 \<Longrightarrow> sint16 (nat16 v) = v"
proof (cases "0 \<le> v")
  case False
  assume "- 32768 \<le> v" "v < 32768"
  moreover have "v mod 65536 = (v + 65536) mod 65536" by simp
  moreover have "(v + 65536) mod 65536 = v + 65536"
    using False \<open>- 32768 \<le> v\<close> by (intro mod_pos_pos_trivial) auto
  ultimately show ?thesis using False by (simp add: sint16_def nat16_def)
qed (simp add: sint16_def nat16_def)

lemma length_slice [simp]: "length (slice d p n) = n"
  by (simp add: slice_def)

lemma nth_slice [simp]: "i < n \<Longrightarrow> slice d p n ! i = d (p + i)"
  by (simp add: slice_def)

lemma slice_0 [simp]: "slice d p 0 = []"
  by (simp add: slice_def)

lemma slice_add: "slice d p (m + n) = slice d p m @ slice d (p + m) n"
  by (auto intro!: nth_equalityI simp: nth_append)

lemma slice_cong: "(\<And>i. p \<le> i \<Longrightarrow> i < p + n \<Longrightarrow> d i = e i) \<Longrightarrow> slice d p n = slice e p n"
  by (simp add: slice_def)

lemma slice_bytes_of: "slice (bytes_of xs) 0 (length xs) = xs"
  by (auto intro!: nth_equalityI simp: bytes_of_def)

lemma slice_blit: "slice (blit n p src q dst) p n = slice src q n"
  by (auto intro!: nth_equalityI simp: blit_def)

section \<open>32-bit words\<close>

lemma uint_32: "0 \<le> uint (w :: 32 word)" "uint (w :: 32 word) < 4294967296"
  using uint_bounded [of w] by simp_all

lemma unat_32: "unat (w :: 32 word) < 4294967296"
proof -
  have "unat w < 2 ^ LENGTH(32)" by (rule unsigned_less)
  then show ?thesis by simp
qed

lemma sint_32: "sint (w :: 32 word) = (if uint w < 2147483648 then uint w else uint w - 4294967296)"
proof -
  have "sint w = (uint w + 2147483648) mod 4294967296 - 2147483648"
    using int_word_sint [of "uint w", where ?'a = 32] by simp
  moreover have "(uint w + 2147483648) mod 4294967296 =
    (if uint w < 2147483648 then uint w + 2147483648 else uint w - 2147483648)"
  proof (cases "uint w < 2147483648")
    case False
    have "(uint w + 2147483648) mod 4294967296 = (uint w - 2147483648 + 4294967296) mod 4294967296" by (simp add: add.commute)
    also have "\<dots> = (uint w - 2147483648) mod 4294967296" by (rule mod_add_self2)
    finally show ?thesis using False uint_32 [of w] by (simp add: mod_pos_pos_trivial)
  qed (use uint_32 [of w] in \<open>simp add: mod_pos_pos_trivial\<close>)
  ultimately show ?thesis by simp
qed

lemma uint_uminus_neg: "xx <s (0 :: 32 word) \<Longrightarrow> uint (- xx) = - sint xx"
proof -
  assume "xx <s 0"
  then have "sint xx < 0" by (simp add: word_sless_alt)
  then have neg: "2147483648 \<le> uint xx" using uint_32 [of xx] by (simp add: sint_32 split: if_splits)
  have "uint (- xx) = (- uint xx) mod 4294967296" by (simp add: uint_word_ariths)
  also have "\<dots> = (4294967296 - uint xx) mod 4294967296" by simp
  also have "\<dots> = 4294967296 - uint xx" using neg uint_32 [of xx] by (simp add: mod_pos_pos_trivial del: minus_mod_self1)
  finally show ?thesis using neg by (simp add: sint_32)
qed

section \<open>Lists as tables\<close>

text \<open>The first index satisfying a predicate, as a C scan over a table finds it.\<close>

fun find_index :: "('a \<Rightarrow> bool) \<Rightarrow> 'a list \<Rightarrow> nat option" where
  "find_index P [] = None"
| "find_index P (x # xs) = (if P x then Some 0 else map_option Suc (find_index P xs))"

lemma find_index_None: "find_index P xs = None \<longleftrightarrow> (\<forall>x \<in> set xs. \<not> P x)"
  by (induction xs) auto

lemma find_index_Some:
  "find_index P xs = Some i \<Longrightarrow> i < length xs \<and> P (xs ! i) \<and> (\<forall>j < i. \<not> P (xs ! j))"
proof (induction xs arbitrary: i)
  case Nil
  then show ?case by simp
next
  case (Cons x xs)
  show ?case
  proof (cases "P x")
    case True
    with Cons.prems show ?thesis by simp
  next
    case False
    with Cons.prems obtain k where k: "find_index P xs = Some k" "i = Suc k" by auto
    with Cons.IH [OF k(1)] False show ?thesis by (auto simp: less_Suc_eq_0_disj)
  qed
qed

definition upd_nth :: "nat \<Rightarrow> ('a \<Rightarrow> 'a) \<Rightarrow> 'a list \<Rightarrow> 'a list" where
  "upd_nth i f xs = (if i < length xs then xs[i := f (xs ! i)] else xs)"

lemma length_upd_nth [simp]: "length (upd_nth i f xs) = length xs"
  by (simp add: upd_nth_def)

lemma nth_upd_nth [simp]:
  "j < length xs \<Longrightarrow> upd_nth i f xs ! j = (if j = i then f (xs ! j) else xs ! j)"
  by (auto simp: upd_nth_def)

lemma map_upd_nth_same: "(\<And>x. g (f x) = g x) \<Longrightarrow> map g (upd_nth i f xs) = map g xs"
  by (auto intro!: nth_equalityI)

section \<open>Splitting a list at a separator\<close>

fun split_on :: "'a \<Rightarrow> 'a list \<Rightarrow> 'a list list" where
  "split_on d [] = [[]]"
| "split_on d (c # r) =
     (if c = d then [] # split_on d r
      else case split_on d r of [] \<Rightarrow> [[c]] | x # xs \<Rightarrow> (c # x) # xs)"

lemma split_on_first:
  "split_on d r = takeWhile (\<lambda>c. c \<noteq> d) r #
     (case dropWhile (\<lambda>c. c \<noteq> d) r of [] \<Rightarrow> [] | _ # rest \<Rightarrow> split_on d rest)"
  by (induction r) (auto split: list.splits)

end
