(* ===== verification/Xv6_Params.thy ===== *)
theory Xv6_Params
  imports Xv6_Prelude
begin

text \<open>
  The constants of \<open>param.h\<close>, \<open>fs.h\<close>, \<open>stat.h\<close>, \<open>fcntl.h\<close>, \<open>mmu.h\<close> and
  \<open>memlayout.h\<close>, for the configuration the Makefile builds (\<open>CS333_PROJECT = 5\<close>:
  \<open>CS333_P1\<close>, \<open>CS333_P2\<close> and \<open>CS333_P5\<close> defined).  They are abbreviations, so
  that the simplifier computes with the numbers.
\<close>

section \<open>param.h\<close>

abbreviation (input) NPROC :: nat where "NPROC \<equiv> 64"
abbreviation (input) KSTACKSIZE :: "32 word" where "KSTACKSIZE \<equiv> 4096"
abbreviation (input) NCPU :: nat where "NCPU \<equiv> 8"
abbreviation (input) NOFILE :: nat where "NOFILE \<equiv> 16"
abbreviation (input) NFILE :: nat where "NFILE \<equiv> 100"
abbreviation (input) NINODE :: nat where "NINODE \<equiv> 50"
abbreviation (input) NDEV :: nat where "NDEV \<equiv> 10"
abbreviation (input) ROOTDEV :: nat where "ROOTDEV \<equiv> 1"
abbreviation (input) MAXARG :: nat where "MAXARG \<equiv> 32"
abbreviation (input) MAXOPBLOCKS :: nat where "MAXOPBLOCKS \<equiv> 10"
abbreviation (input) LOGSIZE :: nat where "LOGSIZE \<equiv> 30"
abbreviation (input) NBUF :: nat where "NBUF \<equiv> 30"
abbreviation (input) FSSIZE :: nat where "FSSIZE \<equiv> 2000"
abbreviation (input) UID :: nat where "UID \<equiv> 0"
abbreviation (input) GID :: nat where "GID \<equiv> 0"
abbreviation (input) MAXPRIO :: nat where "MAXPRIO \<equiv> 6"
abbreviation (input) TICKS_TO_PROMOTE :: "32 word" where "TICKS_TO_PROMOTE \<equiv> 500"
abbreviation (input) BUDGET :: "32 word" where "BUDGET \<equiv> 100"
abbreviation (input) MODE :: nat where "MODE \<equiv> 493"

section \<open>fs.h, stat.h, fcntl.h\<close>

abbreviation (input) ROOTINO :: nat where "ROOTINO \<equiv> 1"
abbreviation (input) BSIZE :: nat where "BSIZE \<equiv> 512"
abbreviation (input) NDIRECT :: nat where "NDIRECT \<equiv> 10"
abbreviation (input) NINDIRECT :: nat where "NINDIRECT \<equiv> 128"
abbreviation (input) MAXFILE :: nat where "MAXFILE \<equiv> 138"
abbreviation (input) IPB :: nat where "IPB \<equiv> 8"
abbreviation (input) BPB :: nat where "BPB \<equiv> 4096"
abbreviation (input) DIRSIZ :: nat where "DIRSIZ \<equiv> 14"

abbreviation (input) T_DIR :: int where "T_DIR \<equiv> 1"
abbreviation (input) T_FILE :: int where "T_FILE \<equiv> 2"
abbreviation (input) T_DEV :: int where "T_DEV \<equiv> 3"

abbreviation (input) O_RDONLY :: "32 word" where "O_RDONLY \<equiv> 0"
abbreviation (input) O_WRONLY :: "32 word" where "O_WRONLY \<equiv> 1"
abbreviation (input) O_RDWR :: "32 word" where "O_RDWR \<equiv> 2"
abbreviation (input) O_CREATE :: "32 word" where "O_CREATE \<equiv> 512"

text \<open>
  The bit fields of \<open>union mode_t\<close>: gcc lays the first field out in the lowest bit.
\<close>

definition o_x :: "nat \<Rightarrow> bool" where "o_x m = odd m"
definition g_x :: "nat \<Rightarrow> bool" where "g_x m = odd (m div 8)"
definition u_x :: "nat \<Rightarrow> bool" where "u_x m = odd (m div 64)"
definition setuid_bit :: "nat \<Rightarrow> bool" where "setuid_bit m = odd (m div 512)"

section \<open>mmu.h and memlayout.h\<close>

unbundle bit_operations_syntax

abbreviation (input) NPDENTRIES :: nat where "NPDENTRIES \<equiv> 1024"
abbreviation (input) NPTENTRIES :: nat where "NPTENTRIES \<equiv> 1024"
abbreviation (input) PGSIZE :: "32 word" where "PGSIZE \<equiv> 4096"

abbreviation (input) EXTMEM :: "32 word" where "EXTMEM \<equiv> 0x100000"
abbreviation (input) PHYSTOP :: "32 word" where "PHYSTOP \<equiv> 0xE000000"
abbreviation (input) DEVSPACE :: "32 word" where "DEVSPACE \<equiv> 0xFE000000"
abbreviation (input) KERNBASE :: "32 word" where "KERNBASE \<equiv> 0x80000000"
abbreviation (input) KERNLINK :: "32 word" where "KERNLINK \<equiv> 0x80100000"

definition v2p :: "32 word \<Rightarrow> 32 word" where "v2p a = a - KERNBASE"
definition p2v :: "32 word \<Rightarrow> 32 word" where "p2v a = a + KERNBASE"

definition PDX :: "32 word \<Rightarrow> nat" where "PDX va = unat (drop_bit 22 va AND 0x3FF)"
definition PTX :: "32 word \<Rightarrow> nat" where "PTX va = unat (drop_bit 12 va AND 0x3FF)"

definition PGROUNDUP :: "32 word \<Rightarrow> 32 word" where
  "PGROUNDUP sz = (sz + PGSIZE - 1) AND NOT (PGSIZE - 1)"

definition PGROUNDDOWN :: "32 word \<Rightarrow> 32 word" where
  "PGROUNDDOWN a = a AND NOT (PGSIZE - 1)"

abbreviation (input) PTE_P :: "32 word" where "PTE_P \<equiv> 1"
abbreviation (input) PTE_W :: "32 word" where "PTE_W \<equiv> 2"
abbreviation (input) PTE_U :: "32 word" where "PTE_U \<equiv> 4"

definition PTE_ADDR :: "32 word \<Rightarrow> 32 word" where "PTE_ADDR pte = pte AND NOT 0xFFF"
definition PTE_FLAGS :: "32 word \<Rightarrow> 32 word" where "PTE_FLAGS pte = pte AND 0xFFF"

abbreviation (input) DPL_USER :: "32 word" where "DPL_USER \<equiv> 3"
abbreviation (input) SEG_KCODE :: "32 word" where "SEG_KCODE \<equiv> 1"
abbreviation (input) SEG_UCODE :: "32 word" where "SEG_UCODE \<equiv> 4"
abbreviation (input) SEG_UDATA :: "32 word" where "SEG_UDATA \<equiv> 5"
abbreviation (input) FL_IF :: "32 word" where "FL_IF \<equiv> 0x200"

lemma p2v_v2p [simp]: "p2v (v2p a) = a"
  by (simp add: p2v_def v2p_def)

lemma v2p_p2v [simp]: "v2p (p2v a) = a"
  by (simp add: p2v_def v2p_def)

end
