(* ===== verification/Xv6_State.thy ===== *)
theory Xv6_State
  imports Xv6_Params
begin

text \<open>
  The kernel's data: one record per C structure and one record \<open>kstate\<close> for the
  kernel's global variables together with the memory, the disk and the processor the
  code runs on.

  Conventions.  A pointer into a statically allocated table (\<open>ptable.proc\<close>,
  \<open>icache.inode\<close>, \<open>ftable.file\<close>, \<open>bcache.buf\<close>) is the index of its entry, a null
  pointer is \<open>None\<close>.  A pointer to a page is its kernel virtual address.  Flag words
  (\<open>b->flags\<close>, \<open>ip->flags\<close>) are one boolean per flag bit.  C \<open>short\<close> and \<open>int\<close>
  fields are \<open>int\<close>; unsigned process fields and addresses are \<open>32 word\<close>; block and
  inode numbers and file offsets are \<open>nat\<close>, with the 32-bit wrap-around written out
  where the code tests for it.  The debugging fields of a lock (its name and
  \<open>pcs\<close>) are left out.
\<close>

section \<open>Locks and the processor (spinlock.h, proc.h)\<close>

datatype lockid =
    PtableLock | BcacheLock | LogLock | IcacheLock | FtableLock | KmemLock
  | ConsLock | IdeLock | PipeLock "32 word"

record spinlock =
  lk_locked :: bool
  lk_cpu :: "nat option"

record cpu =
  c_id :: nat
  ncli :: int
  intena :: bool
  eflags_if :: bool

section \<open>Processes (proc.h, x86.h)\<close>

datatype procstate = UNUSED | EMBRYO | SLEEPING | RUNNABLE | RUNNING | ZOMBIE

text \<open>Sleep channels: the addresses of the objects the kernel sleeps on.\<close>

datatype chan =
    ChanProc nat | ChanTicks | ChanBuf nat | ChanInode nat | ChanLog
  | ChanPipeR "32 word" | ChanPipeW "32 word" | ChanInput

record trapframe =
  tf_edi :: "32 word"
  tf_esi :: "32 word"
  tf_ebp :: "32 word"
  tf_ebx :: "32 word"
  tf_edx :: "32 word"
  tf_ecx :: "32 word"
  tf_eax :: "32 word"
  tf_gs :: "16 word"
  tf_fs :: "16 word"
  tf_es :: "16 word"
  tf_ds :: "16 word"
  tf_trapno :: "32 word"
  tf_err :: "32 word"
  tf_eip :: "32 word"
  tf_cs :: "16 word"
  tf_eflags :: "32 word"
  tf_esp :: "32 word"
  tf_ss :: "16 word"

record proc =
  p_sz :: "32 word"
  p_pgdir :: "32 word"
  p_kstack :: "32 word"
  p_state :: procstate
  p_pid :: "32 word"
  p_parent :: "nat option"
  p_tf :: trapframe
  p_chan :: "chan option"
  p_context :: "32 word"
  p_killed :: bool
  p_ofile :: "nat option list"
  p_cwd :: "nat option"
  p_name :: "byte list"
  p_start_ticks :: "32 word"
  p_uid :: "32 word"
  p_gid :: "32 word"
  p_cpu_ticks_total :: "32 word"
  p_cpu_ticks_in :: "32 word"
  p_next :: "nat option"
  p_budget :: "32 word"
  p_priority :: "32 word"

text \<open>
  \<open>struct StateLists\<close> of \<open>proc.c\<close> is a sequence of pointers: \<open>ready[MAXPRIO+1]\<close>,
  \<open>readyTail[MAXPRIO+1]\<close> and then head and tail of the five other lists.  It is kept as
  the function from the position of a pointer to its value, so that an index past the
  end of one array reaches the next one, as it does in C.
\<close>

type_synonym statelists = "nat \<Rightarrow> nat option"

section \<open>Disk, buffers and log (buf.h, bio.c, log.c, fs.h)\<close>

text \<open>Links of the buffer list: the sentinel \<open>bcache.head\<close> or a buffer.\<close>

datatype bptr = HeadP | BufP nat

record buf =
  b_busy :: bool
  b_valid :: bool
  b_dirty :: bool
  b_dev :: nat
  b_blockno :: nat
  b_prev :: bptr
  b_next :: bptr
  b_data :: bytes

record bcache =
  bc_buf :: "buf list"
  bc_head_prev :: bptr
  bc_head_next :: bptr

record logheader =
  lh_n :: int
  lh_block :: "nat \<Rightarrow> nat"

record log =
  lg_start :: nat
  lg_size :: nat
  lg_outstanding :: int
  lg_committing :: bool
  lg_dev :: nat
  lg_lh :: logheader

record superblock =
  sb_size :: nat
  sb_nblocks :: nat
  sb_ninodes :: nat
  sb_nlog :: nat
  sb_logstart :: nat
  sb_inodestart :: nat
  sb_bmapstart :: nat

section \<open>Inodes, files and pipes (fs.h, file.h, stat.h, pipe.c)\<close>

record dinode =
  di_type :: int
  di_major :: int
  di_minor :: int
  di_nlink :: int
  di_uid :: nat
  di_gid :: nat
  di_mode :: nat
  di_size :: nat
  di_addrs :: "nat \<Rightarrow> nat"

record inode =
  i_dev :: nat
  i_inum :: nat
  i_ref :: int
  i_busy :: bool
  i_valid :: bool
  i_type :: int
  i_major :: int
  i_minor :: int
  i_nlink :: int
  i_uid :: nat
  i_gid :: nat
  i_mode :: nat
  i_size :: nat
  i_addrs :: "nat \<Rightarrow> nat"

record stat =
  st_type :: int
  st_dev :: nat
  st_ino :: nat
  st_nlink :: int
  st_size :: nat
  st_mode :: nat
  st_uid :: nat
  st_gid :: nat

record dirent =
  de_inum :: nat
  de_name :: "byte list"

datatype filetype = FD_NONE | FD_PIPE | FD_INODE

record kfile =
  f_type :: filetype
  f_ref :: int
  f_readable :: bool
  f_writable :: bool
  f_pipe :: "32 word"
  f_ip :: nat
  f_off :: nat

record pipe =
  pi_data :: "nat \<Rightarrow> byte"
  pi_nread :: "32 word"
  pi_nwrite :: "32 word"
  pi_readopen :: bool
  pi_writeopen :: bool

section \<open>Console (console.c, uart.c, kbd.c)\<close>

text \<open>
  The variables of the three files with the devices behind them: \<open>cn_uart\<close> is the
  sequence of characters sent to the serial port, \<open>cn_crt\<close> and \<open>cn_pos\<close> the
  memory and the cursor register of the CGA screen, \<open>cn_shift\<close> the static \<open>shift\<close>
  of \<open>kbdgetc\<close>.
\<close>

record console =
  cn_locking :: bool
  cn_buf :: "nat \<Rightarrow> byte"
  cn_r :: "32 word"
  cn_w :: "32 word"
  cn_e :: "32 word"
  cn_uart_on :: bool
  cn_uart :: "int list"
  cn_shift :: "32 word"
  cn_crt :: "nat \<Rightarrow> 16 word"
  cn_pos :: int

section \<open>The kernel\<close>

text \<open>
  \<open>disk\<close> maps block numbers to contents; \<open>dtrace\<close> is the history of the block
  writes the driver has made, newest last, which the crash model cuts.  \<open>pg\<close> maps
  the kernel virtual address of a page to its contents.  \<open>devsw\<close> tells which major
  device numbers have their functions set.  \<open>kdata\<close> and \<open>kend\<close> are the addresses the
  linker gives \<open>data\<close> and \<open>end\<close>; they never change.  \<open>kfirst\<close> is the static \<open>first\<close> of
  \<open>forkret\<close>.
\<close>

record kstate =
  kcpu :: cpu
  locks :: "lockid \<Rightarrow> spinlock"
  ticks :: "32 word"
  cons :: console
  ptable :: "proc list"
  curproc :: "nat option"
  initproc :: "nat option"
  nextpid :: "32 word"
  pLists :: statelists
  PromoteAtTime :: "32 word"
  pg :: "32 word \<Rightarrow> bytes"
  kfreelist :: "32 word"
  use_lock :: bool
  kpgdir :: "32 word"
  cr3 :: "32 word"
  pipes :: "32 word \<Rightarrow> pipe"
  disk :: "nat \<Rightarrow> bytes"
  disksize :: nat
  dtrace :: "(nat \<times> bytes) list"
  kbcache :: bcache
  klog :: log
  sb :: superblock
  icache :: "inode list"
  ftable :: "kfile list"
  devsw :: "int \<Rightarrow> bool"
  kfirst :: bool
  kdata :: "32 word"
  kend :: "32 word"

type_synonym 'a kfun = "(kstate, 'a) kop"

text \<open>Reading and updating an entry of a table through its index.\<close>

definition getp :: "nat \<Rightarrow> proc kfun" where
  "getp i = gets (\<lambda>s. ptable s ! i)"

definition setp :: "nat \<Rightarrow> (proc \<Rightarrow> proc) \<Rightarrow> unit kfun" where
  "setp i f = modify (\<lambda>s. s\<lparr>ptable := upd_nth i f (ptable s)\<rparr>)"

definition geti :: "nat \<Rightarrow> inode kfun" where
  "geti i = gets (\<lambda>s. icache s ! i)"

definition seti :: "nat \<Rightarrow> (inode \<Rightarrow> inode) \<Rightarrow> unit kfun" where
  "seti i f = modify (\<lambda>s. s\<lparr>icache := upd_nth i f (icache s)\<rparr>)"

definition getf :: "nat \<Rightarrow> kfile kfun" where
  "getf i = gets (\<lambda>s. ftable s ! i)"

definition setf :: "nat \<Rightarrow> (kfile \<Rightarrow> kfile) \<Rightarrow> unit kfun" where
  "setf i f = modify (\<lambda>s. s\<lparr>ftable := upd_nth i f (ftable s)\<rparr>)"

definition getb :: "nat \<Rightarrow> buf kfun" where
  "getb i = gets (\<lambda>s. bc_buf (kbcache s) ! i)"

definition upd_buf :: "nat \<Rightarrow> (buf \<Rightarrow> buf) \<Rightarrow> bcache \<Rightarrow> bcache" where
  "upd_buf i f c = c\<lparr>bc_buf := upd_nth i f (bc_buf c)\<rparr>"

definition setb :: "nat \<Rightarrow> (buf \<Rightarrow> buf) \<Rightarrow> unit kfun" where
  "setb i f = modify (\<lambda>s. s\<lparr>kbcache := upd_buf i f (kbcache s)\<rparr>)"

lemmas table_defs [kdefs] = getp_def setp_def geti_def seti_def getf_def setf_def getb_def setb_def

section \<open>Zero-initialised data\<close>

text \<open>The kernel's globals as the loader leaves them: C's zero-initialised storage.\<close>

definition zero_trapframe :: trapframe where
  "zero_trapframe = \<lparr>tf_edi = 0, tf_esi = 0, tf_ebp = 0, tf_ebx = 0, tf_edx = 0, tf_ecx = 0,
     tf_eax = 0, tf_gs = 0, tf_fs = 0, tf_es = 0, tf_ds = 0, tf_trapno = 0, tf_err = 0,
     tf_eip = 0, tf_cs = 0, tf_eflags = 0, tf_esp = 0, tf_ss = 0\<rparr>"

definition zero_proc :: proc where
  "zero_proc = \<lparr>p_sz = 0, p_pgdir = 0, p_kstack = 0, p_state = UNUSED, p_pid = 0,
     p_parent = None, p_tf = zero_trapframe, p_chan = None, p_context = 0, p_killed = False,
     p_ofile = replicate NOFILE None, p_cwd = None, p_name = [], p_start_ticks = 0,
     p_uid = 0, p_gid = 0, p_cpu_ticks_total = 0, p_cpu_ticks_in = 0, p_next = None,
     p_budget = 0, p_priority = 0\<rparr>"

definition zero_buf :: buf where
  "zero_buf = \<lparr>b_busy = False, b_valid = False, b_dirty = False, b_dev = 0, b_blockno = 0,
     b_prev = HeadP, b_next = HeadP, b_data = zeros\<rparr>"

definition zero_inode :: inode where
  "zero_inode = \<lparr>i_dev = 0, i_inum = 0, i_ref = 0, i_busy = False, i_valid = False,
     i_type = 0, i_major = 0, i_minor = 0, i_nlink = 0, i_uid = 0, i_gid = 0, i_mode = 0,
     i_size = 0, i_addrs = (\<lambda>_. 0)\<rparr>"

definition zero_file :: kfile where
  "zero_file = \<lparr>f_type = FD_NONE, f_ref = 0, f_readable = False, f_writable = False,
     f_pipe = 0, f_ip = 0, f_off = 0\<rparr>"

definition zero_pipe :: pipe where
  "zero_pipe = \<lparr>pi_data = (\<lambda>_. 0), pi_nread = 0, pi_nwrite = 0, pi_readopen = False,
     pi_writeopen = False\<rparr>"

definition zero_log :: log where
  "zero_log = \<lparr>lg_start = 0, lg_size = 0, lg_outstanding = 0, lg_committing = False, lg_dev = 0,
     lg_lh = \<lparr>lh_n = 0, lh_block = (\<lambda>_. 0)\<rparr>\<rparr>"

definition zero_sb :: superblock where
  "zero_sb = \<lparr>sb_size = 0, sb_nblocks = 0, sb_ninodes = 0, sb_nlog = 0, sb_logstart = 0,
     sb_inodestart = 0, sb_bmapstart = 0\<rparr>"

definition zero_cpu :: "nat \<Rightarrow> cpu" where
  "zero_cpu i = \<lparr>c_id = i, ncli = 0, intena = False, eflags_if = False\<rparr>"

definition kzero :: kstate where
  "kzero = \<lparr>kcpu = zero_cpu 0, locks = (\<lambda>_. \<lparr>lk_locked = False, lk_cpu = None\<rparr>), ticks = 0,
     cons = \<lparr>cn_locking = False, cn_buf = (\<lambda>_. 0), cn_r = 0, cn_w = 0, cn_e = 0,
             cn_uart_on = False, cn_uart = [], cn_shift = 0, cn_crt = (\<lambda>_. 0), cn_pos = 0\<rparr>,
     ptable = replicate NPROC zero_proc, curproc = None, initproc = None, nextpid = 1,
     pLists = (\<lambda>_. None), PromoteAtTime = 0,
     pg = (\<lambda>_. zeros), kfreelist = 0, use_lock = False, kpgdir = 0, cr3 = 0,
     pipes = (\<lambda>_. zero_pipe), disk = (\<lambda>_. zeros), disksize = 0, dtrace = [],
     kbcache = \<lparr>bc_buf = replicate NBUF zero_buf, bc_head_prev = HeadP, bc_head_next = HeadP\<rparr>,
     klog = zero_log, sb = zero_sb, icache = replicate NINODE zero_inode,
     ftable = replicate NFILE zero_file, devsw = (\<lambda>_. False), kfirst = True,
     kdata = 0x80108000, kend = 0x80116000\<rparr>"

lemmas zero_defs = zero_trapframe_def zero_proc_def zero_buf_def zero_inode_def zero_file_def
  zero_pipe_def zero_log_def zero_sb_def zero_cpu_def

end
