(* ===== verification/Spinlock.thy ===== *)
theory Spinlock
  imports Xv6_State
begin

text \<open>
  \<open>spinlock.c\<close>: matched interrupt disabling (\<open>pushcli\<close>, \<open>popcli\<close>) and spin locks.
  \<open>acquire\<close> returns only where the atomic exchange finds the lock free; where another
  processor holds it the caller spins (\<open>Spin\<close>), and where the caller itself holds it
  the code panics.  The second half interleaves any number of processors over the
  same definitions and shows mutual exclusion, and that a processor holding a lock has
  its interrupts off.
\<close>

section \<open>Definitions\<close>

definition spin :: "'a kfun" where
  "spin s = Spin"

definition initlock :: "lockid \<Rightarrow> unit kfun" where
  "initlock lk = modify (\<lambda>s. s\<lparr>locks := (locks s)(lk := \<lparr>lk_locked = False, lk_cpu = None\<rparr>)\<rparr>)"

definition holding :: "lockid \<Rightarrow> bool kfun" where
  "holding lk = gets (\<lambda>s. lk_locked (locks s lk) \<and> lk_cpu (locks s lk) = Some (c_id (kcpu s)))"

definition pushcli :: "unit kfun" where
  "pushcli =
     bnd (gets (\<lambda>s. eflags_if (kcpu s))) (\<lambda>eflags.
     sq (modify (\<lambda>s. s\<lparr>kcpu := (kcpu s)\<lparr>eflags_if := False\<rparr>\<rparr>))
     (bnd (gets (\<lambda>s. ncli (kcpu s))) (\<lambda>n.
     sq (modify (\<lambda>s. s\<lparr>kcpu := (kcpu s)\<lparr>ncli := n + 1\<rparr>\<rparr>))
     (whenk (n = 0) (modify (\<lambda>s. s\<lparr>kcpu := (kcpu s)\<lparr>intena := eflags\<rparr>\<rparr>))))))"

definition popcli :: "unit kfun" where
  "popcli =
     bnd (gets (\<lambda>s. eflags_if (kcpu s))) (\<lambda>eflags.
     if eflags then panic ''popcli - interruptible''
     else bnd (gets (\<lambda>s. ncli (kcpu s) - 1)) (\<lambda>n.
     sq (modify (\<lambda>s. s\<lparr>kcpu := (kcpu s)\<lparr>ncli := n\<rparr>\<rparr>))
     (if n < 0 then panic ''popcli''
      else bnd (gets (\<lambda>s. intena (kcpu s))) (\<lambda>en.
        whenk (n = 0 \<and> en) (modify (\<lambda>s. s\<lparr>kcpu := (kcpu s)\<lparr>eflags_if := True\<rparr>\<rparr>))))))"

definition acquire :: "lockid \<Rightarrow> unit kfun" where
  "acquire lk =
     sq pushcli
     (bnd (holding lk) (\<lambda>h.
      if h then panic ''acquire''
      else bnd (gets (\<lambda>s. lk_locked (locks s lk))) (\<lambda>locked.
        if locked then spin
        else modify (\<lambda>s. s\<lparr>locks := (locks s)(lk := \<lparr>lk_locked = True, lk_cpu = Some (c_id (kcpu s))\<rparr>)\<rparr>))))"

definition release :: "lockid \<Rightarrow> unit kfun" where
  "release lk =
     bnd (holding lk) (\<lambda>h.
     if \<not> h then panic ''release''
     else sq (modify (\<lambda>s. s\<lparr>locks := (locks s)(lk := \<lparr>lk_locked = False, lk_cpu = None\<rparr>)\<rparr>))
       popcli)"

text \<open>
  \<open>getcallerpcs\<close> follows the saved \<open>%ebp\<close> chain: \<open>ld\<close> reads a word of memory, and
  \<open>ebp[1]\<close>, \<open>ebp[0]\<close> are at \<open>ebp + 4\<close> and \<open>ebp\<close>.
\<close>

fun pcs_walk :: "nat \<Rightarrow> (32 word \<Rightarrow> 32 word) \<Rightarrow> 32 word \<Rightarrow> (32 word) list" where
  "pcs_walk 0 ld ebp = []"
| "pcs_walk (Suc i) ld ebp =
     (if ebp = 0 \<or> ebp < KERNBASE \<or> ebp = 0xffffffff then replicate (Suc i) 0
      else ld (ebp + 4) # pcs_walk i ld (ld ebp))"

definition getcallerpcs :: "(32 word \<Rightarrow> 32 word) \<Rightarrow> 32 word \<Rightarrow> (32 word) list" where
  "getcallerpcs ld v = pcs_walk 10 ld (v - 8)"

section \<open>The effect of the operations\<close>

definition pushed :: "cpu \<Rightarrow> cpu" where
  "pushed c = c\<lparr>eflags_if := False, ncli := ncli c + 1,
                intena := (if ncli c = 0 then eflags_if c else intena c)\<rparr>"

definition popped :: "cpu \<Rightarrow> cpu" where
  "popped c = c\<lparr>ncli := ncli c - 1, eflags_if := (ncli c = 1 \<and> intena c)\<rparr>"

definition acquired :: "lockid \<Rightarrow> kstate \<Rightarrow> kstate" where
  "acquired lk s = s\<lparr>kcpu := pushed (kcpu s),
     locks := (locks s)(lk := \<lparr>lk_locked = True, lk_cpu = Some (c_id (kcpu s))\<rparr>)\<rparr>"

definition released :: "lockid \<Rightarrow> kstate \<Rightarrow> kstate" where
  "released lk s = s\<lparr>kcpu := popped (kcpu s),
     locks := (locks s)(lk := \<lparr>lk_locked = False, lk_cpu = None\<rparr>)\<rparr>"

definition releasable :: "lockid \<Rightarrow> kstate \<Rightarrow> bool" where
  "releasable lk s \<longleftrightarrow>
     lk_locked (locks s lk) \<and> lk_cpu (locks s lk) = Some (c_id (kcpu s)) \<and>
     \<not> eflags_if (kcpu s) \<and> 1 \<le> ncli (kcpu s)"

lemma pushcli_eq: "pushcli s = Done () (s\<lparr>kcpu := pushed (kcpu s)\<rparr>)"
  by (simp add: pushcli_def pushed_def bnd_def sq_def gets_def modify_def whenk_def ret_def)

lemma popcli_eq:
  "popcli s =
     (if eflags_if (kcpu s) then Panic ''popcli - interruptible''
      else if ncli (kcpu s) < 1 then Panic ''popcli''
      else Done () (s\<lparr>kcpu := popped (kcpu s)\<rparr>))"
  by (auto simp: popcli_def popped_def bnd_def sq_def gets_def modify_def whenk_def ret_def panic_def)

lemma acquire_eq:
  "acquire lk s =
     (if lk_locked (locks s lk)
      then if lk_cpu (locks s lk) = Some (c_id (kcpu s)) then Panic ''acquire'' else Spin
      else Done () (acquired lk s))"
  by (simp add: acquire_def acquired_def pushcli_eq bnd_def sq_def gets_def modify_def
      holding_def panic_def spin_def pushed_def)

lemma release_eq:
  "release lk s =
     (if \<not> (lk_locked (locks s lk) \<and> lk_cpu (locks s lk) = Some (c_id (kcpu s)))
      then Panic ''release''
      else if eflags_if (kcpu s) then Panic ''popcli - interruptible''
      else if ncli (kcpu s) < 1 then Panic ''popcli''
      else Done () (released lk s))"
  by (simp add: release_def released_def popcli_eq bnd_def sq_def gets_def modify_def
      holding_def panic_def)

lemma wp_acquire [wp]: "wp (acquire lk) Q s \<longleftrightarrow> lk_locked (locks s lk) \<or> Q () (acquired lk s)"
  by (simp add: wp_def acquire_eq)

lemma twp_acquire [wp]: "twp (acquire lk) Q s \<longleftrightarrow> \<not> lk_locked (locks s lk) \<and> Q () (acquired lk s)"
  by (simp add: twp_def acquire_eq)

lemma wp_release [wp]: "wp (release lk) Q s \<longleftrightarrow> (releasable lk s \<longrightarrow> Q () (released lk s))"
  by (auto simp: wp_def release_eq releasable_def)

lemma twp_release [wp]: "twp (release lk) Q s \<longleftrightarrow> releasable lk s \<and> Q () (released lk s)"
  by (auto simp: twp_def release_eq releasable_def)

lemma wp_holding [wp]:
  "wp (holding lk) Q s = Q (lk_locked (locks s lk) \<and> lk_cpu (locks s lk) = Some (c_id (kcpu s))) s"
  by (simp add: holding_def wp)

lemma twp_holding [wp]:
  "twp (holding lk) Q s = Q (lk_locked (locks s lk) \<and> lk_cpu (locks s lk) = Some (c_id (kcpu s))) s"
  by (simp add: holding_def wp)

lemma acquired_fields [simp]:
  "ticks (acquired lk s) = ticks s" "cons (acquired lk s) = cons s"
  "ptable (acquired lk s) = ptable s" "curproc (acquired lk s) = curproc s"
  "initproc (acquired lk s) = initproc s" "nextpid (acquired lk s) = nextpid s"
  "pLists (acquired lk s) = pLists s" "PromoteAtTime (acquired lk s) = PromoteAtTime s"
  "pg (acquired lk s) = pg s" "kfreelist (acquired lk s) = kfreelist s"
  "use_lock (acquired lk s) = use_lock s" "kpgdir (acquired lk s) = kpgdir s"
  "cr3 (acquired lk s) = cr3 s" "pipes (acquired lk s) = pipes s"
  "disk (acquired lk s) = disk s" "disksize (acquired lk s) = disksize s"
  "dtrace (acquired lk s) = dtrace s" "kbcache (acquired lk s) = kbcache s"
  "klog (acquired lk s) = klog s" "sb (acquired lk s) = sb s"
  "icache (acquired lk s) = icache s" "ftable (acquired lk s) = ftable s"
  "devsw (acquired lk s) = devsw s" "kfirst (acquired lk s) = kfirst s"
  "kdata (acquired lk s) = kdata s" "kend (acquired lk s) = kend s"
  by (simp_all add: acquired_def)

lemma released_fields [simp]:
  "ticks (released lk s) = ticks s" "cons (released lk s) = cons s"
  "ptable (released lk s) = ptable s" "curproc (released lk s) = curproc s"
  "initproc (released lk s) = initproc s" "nextpid (released lk s) = nextpid s"
  "pLists (released lk s) = pLists s" "PromoteAtTime (released lk s) = PromoteAtTime s"
  "pg (released lk s) = pg s" "kfreelist (released lk s) = kfreelist s"
  "use_lock (released lk s) = use_lock s" "kpgdir (released lk s) = kpgdir s"
  "cr3 (released lk s) = cr3 s" "pipes (released lk s) = pipes s"
  "disk (released lk s) = disk s" "disksize (released lk s) = disksize s"
  "dtrace (released lk s) = dtrace s" "kbcache (released lk s) = kbcache s"
  "klog (released lk s) = klog s" "sb (released lk s) = sb s"
  "icache (released lk s) = icache s" "ftable (released lk s) = ftable s"
  "devsw (released lk s) = devsw s" "kfirst (released lk s) = kfirst s"
  "kdata (released lk s) = kdata s" "kend (released lk s) = kend s"
  by (simp_all add: released_def)

lemma locks_acquired [simp]:
  "locks (acquired lk s) = (locks s)(lk := \<lparr>lk_locked = True, lk_cpu = Some (c_id (kcpu s))\<rparr>)"
  "kcpu (acquired lk s) = pushed (kcpu s)"
  by (simp_all add: acquired_def)

lemma locks_released [simp]:
  "locks (released lk s) = (locks s)(lk := \<lparr>lk_locked = False, lk_cpu = None\<rparr>)"
  "kcpu (released lk s) = popped (kcpu s)"
  by (simp_all add: released_def)

lemma keeps_acquire [intro]: "(\<And>s. f (acquired lk s) = f s) \<Longrightarrow> keeps f (acquire lk)"
  by (simp add: keeps_def wp)

lemma keeps_release [intro]: "(\<And>s. f (released lk s) = f s) \<Longrightarrow> keeps f (release lk)"
  by (simp add: keeps_def wp)

lemma keeps_holding [intro]: "keeps f (holding lk)"
  by (simp add: holding_def keeps_gets)

section \<open>Critical sections\<close>

definition cpu_ok :: "cpu \<Rightarrow> bool" where
  "cpu_ok c \<longleftrightarrow> 0 \<le> ncli c \<and> (0 < ncli c \<longrightarrow> \<not> eflags_if c)"

definition locks_ok :: "kstate \<Rightarrow> bool" where
  "locks_ok s \<longleftrightarrow> (\<forall>lk. \<not> lk_locked (locks s lk) \<longrightarrow> lk_cpu (locks s lk) = None)"

text \<open>What a balanced operation leaves: the same locks held, the same interrupt state.\<close>

definition balanced :: "kstate \<Rightarrow> kstate \<Rightarrow> bool" where
  "balanced s s' \<longleftrightarrow>
     locks s' = locks s \<and> ncli (kcpu s') = ncli (kcpu s) \<and>
     eflags_if (kcpu s') = eflags_if (kcpu s) \<and> c_id (kcpu s') = c_id (kcpu s)"

lemma pushed_fields [simp]: "c_id (pushed c) = c_id c" "ncli (pushed c) = ncli c + 1"
  "\<not> eflags_if (pushed c)"
  by (simp_all add: pushed_def)

lemma popped_fields [simp]: "c_id (popped c) = c_id c" "ncli (popped c) = ncli c - 1"
  by (simp_all add: popped_def)

lemma eflags_popped_pushed [simp]: "cpu_ok c \<Longrightarrow> eflags_if (popped (pushed c)) = eflags_if c"
  by (auto simp: cpu_ok_def popped_def pushed_def)

lemma cpu_ok_pushed [simp]: "cpu_ok c \<Longrightarrow> cpu_ok (pushed c)"
  by (simp add: cpu_ok_def)

lemma releasable_acquired [simp]: "cpu_ok (kcpu s) \<Longrightarrow> releasable lk (acquired lk s)"
  by (simp add: releasable_def cpu_ok_def)

lemma balanced_refl [simp]: "balanced s s"
  by (simp add: balanced_def)

lemma balanced_trans: "balanced s t \<Longrightarrow> balanced t u \<Longrightarrow> balanced s u"
  by (simp add: balanced_def)

text \<open>
  A critical section is balanced: if its body, run with the lock held, is balanced, then
  so is the whole of \<open>acquire\<close>, body and \<open>release\<close>.
\<close>

lemma critical_balanced:
  assumes "cpu_ok (kcpu s)" "locks_ok s" "\<not> lk_locked (locks s lk)"
    and body: "balanced (acquired lk s) s'" and en: "intena (kcpu s') = intena (kcpu (acquired lk s))"
  shows "releasable lk s' \<and> balanced s (released lk s')"
proof -
  have l: "locks s' = locks (acquired lk s)" "ncli (kcpu s') = ncli (pushed (kcpu s))"
    "\<not> eflags_if (kcpu s')" "c_id (kcpu s') = c_id (kcpu s)"
    using body by (simp_all add: balanced_def)
  have "releasable lk s'" using l assms(1) by (simp add: releasable_def cpu_ok_def)
  moreover have "(locks s)(lk := \<lparr>lk_locked = False, lk_cpu = None\<rparr>) = locks s"
    using assms(2,3) by (auto simp: locks_ok_def fun_eq_iff)
  moreover have "eflags_if (popped (kcpu s')) = eflags_if (kcpu s)"
    using l en assms(1) by (auto simp: popped_def pushed_def cpu_ok_def)
  ultimately show ?thesis using l by (simp add: balanced_def)
qed

section \<open>Several processors\<close>

text \<open>
  Any number of processors share the locks of one \<open>kstate\<close>; processor \<open>i\<close> runs with
  its own \<open>cpu\<close> record \<open>m_cpu M i\<close>.  A step is one processor completing an
  \<open>acquire\<close> or a \<open>release\<close> (the atomic exchange decides); a spinning processor makes no
  step.  \<open>m_held\<close> records which processors are between the two calls.
\<close>

record mp =
  m_st :: kstate
  m_cpu :: "nat \<Rightarrow> cpu"
  m_held :: "lockid \<Rightarrow> nat set"

inductive mp_step :: "mp \<Rightarrow> mp \<Rightarrow> bool" where
  mp_acquire: "acquire lk ((m_st M)\<lparr>kcpu := m_cpu M i\<rparr>) = Done () s' \<Longrightarrow>
     mp_step M \<lparr>m_st = s', m_cpu = (m_cpu M)(i := kcpu s'),
                m_held = (m_held M)(lk := insert i (m_held M lk))\<rparr>"
| mp_release: "release lk ((m_st M)\<lparr>kcpu := m_cpu M i\<rparr>) = Done () s' \<Longrightarrow>
     mp_step M \<lparr>m_st = s', m_cpu = (m_cpu M)(i := kcpu s'),
                m_held = (m_held M)(lk := m_held M lk - {i})\<rparr>"

definition mp_init :: "mp \<Rightarrow> bool" where
  "mp_init M \<longleftrightarrow>
     (\<forall>lk. \<not> lk_locked (locks (m_st M) lk) \<and> m_held M lk = {}) \<and>
     (\<forall>i. c_id (m_cpu M i) = i \<and> ncli (m_cpu M i) = 0)"

inductive mp_reach :: "mp \<Rightarrow> bool" where
  mp_start: "mp_init M \<Longrightarrow> mp_reach M"
| mp_next: "mp_reach M \<Longrightarrow> mp_step M M' \<Longrightarrow> mp_reach M'"

definition held_by :: "mp \<Rightarrow> nat \<Rightarrow> lockid set" where
  "held_by M i = {lk. i \<in> m_held M lk}"

definition mp_inv :: "mp \<Rightarrow> bool" where
  "mp_inv M \<longleftrightarrow>
     (\<forall>lk. m_held M lk =
        (if lk_locked (locks (m_st M) lk) then {i. lk_cpu (locks (m_st M) lk) = Some i} else {})) \<and>
     (\<forall>i. c_id (m_cpu M i) = i \<and> cpu_ok (m_cpu M i) \<and>
          finite (held_by M i) \<and> ncli (m_cpu M i) = int (card (held_by M i)))"

lemma mp_inv_init: "mp_init M \<Longrightarrow> mp_inv M"
  by (simp add: mp_init_def mp_inv_def held_by_def cpu_ok_def)

lemma mp_inv_held: "mp_inv M \<Longrightarrow> i \<in> m_held M lk \<longleftrightarrow>
    lk_locked (locks (m_st M) lk) \<and> lk_cpu (locks (m_st M) lk) = Some i"
  by (simp add: mp_inv_def)

lemma cpu_ok_popped: "cpu_ok c \<Longrightarrow> 1 \<le> ncli c \<Longrightarrow> cpu_ok (popped c)"
  by (auto simp: cpu_ok_def popped_def)

lemma mp_inv_change:
  assumes inv: "mp_inv M"
    and held: "\<And>k. m_held M' k =
        (if lk_locked (locks (m_st M') k) then {j. lk_cpu (locks (m_st M') k) = Some j} else {})"
    and cpu: "\<And>j. j \<noteq> i \<Longrightarrow> m_cpu M' j = m_cpu M j" "c_id (m_cpu M' i) = i" "cpu_ok (m_cpu M' i)"
    and other: "\<And>j. j \<noteq> i \<Longrightarrow> held_by M' j = held_by M j"
    and count: "finite (held_by M' i)" "ncli (m_cpu M' i) = int (card (held_by M' i))"
  shows "mp_inv M'"
  unfolding mp_inv_def
proof (intro conjI allI)
  fix k show "m_held M' k =
      (if lk_locked (locks (m_st M') k) then {j. lk_cpu (locks (m_st M') k) = Some j} else {})"
    by (rule held)
next
  fix j
  show "c_id (m_cpu M' j) = j" "cpu_ok (m_cpu M' j)" "finite (held_by M' j)"
    "ncli (m_cpu M' j) = int (card (held_by M' j))"
    using inv cpu other count by (cases "j = i"; simp add: mp_inv_def)+
qed

lemma mp_acquire_inv:
  assumes inv: "mp_inv M" and acq: "acquire lk ((m_st M)\<lparr>kcpu := m_cpu M i\<rparr>) = Done () s'"
  shows "mp_inv \<lparr>m_st = s', m_cpu = (m_cpu M)(i := kcpu s'),
                 m_held = (m_held M)(lk := insert i (m_held M lk))\<rparr>" (is "mp_inv ?M'")
proof -
  have free: "\<not> lk_locked (locks (m_st M) lk)" and s': "s' = acquired lk ((m_st M)\<lparr>kcpu := m_cpu M i\<rparr>)"
    using acq by (auto simp: acquire_eq split: if_splits)
  have ci: "c_id (m_cpu M i) = i" "cpu_ok (m_cpu M i)" "finite (held_by M i)"
    "ncli (m_cpu M i) = int (card (held_by M i))" using inv by (simp_all add: mp_inv_def)
  have empty: "m_held M lk = {}" using inv free by (simp add: mp_inv_def)
  have hi: "held_by ?M' i = insert lk (held_by M i)" "lk \<notin> held_by M i"
    using empty by (auto simp: held_by_def)
  show ?thesis
  proof (rule mp_inv_change [OF inv, where i = i])
    fix k show "m_held ?M' k = (if lk_locked (locks (m_st ?M') k)
        then {j. lk_cpu (locks (m_st ?M') k) = Some j} else {})"
      using inv empty ci s' by (auto simp: mp_inv_def)
  qed (use hi ci s' in \<open>auto simp: held_by_def\<close>)
qed

lemma mp_release_inv:
  assumes inv: "mp_inv M" and rel: "release lk ((m_st M)\<lparr>kcpu := m_cpu M i\<rparr>) = Done () s'"
  shows "mp_inv \<lparr>m_st = s', m_cpu = (m_cpu M)(i := kcpu s'),
                 m_held = (m_held M)(lk := m_held M lk - {i})\<rparr>" (is "mp_inv ?M'")
proof -
  have r: "releasable lk ((m_st M)\<lparr>kcpu := m_cpu M i\<rparr>)" and s': "s' = released lk ((m_st M)\<lparr>kcpu := m_cpu M i\<rparr>)"
    using rel by (auto simp: release_eq releasable_def split: if_splits)
  have ci: "c_id (m_cpu M i) = i" "cpu_ok (m_cpu M i)" "finite (held_by M i)"
    "ncli (m_cpu M i) = int (card (held_by M i))" using inv by (simp_all add: mp_inv_def)
  have lki: "m_held M lk = {i}" using inv r ci by (auto simp: mp_inv_def releasable_def)
  have hi: "held_by ?M' i = held_by M i - {lk}" "lk \<in> held_by M i"
    using lki by (auto simp: held_by_def)
  have card: "card (held_by M i) = Suc (card (held_by M i - {lk}))"
    using card.remove [OF ci(3) hi(2)] by simp
  show ?thesis
  proof (rule mp_inv_change [OF inv, where i = i])
    fix k show "m_held ?M' k = (if lk_locked (locks (m_st ?M') k)
        then {j. lk_cpu (locks (m_st ?M') k) = Some j} else {})"
      using inv lki ci s' by (auto simp: mp_inv_def)
  next
    show "cpu_ok (m_cpu ?M' i)" using ci r s' by (simp add: releasable_def cpu_ok_popped)
  next
    show "finite (held_by ?M' i)" using hi(1) ci by simp
  next
    show "ncli (m_cpu ?M' i) = int (card (held_by ?M' i))" using hi(1) card ci s' by simp
  qed (use ci s' in \<open>auto simp: held_by_def\<close>)
qed

lemma mp_step_inv: "mp_step M M' \<Longrightarrow> mp_inv M \<Longrightarrow> mp_inv M'"
  by (induction rule: mp_step.induct) (auto intro: mp_acquire_inv mp_release_inv)

lemma mp_reach_inv: "mp_reach M \<Longrightarrow> mp_inv M"
  by (induction rule: mp_reach.induct) (auto intro: mp_inv_init mp_step_inv)

lemma held_interrupts_off:
  assumes "mp_inv M" "i \<in> m_held M lk"
  shows "\<not> eflags_if (m_cpu M i) \<and> 1 \<le> ncli (m_cpu M i)"
proof -
  have "lk \<in> held_by M i" using assms(2) by (simp add: held_by_def)
  moreover have "finite (held_by M i)" using assms(1) by (simp add: mp_inv_def)
  ultimately have "0 < card (held_by M i)" by (auto simp: card_gt_0_iff)
  then show ?thesis using assms(1) by (auto simp: mp_inv_def cpu_ok_def)
qed

section \<open>Properties\<close>

text \<open>
  C1: Mutual exclusion.  In every interleaving of completed \<open>acquire\<close> and \<open>release\<close>
  calls by any number of processors, two processors never hold the same lock, the
  lock's \<open>cpu\<close> field names the holder, and the holder runs with interrupts disabled
  and a positive \<open>pushcli\<close> depth.
\<close>

theorem spinlock_mutual_exclusion:
  assumes "mp_reach M" and "i \<in> m_held M lk" and "j \<in> m_held M lk"
  shows "i = j \<and> lk_cpu (locks (m_st M) lk) = Some i \<and>
    \<not> eflags_if (m_cpu M i) \<and> 1 \<le> ncli (m_cpu M i)"
proof -
  have inv: "mp_inv M" using assms(1) by (rule mp_reach_inv)
  then show ?thesis
    using assms(2,3) held_interrupts_off [OF inv assms(2)] by (simp add: mp_inv_held)
qed

definition mp_example :: mp where
  "mp_example = \<lparr>m_st = kzero, m_cpu = zero_cpu, m_held = (\<lambda>_. {})\<rparr>"

theorem spinlock_mutual_exclusion_witness:
  "\<exists>M. mp_reach M \<and> 3 \<in> m_held M PtableLock \<and> \<not> eflags_if (m_cpu M 3) \<and> 1 \<le> ncli (m_cpu M 3)"
proof -
  let ?s = "(m_st mp_example)\<lparr>kcpu := m_cpu mp_example 3\<rparr>"
  let ?s' = "acquired PtableLock ?s"
  let ?M = "\<lparr>m_st = ?s', m_cpu = (m_cpu mp_example)(3 := kcpu ?s'),
             m_held = (m_held mp_example)(PtableLock := insert 3 (m_held mp_example PtableLock))\<rparr>"
  have "mp_init mp_example"
    by (simp add: mp_init_def mp_example_def kzero_def zero_cpu_def)
  moreover have "acquire PtableLock ?s = Done () ?s'"
    by (simp add: acquire_eq mp_example_def kzero_def)
  then have "mp_step mp_example ?M" by (rule mp_step.mp_acquire)
  ultimately have r: "mp_reach ?M" by (blast intro: mp_reach.intros)
  have h: "3 \<in> m_held ?M PtableLock" by simp
  show ?thesis using r h spinlock_mutual_exclusion [OF r h h] by blast
qed

text \<open>
  C2: A critical section restores the processor.  From a state whose lock is free,
  \<open>acquire\<close> followed by \<open>release\<close> returns, and leaves the locks, the nesting depth and
  the interrupt flag as they were; nested sections therefore never enable interrupts
  early.
\<close>

theorem acquire_release_restores:
  assumes "cpu_ok (kcpu s)" and "locks_ok s" and "\<not> lk_locked (locks s lk)"
  shows "\<exists>s'. sq (acquire lk) (release lk) s = Done () s' \<and> balanced s s' \<and> ptable s' = ptable s"
proof -
  have "twp (sq (acquire lk) (release lk)) (\<lambda>_ s'. balanced s s' \<and> ptable s' = ptable s) s"
    using critical_balanced [OF assms balanced_refl refl] assms by (simp add: wp)
  then show ?thesis by (simp add: twp_iff)
qed

theorem acquire_release_restores_witness:
  "cpu_ok (kcpu kzero) \<and> locks_ok kzero \<and>
   (\<exists>s'. sq (acquire LogLock) (release LogLock) kzero = Done () s' \<and> balanced kzero s')"
proof -
  have h: "cpu_ok (kcpu kzero)" "locks_ok kzero" "\<not> lk_locked (locks kzero LogLock)"
    by (simp_all add: kzero_def zero_cpu_def cpu_ok_def locks_ok_def)
  show ?thesis using h acquire_release_restores [OF h] by blast
qed

lemma length_pcs_walk: "length (pcs_walk n ld ebp) = n"
  by (induction n arbitrary: ebp) auto

end
