(* ===== verification/Sched.thy ===== *)
theory Sched
  imports Spinlock
begin

text \<open>
  The part of \<open>proc.c\<close> every blocking operation of the kernel uses: \<open>sched\<close>, \<open>yield\<close>,
  \<open>sleep\<close> and \<open>wakeup\<close>, for the configuration without the P3/P4 state lists.

  A call of \<open>sched\<close> ends a process's turn: the outcome is \<open>Switch\<close> with the state the
  scheduler takes over.  What the process does when it is chosen again is a definition
  of its own (\<open>sched_resume\<close>, \<open>sleep_resume\<close>, \<open>yield_resume\<close>), run from whatever
  state the other processes have left.  A blocking operation is a loop whose body
  either finishes or sleeps; the loop function is also the code a resumed process
  continues with.

  \<open>quiet\<close> describes a processor between critical sections; the \<open>wakeup\<close> lemmas give
  the effect on the process table that the users of \<open>wakeup\<close> rely on.
\<close>

section \<open>Definitions\<close>

definition pinit :: "unit kfun" where
  "pinit = initlock PtableLock"

text \<open>\<open>proc == 0\<close> makes the C code dereference a null pointer; the model panics.\<close>

definition myproc :: "nat kfun" where
  "myproc = bnd (gets curproc) (\<lambda>p. case p of None \<Rightarrow> panic ''null proc'' | Some i \<Rightarrow> ret i)"

definition sched :: "'a kfun" where
  "sched =
     bnd (holding PtableLock) (\<lambda>h.
     if \<not> h then panic ''sched ptable.lock''
     else bnd (gets (\<lambda>s. ncli (kcpu s))) (\<lambda>n.
     if n \<noteq> 1 then panic ''sched locks''
     else bnd myproc (\<lambda>i. bnd (getp i) (\<lambda>p.
     if p_state p = RUNNING then panic ''sched running''
     else bnd (gets (\<lambda>s. eflags_if (kcpu s))) (\<lambda>fl.
     if fl then panic ''sched interruptible''
     else switch_away)))))"

text \<open>After \<open>swtch\<close> returns: \<open>cpu->intena\<close> is restored from the process's stack.\<close>

definition sched_resume :: "bool \<Rightarrow> unit kfun" where
  "sched_resume en = modify (\<lambda>s. s\<lparr>kcpu := (kcpu s)\<lparr>intena := en\<rparr>\<rparr>)"

definition yield :: "unit kfun" where
  "yield =
     sq (acquire PtableLock)
     (bnd myproc (\<lambda>i.
     sq (setp i (\<lambda>p. p\<lparr>p_state := RUNNABLE\<rparr>))
     sched))"

definition yield_resume :: "bool \<Rightarrow> unit kfun" where
  "yield_resume en = sq (sched_resume en) (release PtableLock)"

text \<open>\<open>sleep\<close> up to the switch, and from the switch on; \<open>None\<close> is a null lock.\<close>

definition sleep :: "chan \<Rightarrow> lockid option \<Rightarrow> 'a kfun" where
  "sleep ch lk =
     bnd (gets curproc) (\<lambda>c.
     case c of None \<Rightarrow> panic ''sleep''
     | Some i \<Rightarrow>
       sq (whenk (lk \<noteq> Some PtableLock)
            (sq (acquire PtableLock)
                (case lk of None \<Rightarrow> ret () | Some l \<Rightarrow> release l)))
       (sq (setp i (\<lambda>p. p\<lparr>p_chan := Some ch\<rparr>))
       (sq (setp i (\<lambda>p. p\<lparr>p_state := SLEEPING\<rparr>))
       sched)))"

definition sleep_resume :: "bool \<Rightarrow> lockid option \<Rightarrow> unit kfun" where
  "sleep_resume en lk =
     sq (sched_resume en)
     (bnd myproc (\<lambda>i.
     sq (setp i (\<lambda>p. p\<lparr>p_chan := None\<rparr>))
     (whenk (lk \<noteq> Some PtableLock)
        (sq (release PtableLock)
            (case lk of None \<Rightarrow> ret () | Some l \<Rightarrow> acquire l)))))"

text \<open>The body of \<open>wakeup1\<close>'s loop; a null channel wakes nobody that sleeps on an object.\<close>

definition wake :: "chan \<Rightarrow> proc \<Rightarrow> proc" where
  "wake ch p = (if p_state p = SLEEPING \<and> p_chan p = Some ch then p\<lparr>p_state := RUNNABLE\<rparr> else p)"

definition wakeup1 :: "chan \<Rightarrow> unit kfun" where
  "wakeup1 ch = forM [0 ..< NPROC] (\<lambda>i. setp i (wake ch))"

definition wakeup :: "chan \<Rightarrow> unit kfun" where
  "wakeup ch = sq (acquire PtableLock) (sq (wakeup1 ch) (release PtableLock))"

section \<open>A processor between critical sections\<close>

definition free_lock :: spinlock where
  "free_lock = \<lparr>lk_locked = False, lk_cpu = None\<rparr>"

definition quiet :: "kstate \<Rightarrow> bool" where
  "quiet s \<longleftrightarrow> locks s = (\<lambda>_. free_lock) \<and> ncli (kcpu s) = 0"

lemma quiet_free [simp]: "quiet s \<Longrightarrow> \<not> lk_locked (locks s lk)"
  by (simp add: quiet_def free_lock_def)

lemma quiet_releasable [simp]: "quiet s \<Longrightarrow> releasable lk (acquired lk s)"
  by (simp add: quiet_def releasable_def)

lemma quiet_cong: "locks s' = locks s \<Longrightarrow> kcpu s' = kcpu s \<Longrightarrow> quiet s' = quiet s"
  by (simp add: quiet_def)

text \<open>A critical section run on a quiet processor, whatever its body does elsewhere.\<close>

lemma releasable_body [simp]:
  "quiet s \<Longrightarrow> locks t = locks (acquired lk s) \<Longrightarrow> kcpu t = kcpu (acquired lk s) \<Longrightarrow> releasable lk t"
  by (simp add: quiet_def releasable_def)

lemma quiet_released:
  "quiet s \<Longrightarrow> locks t = locks (acquired lk s) \<Longrightarrow> kcpu t = kcpu (acquired lk s) \<Longrightarrow>
     quiet (released lk t)"
  by (auto simp: quiet_def free_lock_def)

text \<open>What one critical section leaves of a quiet processor.\<close>

definition cs :: "kstate \<Rightarrow> kstate" where
  "cs s = s\<lparr>kcpu := popped (pushed (kcpu s))\<rparr>"

lemma cs_fields [simp]:
  "locks (cs s) = locks s" "ticks (cs s) = ticks s" "cons (cs s) = cons s"
  "ptable (cs s) = ptable s" "curproc (cs s) = curproc s" "initproc (cs s) = initproc s"
  "nextpid (cs s) = nextpid s" "pLists (cs s) = pLists s" "PromoteAtTime (cs s) = PromoteAtTime s"
  "pg (cs s) = pg s" "kfreelist (cs s) = kfreelist s" "use_lock (cs s) = use_lock s"
  "kpgdir (cs s) = kpgdir s" "cr3 (cs s) = cr3 s" "pipes (cs s) = pipes s" "disk (cs s) = disk s"
  "disksize (cs s) = disksize s" "dtrace (cs s) = dtrace s" "kbcache (cs s) = kbcache s"
  "klog (cs s) = klog s" "sb (cs s) = sb s" "icache (cs s) = icache s" "ftable (cs s) = ftable s"
  "devsw (cs s) = devsw s" "kfirst (cs s) = kfirst s"
  "kdata (cs s) = kdata s" "kend (cs s) = kend s"
  by (simp_all add: cs_def)

lemma quiet_cs [simp]: "quiet s \<Longrightarrow> quiet (cs s)"
  by (simp add: quiet_def cs_def)

lemma quiet_update [simp]:
  "quiet (s\<lparr>ticks := x0\<rparr>) = quiet s"
  "quiet (s\<lparr>cons := x1\<rparr>) = quiet s"
  "quiet (s\<lparr>ptable := x2\<rparr>) = quiet s"
  "quiet (s\<lparr>curproc := x3\<rparr>) = quiet s"
  "quiet (s\<lparr>initproc := x4\<rparr>) = quiet s"
  "quiet (s\<lparr>nextpid := x5\<rparr>) = quiet s"
  "quiet (s\<lparr>pLists := x6\<rparr>) = quiet s"
  "quiet (s\<lparr>PromoteAtTime := x7\<rparr>) = quiet s"
  "quiet (s\<lparr>pg := x8\<rparr>) = quiet s"
  "quiet (s\<lparr>kfreelist := x9\<rparr>) = quiet s"
  "quiet (s\<lparr>use_lock := x10\<rparr>) = quiet s"
  "quiet (s\<lparr>kpgdir := x11\<rparr>) = quiet s"
  "quiet (s\<lparr>cr3 := x12\<rparr>) = quiet s"
  "quiet (s\<lparr>pipes := x13\<rparr>) = quiet s"
  "quiet (s\<lparr>disk := x14\<rparr>) = quiet s"
  "quiet (s\<lparr>disksize := x15\<rparr>) = quiet s"
  "quiet (s\<lparr>dtrace := x16\<rparr>) = quiet s"
  "quiet (s\<lparr>kbcache := x17\<rparr>) = quiet s"
  "quiet (s\<lparr>klog := x18\<rparr>) = quiet s"
  "quiet (s\<lparr>sb := x19\<rparr>) = quiet s"
  "quiet (s\<lparr>icache := x20\<rparr>) = quiet s"
  "quiet (s\<lparr>ftable := x21\<rparr>) = quiet s"
  "quiet (s\<lparr>devsw := x22\<rparr>) = quiet s"
  "quiet (s\<lparr>kfirst := x23\<rparr>) = quiet s"
  "quiet (s\<lparr>kdata := x24\<rparr>) = quiet s"
  "quiet (s\<lparr>kend := x25\<rparr>) = quiet s"
  by (simp_all add: quiet_def)

text \<open>Leaving a critical section of a quiet processor, whatever its body changed elsewhere.\<close>

lemma release_quiet:
  "quiet s \<Longrightarrow> locks t = locks (acquired lk s) \<Longrightarrow> kcpu t = kcpu (acquired lk s) \<Longrightarrow>
     release lk t = Done () (t\<lparr>locks := locks s, kcpu := kcpu (cs s)\<rparr>)"
  by (simp add: release_eq released_def acquired_def cs_def quiet_def free_lock_def fun_upd_idem_iff)

lemma cs_kcpu [simp]: "kcpu (cs s) = popped (pushed (kcpu s))"
  by (simp add: cs_def)

section \<open>Lemmas on wakeup\<close>

lemma wp_table [wp]:
  "wp (getp i) Q s = Q (ptable s ! i) s"
  "wp (setp i f) R s = R () (s\<lparr>ptable := upd_nth i f (ptable s)\<rparr>)"
  "twp (getp i) Q s = Q (ptable s ! i) s"
  "twp (setp i f) R s = R () (s\<lparr>ptable := upd_nth i f (ptable s)\<rparr>)"
  by (simp_all add: getp_def setp_def wp)

lemma forM_setp:
  "forM [a ..< b] (\<lambda>i. setp i f) s =
     Done () (s\<lparr>ptable := fold (\<lambda>i. upd_nth i f) [a ..< b] (ptable s)\<rparr>)"
proof (induction "b - a" arbitrary: a s)
  case 0
  then show ?case by (simp add: ret_def)
next
  case (Suc n)
  then have "[a ..< b] = a # [Suc a ..< b]" "n = b - Suc a" by (simp_all add: upt_conv_Cons)
  then show ?case
    using Suc(1) [of "Suc a"] by (simp add: sq_def bnd_def setp_def modify_def)
qed

lemma fold_upd_nth_all:
  "length xs = n \<Longrightarrow> k \<le> n \<Longrightarrow> fold (\<lambda>i. upd_nth i f) [0 ..< k] xs = map f (take k xs) @ drop k xs"
proof (induction k)
  case 0
  then show ?case by simp
next
  case (Suc k)
  then have k: "k < length xs" by simp
  have "fold (\<lambda>i. upd_nth i f) [0 ..< Suc k] xs = upd_nth k f (map f (take k xs) @ drop k xs)"
    using Suc by simp
  also have "\<dots> = map f (take k xs) @ f (xs ! k) # drop (Suc k) xs"
    using k by (auto simp: upd_nth_def nth_append list_update_append Cons_nth_drop_Suc [symmetric])
  also have "\<dots> = map f (take (Suc k) xs) @ drop (Suc k) xs"
    using k by (simp add: take_Suc_conv_app_nth)
  finally show ?case .
qed

definition ptable_ok :: "kstate \<Rightarrow> bool" where
  "ptable_ok s \<longleftrightarrow> length (ptable s) = NPROC"

lemma wakeup1_eq: "ptable_ok s \<Longrightarrow> wakeup1 ch s = Done () (s\<lparr>ptable := map (wake ch) (ptable s)\<rparr>)"
  by (simp add: wakeup1_def forM_setp fold_upd_nth_all ptable_ok_def)

lemma wp_wakeup1 [wp]:
  "ptable_ok s \<Longrightarrow> wp (wakeup1 ch) Q s = Q () (s\<lparr>ptable := map (wake ch) (ptable s)\<rparr>)"
  "ptable_ok s \<Longrightarrow> twp (wakeup1 ch) Q s = Q () (s\<lparr>ptable := map (wake ch) (ptable s)\<rparr>)"
  by (simp_all add: wp_def twp_def wakeup1_eq)

definition woken :: "chan \<Rightarrow> kstate \<Rightarrow> kstate" where
  "woken ch s = released PtableLock ((acquired PtableLock s)\<lparr>ptable := map (wake ch) (ptable s)\<rparr>)"

lemma ptable_ok_acquired [simp]: "ptable_ok (acquired lk s) = ptable_ok s"
  "ptable_ok (released lk s) = ptable_ok s"
  by (simp_all add: ptable_ok_def)

lemma wakeup_eq:
  "ptable_ok s \<Longrightarrow> \<not> lk_locked (locks s PtableLock) \<Longrightarrow> 0 \<le> ncli (kcpu s) \<Longrightarrow>
     wakeup ch s = Done () (woken ch s)"
  by (simp add: wakeup_def sq_def bnd_def acquire_eq wakeup1_eq release_eq woken_def)

lemma woken_fields [simp]:
  "ticks (woken ch s) = ticks s" "cons (woken ch s) = cons s"
  "ptable (woken ch s) = map (wake ch) (ptable s)" "curproc (woken ch s) = curproc s"
  "initproc (woken ch s) = initproc s" "nextpid (woken ch s) = nextpid s"
  "pLists (woken ch s) = pLists s" "PromoteAtTime (woken ch s) = PromoteAtTime s"
  "pg (woken ch s) = pg s" "kfreelist (woken ch s) = kfreelist s"
  "use_lock (woken ch s) = use_lock s" "kpgdir (woken ch s) = kpgdir s"
  "cr3 (woken ch s) = cr3 s" "pipes (woken ch s) = pipes s"
  "disk (woken ch s) = disk s" "disksize (woken ch s) = disksize s"
  "dtrace (woken ch s) = dtrace s" "kbcache (woken ch s) = kbcache s"
  "klog (woken ch s) = klog s" "sb (woken ch s) = sb s"
  "icache (woken ch s) = icache s" "ftable (woken ch s) = ftable s"
  "devsw (woken ch s) = devsw s" "kfirst (woken ch s) = kfirst s"
  "kdata (woken ch s) = kdata s" "kend (woken ch s) = kend s"
  "ptable_ok (woken ch s) = ptable_ok s"
  by (simp_all add: woken_def ptable_ok_def)

lemma woken_cpu:
  "locks s PtableLock = free_lock \<Longrightarrow> locks (woken ch s) = locks s"
  "kcpu (woken ch s) = popped (pushed (kcpu s))"
  by (auto simp: woken_def free_lock_def)

lemma popped_pushed_off:
  "\<not> eflags_if c \<Longrightarrow> 0 < ncli c \<Longrightarrow> popped (pushed c) = c"
  by (simp add: popped_def pushed_def)

lemma popped_pushed_zero: "ncli c = 0 \<Longrightarrow> popped (pushed c) = c\<lparr>intena := eflags_if c\<rparr>"
  by (simp add: popped_def pushed_def)

text \<open>Inside a critical section of another lock \<open>wakeup\<close> changes only the process table.\<close>

lemma woken_inside:
  "locks s PtableLock = free_lock \<Longrightarrow> \<not> eflags_if (kcpu s) \<Longrightarrow> 0 < ncli (kcpu s) \<Longrightarrow>
     woken ch s = s\<lparr>ptable := map (wake ch) (ptable s)\<rparr>"
  by (simp add: woken_def acquired_def released_def popped_def pushed_def free_lock_def fun_upd_idem_iff)

lemma quiet_woken [simp]: "quiet s \<Longrightarrow> quiet (woken ch s)"
  unfolding woken_def by (rule quiet_released) (auto simp: quiet_def)

lemma wp_wakeup_quiet [wp]:
  "quiet s \<Longrightarrow> ptable_ok s \<Longrightarrow> twp (wakeup ch) Q s = Q () (woken ch s)"
  "quiet s \<Longrightarrow> ptable_ok s \<Longrightarrow> wp (wakeup ch) Q s = Q () (woken ch s)"
  by (simp_all add: twp_def wp_def wakeup_eq quiet_def free_lock_def)

lemma wakeup_inside:
  "ptable_ok s \<Longrightarrow> locks s PtableLock = free_lock \<Longrightarrow> \<not> eflags_if (kcpu s) \<Longrightarrow> 0 < ncli (kcpu s) \<Longrightarrow>
     wakeup ch s = Done () (s\<lparr>ptable := map (wake ch) (ptable s)\<rparr>)"
  by (simp add: wakeup_eq woken_inside free_lock_def)

section \<open>Frames\<close>

text \<open>What \<open>wakeup\<close> may do to the process table, over any number of calls.\<close>

definition woke :: "proc list \<Rightarrow> proc list \<Rightarrow> bool" where
  "woke = list_all2 (\<lambda>p p'. p' = p \<or> p_state p = SLEEPING \<and> p' = p\<lparr>p_state := RUNNABLE\<rparr>)"

lemma woke_refl [simp]: "woke ps ps"
  by (simp add: woke_def list_all2_refl)

lemma woke_trans: "woke ps qs \<Longrightarrow> woke qs rs \<Longrightarrow> woke ps rs"
  unfolding woke_def by (rule list_all2_trans) auto

lemma woke_wake [simp]: "woke ps (map (wake ch) ps)"
  by (auto simp: woke_def list_all2_conv_all_nth wake_def)

lemma woke_length: "woke ps qs \<Longrightarrow> length qs = length ps"
  by (simp add: woke_def list_all2_lengthD)

lemma woke_nth: "woke ps qs \<Longrightarrow> i < length ps \<Longrightarrow>
    qs ! i = ps ! i \<or> p_state (ps ! i) = SLEEPING \<and> qs ! i = (ps ! i)\<lparr>p_state := RUNNABLE\<rparr>"
  by (auto simp: woke_def list_all2_conv_all_nth)

text \<open>
  The components of the state that the buffer cache and the log leave alone; the
  process table may see wakeups.
\<close>

definition same_rest :: "kstate \<Rightarrow> kstate \<Rightarrow> bool" where
  "same_rest s s' \<longleftrightarrow>
     ticks s' = ticks s \<and> cons s' = cons s \<and> curproc s' = curproc s \<and> initproc s' = initproc s \<and>
     nextpid s' = nextpid s \<and> pLists s' = pLists s \<and> PromoteAtTime s' = PromoteAtTime s \<and>
     pg s' = pg s \<and> kfreelist s' = kfreelist s \<and> use_lock s' = use_lock s \<and>
     kpgdir s' = kpgdir s \<and> cr3 s' = cr3 s \<and> pipes s' = pipes s \<and> disksize s' = disksize s \<and>
     sb s' = sb s \<and> icache s' = icache s \<and> ftable s' = ftable s \<and> devsw s' = devsw s \<and>
     kfirst s' = kfirst s \<and> kdata s' = kdata s \<and> kend s' = kend s \<and>
     woke (ptable s) (ptable s')"

lemma same_rest_refl [simp]: "same_rest s s"
  by (simp add: same_rest_def)

lemma same_rest_trans: "same_rest s t \<Longrightarrow> same_rest t u \<Longrightarrow> same_rest s u"
  unfolding same_rest_def using woke_trans by auto

lemma same_rest_ptable_ok: "same_rest s t \<Longrightarrow> ptable_ok t = ptable_ok s"
  by (auto simp: same_rest_def ptable_ok_def dest: woke_length)

end
