(* ===== verification/Cstring.thy ===== *)
theory Cstring
  imports Xv6_Params
begin

text \<open>
  \<open>string.c\<close>, the kernel's memory and string routines, over a byte memory
  \<open>nat \<Rightarrow> byte\<close> with pointers as addresses.  Loops are recursion on the remaining
  count; \<open>strlen\<close>, which has no bound, is a partial function.  The lemmas compare the
  routines with what they are for: a copy that is right for overlapping areas, a
  comparison of NUL-terminated prefixes, copies that terminate their result.
\<close>

section \<open>memset: the byte loop and the word loop\<close>

text \<open>\<open>rep stosb\<close> and \<open>rep stosl\<close> of \<open>x86.h\<close>.\<close>

fun stosb :: "bytes \<Rightarrow> nat \<Rightarrow> byte \<Rightarrow> nat \<Rightarrow> bytes" where
  "stosb m dst c 0 = m"
| "stosb m dst c (Suc n) = stosb (m(dst := c)) (dst + 1) c n"

fun stosl :: "bytes \<Rightarrow> nat \<Rightarrow> nat \<Rightarrow> nat \<Rightarrow> bytes" where
  "stosl m dst w 0 = m"
| "stosl m dst w (Suc n) = stosl (put32 dst w m) (dst + 4) w n"

definition memset :: "bytes \<Rightarrow> nat \<Rightarrow> byte \<Rightarrow> nat \<Rightarrow> bytes" where
  "memset m dst c n =
     (if dst mod 4 = 0 \<and> n mod 4 = 0
      then (let c = unat c in
            stosl m dst (c * 16777216 + c * 65536 + c * 256 + c) (n div 4))
      else stosb m dst c n)"

definition filled :: "bytes \<Rightarrow> nat \<Rightarrow> byte \<Rightarrow> nat \<Rightarrow> bytes" where
  "filled m dst c n = (\<lambda>i. if dst \<le> i \<and> i < dst + n then c else m i)"

lemma stosb_filled: "stosb m dst c n = filled m dst c n"
  by (induction n arbitrary: m dst) (auto simp: filled_def fun_eq_iff)

lemma put32_same_bytes:
  fixes c :: byte
  assumes "w = unat c * 16777216 + unat c * 65536 + unat c * 256 + unat c"
  shows "put32 p w m = m(p := c, p + 1 := c, p + 2 := c, p + 3 := c)"
proof -
  have c: "unat c < 256" using unsigned_less [of c] by simp
  have d: "w div 256 = unat c * 65536 + unat c * 256 + unat c"
    "w div 65536 = unat c * 256 + unat c" "w div 65536 div 256 = unat c"
    using c assms by simp_all
  have e: "(of_nat (k * 256 + unat c) :: byte) = c" for k
    unfolding word_unat_eq_iff unat_of_nat_byte using c by simp
  have w: "w = (unat c * 65536 + unat c * 256 + unat c) * 256 + unat c"
    "w div 256 = (unat c * 256 + unat c) * 256 + unat c"
    using assms d by simp_all
  have b: "(of_nat w :: byte) = c" "(of_nat (w div 256) :: byte) = c"
    "(of_nat (w div 65536) :: byte) = c" "(of_nat (w div 65536 div 256) :: byte) = c"
    by (metis e w(1), metis e w(2), metis e d(2), simp add: d(3))
  show ?thesis
    unfolding put32_def put16_def b by (simp add: fun_upd_twist numeral_3_eq_3)
qed

lemma stosl_filled:
  fixes c :: byte
  assumes "w = unat c * 16777216 + unat c * 65536 + unat c * 256 + unat c"
  shows "stosl m dst w n = filled m dst c (4 * n)"
proof (induction n arbitrary: m dst)
  case 0
  then show ?case by (auto simp: filled_def fun_eq_iff)
next
  case (Suc n)
  show ?case
    unfolding stosl.simps Suc put32_same_bytes [OF assms]
    by (auto simp: filled_def fun_eq_iff)
qed

lemma memset_filled: "memset m dst c n = filled m dst c n"
proof (cases "dst mod 4 = 0 \<and> n mod 4 = 0")
  case True
  then have "4 * (n div 4) = n" by auto
  with True show ?thesis unfolding memset_def Let_def stosl_filled [OF refl] by simp
next
  case False
  then show ?thesis by (auto simp: memset_def stosb_filled)
qed

section \<open>memmove\<close>

text \<open>The two copying loops: downwards when the destination overlaps the source's end.\<close>

fun copy_down :: "bytes \<Rightarrow> nat \<Rightarrow> nat \<Rightarrow> nat \<Rightarrow> bytes" where
  "copy_down m dst src 0 = m"
| "copy_down m dst src (Suc n) = copy_down (m(dst + n := m (src + n))) dst src n"

fun copy_up :: "bytes \<Rightarrow> nat \<Rightarrow> nat \<Rightarrow> nat \<Rightarrow> bytes" where
  "copy_up m dst src 0 = m"
| "copy_up m dst src (Suc n) = copy_up (m(dst := m src)) (dst + 1) (src + 1) n"

definition memmove :: "bytes \<Rightarrow> nat \<Rightarrow> nat \<Rightarrow> nat \<Rightarrow> bytes" where
  "memmove m dst src n =
     (if src < dst \<and> dst < src + n then copy_down m dst src n else copy_up m dst src n)"

definition memcpy :: "bytes \<Rightarrow> nat \<Rightarrow> nat \<Rightarrow> nat \<Rightarrow> bytes" where
  "memcpy m dst src n = memmove m dst src n"

definition copied :: "bytes \<Rightarrow> nat \<Rightarrow> nat \<Rightarrow> nat \<Rightarrow> bytes" where
  "copied m dst src n = (\<lambda>i. if dst \<le> i \<and> i < dst + n then m (src + (i - dst)) else m i)"

lemma copy_down_copied: "src < dst \<Longrightarrow> copy_down m dst src n = copied m dst src n"
proof (induction n arbitrary: m)
  case 0
  then show ?case by (auto simp: copied_def fun_eq_iff)
next
  case (Suc n)
  show ?case
    unfolding copy_down.simps Suc.IH [OF Suc.prems] using Suc.prems
    by (auto simp: copied_def fun_eq_iff)
qed

lemma copy_up_copied: "dst \<le> src \<or> src + n \<le> dst \<Longrightarrow> copy_up m dst src n = copied m dst src n"
proof (induction n arbitrary: m dst src)
  case 0
  then show ?case by (auto simp: copied_def fun_eq_iff)
next
  case (Suc n)
  have IH: "copy_up (m(dst := m src)) (dst + 1) (src + 1) n =
      copied (m(dst := m src)) (dst + 1) (src + 1) n"
    using Suc.prems by (intro Suc.IH) auto
  show ?case
    unfolding copy_up.simps IH using Suc.prems
    by (auto simp: copied_def fun_eq_iff intro!: arg_cong [where f = m])
qed

lemma memmove_copied: "memmove m dst src n = copied m dst src n"
  by (auto simp: memmove_def copy_down_copied copy_up_copied)

section \<open>Comparisons\<close>

fun memcmp :: "bytes \<Rightarrow> nat \<Rightarrow> nat \<Rightarrow> nat \<Rightarrow> int" where
  "memcmp m p q 0 = 0"
| "memcmp m p q (Suc n) =
     (if m p \<noteq> m q then uint (m p) - uint (m q) else memcmp m (p + 1) (q + 1) n)"

fun strncmp :: "bytes \<Rightarrow> nat \<Rightarrow> nat \<Rightarrow> nat \<Rightarrow> int" where
  "strncmp m p q 0 = 0"
| "strncmp m p q (Suc n) =
     (if m p \<noteq> 0 \<and> m p = m q then strncmp m (p + 1) (q + 1) n
      else uint (m p) - uint (m q))"

text \<open>The characters a bounded string function looks at: up to the NUL or the bound.\<close>

fun cstrn :: "bytes \<Rightarrow> nat \<Rightarrow> nat \<Rightarrow> byte list" where
  "cstrn m p 0 = []"
| "cstrn m p (Suc n) = (if m p = 0 then [] else m p # cstrn m (p + 1) n)"

lemma memcmp_eq_0: "memcmp m p q n = 0 \<longleftrightarrow> slice m p n = slice m q n"
proof (induction n arbitrary: p q)
  case 0
  then show ?case by simp
next
  case (Suc n)
  show ?case
    using Suc [of "p + 1" "q + 1"] slice_add [of m _ 1 n]
    by (auto simp: slice_def word_uint_eq_iff)
qed

lemma strncmp_eq_0: "strncmp m p q n = 0 \<longleftrightarrow> cstrn m p n = cstrn m q n"
  by (induction n arbitrary: p q) (auto simp: word_uint_eq_iff)

section \<open>Copies\<close>

fun fill0 :: "bytes \<Rightarrow> nat \<Rightarrow> nat \<Rightarrow> bytes" where
  "fill0 m s 0 = m"
| "fill0 m s (Suc n) = fill0 (m(s := 0)) (s + 1) n"

fun strncpy :: "bytes \<Rightarrow> nat \<Rightarrow> nat \<Rightarrow> nat \<Rightarrow> bytes" where
  "strncpy m s t 0 = m"
| "strncpy m s t (Suc n) =
     (let m' = m(s := m t) in
      if m t \<noteq> 0 then strncpy m' (s + 1) (t + 1) n else fill0 m' (s + 1) n)"

text \<open>\<open>safestrcpy\<close>'s loop; \<open>n\<close> is the count after the first decrement.\<close>

fun safestrcpy_loop :: "bytes \<Rightarrow> nat \<Rightarrow> nat \<Rightarrow> nat \<Rightarrow> bytes" where
  "safestrcpy_loop m s t 0 = m(s := 0)"
| "safestrcpy_loop m s t (Suc n) =
     (let m' = m(s := m t) in
      if m t \<noteq> 0 then safestrcpy_loop m' (s + 1) (t + 1) n else m'(s + 1 := 0))"

definition safestrcpy :: "bytes \<Rightarrow> nat \<Rightarrow> nat \<Rightarrow> int \<Rightarrow> bytes" where
  "safestrcpy m s t n = (if n \<le> 0 then m else safestrcpy_loop m s t (nat (n - 1)))"

partial_function (option) strlen_from :: "bytes \<Rightarrow> nat \<Rightarrow> nat \<Rightarrow> nat option" where
  "strlen_from m s n = (if m (s + n) = 0 then Some n else strlen_from m s (n + 1))"

definition strlen :: "bytes \<Rightarrow> nat \<Rightarrow> nat option" where
  "strlen m s = strlen_from m s 0"

text \<open>\<open>apart s t n\<close>: the \<open>n\<close> bytes at \<open>s\<close> and those at \<open>t\<close> do not overlap.\<close>

definition apart :: "nat \<Rightarrow> nat \<Rightarrow> nat \<Rightarrow> bool" where
  "apart s t n \<longleftrightarrow> s + n \<le> t \<or> t + n \<le> s"

lemma cstrn_cong: "(\<And>i. i < n \<Longrightarrow> m (p + i) = m' (p + i)) \<Longrightarrow> cstrn m p n = cstrn m' p n"
proof (induction n arbitrary: p)
  case 0
  then show ?case by simp
next
  case (Suc n)
  have "m p = m' p" using Suc.prems [of 0] by simp
  moreover have "cstrn m (p + 1) n = cstrn m' (p + 1) n"
    using Suc.prems [of "Suc i" for i] by (intro Suc.IH) simp
  ultimately show ?case by simp
qed

lemma cstrn_list:
  assumes "0 \<notin> set e" and "\<And>i. i < min n (length e) \<Longrightarrow> m (p + i) = e ! i" and "length e < n \<Longrightarrow> m (p + length e) = 0"
  shows "cstrn m p n = take n e"
  using assms
proof (induction n arbitrary: p e)
  case 0
  then show ?case by simp
next
  case (Suc n)
  show ?case
  proof (cases e)
    case Nil
    then show ?thesis using Suc.prems(3) by simp
  next
    case (Cons c q)
    have "m p = c" using Suc.prems(2) [of 0] Cons by simp
    moreover have "c \<noteq> 0" using Suc.prems(1) Cons by auto
    moreover have "cstrn m (p + 1) n = take n q"
      using Suc.prems(1,3) Suc.prems(2) [of "Suc i" for i] Cons by (intro Suc.IH) auto
    ultimately show ?thesis using Cons by simp
  qed
qed

lemma cstrn_bytes_of: "0 \<notin> set e \<Longrightarrow> cstrn (bytes_of e) 0 n = take n e"
  by (rule cstrn_list) (auto simp: bytes_of_def)

lemma length_cstrn: "length (cstrn m p n) \<le> n"
  by (induction n arbitrary: p) auto

lemma fill0_eq: "fill0 m s n = filled m s 0 n"
  by (induction n arbitrary: m s) (auto simp: filled_def fun_eq_iff)

lemma strncpy_frame: "i < s \<or> s + n \<le> i \<Longrightarrow> strncpy m s t n i = m i"
  by (induction n arbitrary: m s t) (auto simp: Let_def fill0_eq filled_def)

lemma safestrcpy_loop_frame: "i < s \<or> s + n < i \<Longrightarrow> safestrcpy_loop m s t n i = m i"
  by (induction n arbitrary: m s t) (auto simp: Let_def)

lemma strncpy_contents:
  "apart s t n \<Longrightarrow> i < n \<Longrightarrow> strncpy m s t n (s + i) =
     (if i < length (cstrn m t n) then cstrn m t n ! i else 0)"
proof (induction n arbitrary: m s t i)
  case 0
  then show ?case by simp
next
  case (Suc n)
  let ?m = "m(s := m t)"
  have ap: "apart (s + 1) (t + 1) n" using Suc.prems(1) by (auto simp: apart_def)
  have same: "cstrn ?m (t + 1) n = cstrn m (t + 1) n"
    using Suc.prems(1) by (intro cstrn_cong) (auto simp: apart_def)
  show ?case
  proof (cases i)
    case 0
    then show ?thesis by (simp add: Let_def strncpy_frame fill0_eq filled_def)
  next
    case (Suc k)
    have "strncpy ?m (s + 1) (t + 1) n (s + 1 + k) =
        (if k < length (cstrn ?m (t + 1) n) then cstrn ?m (t + 1) n ! k else 0)"
      using Suc Suc.prems(2) ap by (intro Suc.IH) auto
    then show ?thesis using Suc Suc.prems(2) same
      by (simp add: Let_def fill0_eq filled_def)
  qed
qed

lemma safestrcpy_loop_string:
  "apart s t (Suc n) \<Longrightarrow> cstrn (safestrcpy_loop m s t n) s (Suc n) = cstrn m t n"
proof (induction n arbitrary: m s t)
  case 0
  then show ?case by simp
next
  case (Suc n)
  let ?m = "m(s := m t)"
  have ap: "apart (s + 1) (t + 1) (Suc n)" using Suc.prems(1) by (auto simp: apart_def)
  have same: "cstrn ?m (t + 1) n = cstrn m (t + 1) n"
    using Suc.prems(1) by (intro cstrn_cong) (auto simp: apart_def)
  have "cstrn (safestrcpy_loop ?m (s + 1) (t + 1) n) (s + 1) (Suc n) = cstrn ?m (t + 1) n"
    by (rule Suc.IH [OF ap])
  then show ?case using same
    by (auto simp: Let_def safestrcpy_loop_frame simp del: cstrn.simps(2)
        simp: cstrn.simps(2) [of _ s] cstrn.simps(2) [of _ t])
qed

lemma strlen_from_step: "(\<And>i. n \<le> i \<Longrightarrow> i < k \<Longrightarrow> m (s + i) \<noteq> 0) \<Longrightarrow> n \<le> k \<Longrightarrow> m (s + k) = 0 \<Longrightarrow>
    strlen_from m s n = Some k"
proof (induction "k - n" arbitrary: n)
  case 0
  then show ?case by (simp add: strlen_from.simps)
next
  case (Suc d)
  have "m (s + n) \<noteq> 0" using Suc.prems Suc.hyps(2) by auto
  moreover have "strlen_from m s (n + 1) = Some k" using Suc by (intro Suc.hyps) auto
  ultimately show ?case by (simp add: strlen_from.simps [of m s n])
qed

lemma strlen_Some: "(\<And>i. i < k \<Longrightarrow> m (s + i) \<noteq> 0) \<Longrightarrow> m (s + k) = 0 \<Longrightarrow> strlen m s = Some k"
  unfolding strlen_def by (rule strlen_from_step) auto

section \<open>Properties\<close>

text \<open>
  C3: \<open>memmove\<close> copies as if through a temporary buffer, whatever the overlap of
  source and destination: afterwards the \<open>n\<close> destination bytes are the \<open>n\<close> source
  bytes of the memory before the call, and no other byte has changed.
\<close>

theorem memmove_correct:
  "slice (memmove m dst src n) dst n = slice m src n \<and>
   (\<forall>i. memmove m dst src n i \<noteq> m i \<longrightarrow> i \<in> {dst ..< dst + n})"
  by (auto simp: memmove_copied copied_def intro!: nth_equalityI)

theorem memmove_correct_witness:
  "memmove (bytes_of [1, 2, 3, 4]) 1 0 3 2 \<noteq> bytes_of [1, 2, 3, 4] 2 \<and>
   slice (memmove (bytes_of [1, 2, 3, 4]) 1 0 3) 1 3 = [1, 2, 3] \<and> (2 :: nat) \<in> {1 ..< 1 + 3}"
proof -
  have h: "memmove (bytes_of [1, 2, 3, 4]) 1 0 3 2 \<noteq> bytes_of [1, 2, 3, 4] 2"
    by code_simp
  have s: "slice (bytes_of [1, 2, 3, 4]) 0 3 = [1, 2, 3]"
    by code_simp
  note c = memmove_correct [of "bytes_of [1, 2, 3, 4]" 1 0 3]
  show ?thesis by (intro conjI h c [THEN conjunct2, rule_format, OF h] c [THEN conjunct1, unfolded s])
qed

text \<open>
  C4: \<open>safestrcpy\<close> always leaves a string that ends within the \<open>n\<close> bytes of the
  destination, equal to the source string cut to \<open>n - 1\<close> characters, and writes no
  byte outside them.
\<close>

theorem safestrcpy_correct:
  assumes "0 < n" and "apart s t n"
  shows "cstrn (safestrcpy m s t (int n)) s n = cstrn m t (n - 1) \<and>
    length (cstrn (safestrcpy m s t (int n)) s n) < n \<and>
    (\<forall>i. safestrcpy m s t (int n) i \<noteq> m i \<longrightarrow> i \<in> {s ..< s + n})"
proof -
  obtain k where k: "n = Suc k" using assms(1) by (cases n) auto
  have e: "safestrcpy m s t (int n) = safestrcpy_loop m s t k" by (simp add: safestrcpy_def k)
  have c: "cstrn (safestrcpy m s t (int n)) s n = cstrn m t k"
    unfolding e unfolding k by (rule safestrcpy_loop_string) (use assms(2) k in simp)
  moreover have "i \<in> {s ..< s + n}" if "safestrcpy m s t (int n) i \<noteq> m i" for i
  proof (rule ccontr)
    assume "i \<notin> {s ..< s + n}"
    then have "i < s \<or> s + k < i" using k by auto
    then show False using that safestrcpy_loop_frame e by metis
  qed
  moreover have "length (cstrn m t k) < n" using length_cstrn [of m t k] k by simp
  ultimately show ?thesis using k by simp
qed

theorem safestrcpy_correct_witness:
  "(0 :: nat) < 4 \<and> apart 10 0 4 \<and>
   cstrn (safestrcpy (bytes_of [105, 110, 105, 116, 0]) 10 0 4) 10 4 = [105, 110, 105]"
proof -
  have h: "(0 :: nat) < 4" "apart 10 0 4" by (simp_all add: apart_def)
  have s: "cstrn (bytes_of [105, 110, 105, 116, 0]) 0 (4 - 1) = [105, 110, 105]" by code_simp
  show ?thesis using safestrcpy_correct [OF h, of "bytes_of [105, 110, 105, 116, 0]"] h s by simp
qed

end
