(* ===== verification/Kalloc.thy ===== *)
theory Kalloc
  imports Sched Cstring
begin

text \<open>
  The physical page allocator, \<open>kalloc.c\<close>.  A page is named by its kernel virtual
  address; \<open>struct run\<close> lives in the page itself, its \<open>next\<close> in the first word.

  \<open>free_pages\<close> reads the free list as a list of pages.  The locale \<open>page_pool\<close> states
  what the users of the allocator rely on; it is interpreted on \<open>kalloc\<close> and
  \<open>kfree\<close>.
\<close>

section \<open>Definitions\<close>

definition run_next :: "32 word \<Rightarrow> (32 word \<Rightarrow> bytes) \<Rightarrow> 32 word" where
  "run_next r m = of_nat (get32 (m r) 0)"

definition set_page :: "32 word \<Rightarrow> bytes \<Rightarrow> unit kfun" where
  "set_page v d = modify (\<lambda>s. s\<lparr>pg := (pg s)(v := d)\<rparr>)"

definition kfree :: "32 word \<Rightarrow> unit kfun" where
  "kfree v =
     bnd (gets id) (\<lambda>s.
     if v mod PGSIZE \<noteq> 0 \<or> v < kend s \<or> v2p v \<ge> PHYSTOP then panic ''kfree''
     else
     sq (set_page v (memset (pg s v) 0 1 4096))
     (sq (whenk (use_lock s) (acquire KmemLock))
     (sq (modify (\<lambda>s. s\<lparr>pg := (pg s)(v := put32 0 (unat (kfreelist s)) (pg s v)), kfreelist := v\<rparr>))
     (whenk (use_lock s) (release KmemLock)))))"

text \<open>\<open>0\<close> is C's null pointer, the result when no page is left.\<close>

definition kalloc :: "32 word kfun" where
  "kalloc =
     bnd (gets use_lock) (\<lambda>ul.
     sq (whenk ul (acquire KmemLock))
     (bnd (gets kfreelist) (\<lambda>r.
     sq (whenk (r \<noteq> 0) (modify (\<lambda>s. s\<lparr>kfreelist := run_next r (pg s)\<rparr>)))
     (sq (whenk ul (release KmemLock))
     (ret r)))))"

text \<open>
  \<open>freerange\<close>; \<open>n\<close> bounds the pages left.  The pointer comparison \<open>p + PGSIZE <= vend\<close>
  is on 32-bit addresses.
\<close>

fun freerange_loop :: "nat \<Rightarrow> 32 word \<Rightarrow> 32 word \<Rightarrow> unit kfun" where
  "freerange_loop 0 p vend = (if p + PGSIZE \<le> vend then spin else ret ())"
| "freerange_loop (Suc n) p vend =
     (if p + PGSIZE \<le> vend then sq (kfree p) (freerange_loop n (p + PGSIZE) vend) else ret ())"

definition freerange :: "32 word \<Rightarrow> 32 word \<Rightarrow> unit kfun" where
  "freerange vstart vend =
     (let p = PGROUNDUP vstart in freerange_loop (unat (vend - p) div 4096 + 1) p vend)"

definition kinit1 :: "32 word \<Rightarrow> 32 word \<Rightarrow> unit kfun" where
  "kinit1 vstart vend =
     sq (initlock KmemLock)
     (sq (modify (\<lambda>s. s\<lparr>use_lock := False\<rparr>))
     (freerange vstart vend))"

definition kinit2 :: "32 word \<Rightarrow> 32 word \<Rightarrow> unit kfun" where
  "kinit2 vstart vend = sq (freerange vstart vend) (modify (\<lambda>s. s\<lparr>use_lock := True\<rparr>))"

section \<open>The free list\<close>

text \<open>\<open>flist m r vs\<close>: from \<open>r\<close> the links in the memory \<open>m\<close> visit exactly \<open>vs\<close>.\<close>

fun flist :: "(32 word \<Rightarrow> bytes) \<Rightarrow> 32 word \<Rightarrow> 32 word list \<Rightarrow> bool" where
  "flist m r [] \<longleftrightarrow> r = 0"
| "flist m r (v # vs) \<longleftrightarrow> r = v \<and> v \<noteq> 0 \<and> flist m (run_next v m) vs"

definition page_ok :: "kstate \<Rightarrow> 32 word \<Rightarrow> bool" where
  "page_ok s v \<longleftrightarrow> v mod PGSIZE = 0 \<and> kend s \<le> v \<and> v2p v < PHYSTOP \<and> v \<noteq> 0"

definition kmem_ok :: "kstate \<Rightarrow> 32 word list \<Rightarrow> bool" where
  "kmem_ok s vs \<longleftrightarrow> flist (pg s) (kfreelist s) vs \<and> distinct vs \<and> (\<forall>v \<in> set vs. page_ok s v)"

lemma flist_unique: "flist m r vs \<Longrightarrow> flist m r us \<Longrightarrow> vs = us"
proof (induction vs arbitrary: r us)
  case Nil
  then show ?case by (cases us) auto
next
  case (Cons v vs)
  then show ?case by (cases us) auto
qed

lemma flist_other: "v \<notin> set vs \<Longrightarrow> flist (m(v := d)) r vs = flist m r vs"
  by (induction vs arbitrary: r) (auto simp: run_next_def)

lemma run_next_put [simp]: "run_next v (m(v := put32 0 (unat r) d)) = r"
proof -
  have "unat r < 4294967296" by (rule unat_32)
  then show ?thesis by (simp add: run_next_def get32_put32_same)
qed

text \<open>The effect of the two operations on the free list and on other pages.\<close>

definition pool_frame :: "kstate \<Rightarrow> kstate \<Rightarrow> bool" where
  "pool_frame s t \<longleftrightarrow> (\<exists>m f c. t = s\<lparr>pg := m, kfreelist := f, kcpu := c\<rparr>)"

lemma pool_frame_refl [simp]: "pool_frame s s"
  unfolding pool_frame_def by (rule exI [of _ "pg s"], rule exI [of _ "kfreelist s"], rule exI [of _ "kcpu s"]) simp

lemma pool_frame_trans: "pool_frame s t \<Longrightarrow> pool_frame t u \<Longrightarrow> pool_frame s u"
  unfolding pool_frame_def by fastforce

lemma pool_frame_locks: "pool_frame s t \<Longrightarrow> locks t = locks s \<and> use_lock t = use_lock s \<and> kend t = kend s"
  unfolding pool_frame_def by auto

lemma kalloc_eq:
  assumes "quiet s" and "kmem_ok s vs"
  shows "\<exists>t. kalloc s = Done (case vs of [] \<Rightarrow> 0 | v # _ \<Rightarrow> v) t \<and> kmem_ok t (tl vs) \<and>
    pg t = pg s \<and> pool_frame s t \<and> quiet t"
proof -
  let ?f = "case vs of [] \<Rightarrow> 0 | v # _ \<Rightarrow> run_next v (pg s)"
  let ?c = "if use_lock s then kcpu (cs s) else kcpu s"
  let ?t = "s\<lparr>kfreelist := ?f, kcpu := ?c\<rparr>"
  have r: "kfreelist s = (case vs of [] \<Rightarrow> 0 | v # _ \<Rightarrow> v)" and nz: "\<And>v us. vs = v # us \<Longrightarrow> v \<noteq> 0"
    using assms(2) by (cases vs; simp add: kmem_ok_def)+
  have "release KmemLock ((acquired KmemLock s)\<lparr>kfreelist := f\<rparr>) = Done () (s\<lparr>kfreelist := f, kcpu := kcpu (cs s)\<rparr>)" for f
    using release_quiet [OF assms(1), of "(acquired KmemLock s)\<lparr>kfreelist := f\<rparr>" KmemLock] by (simp add: acquired_def)
  moreover have "release KmemLock (acquired KmemLock s) = Done () (s\<lparr>kcpu := kcpu (cs s)\<rparr>)"
    using release_quiet [OF assms(1), of "acquired KmemLock s" KmemLock] by (simp add: acquired_def)
  moreover have "vs = [] \<Longrightarrow> s\<lparr>kfreelist := 0\<rparr> = s" using r by simp
  ultimately have "kalloc s = Done (case vs of [] \<Rightarrow> 0 | v # _ \<Rightarrow> v) ?t"
    using assms(1) r nz
    by (cases vs) (auto simp: kalloc_def bnd_def sq_def gets_def whenk_def acquire_eq modify_def ret_def)
  moreover have "kmem_ok ?t (tl vs)"
    using assms(2) by (cases vs) (auto simp: kmem_ok_def page_ok_def)
  moreover have "pool_frame s ?t"
    unfolding pool_frame_def by (rule exI [of _ "pg s"], rule exI [of _ ?f], rule exI [of _ ?c]) simp
  moreover have "quiet ?t" using assms(1) by (auto simp: quiet_def)
  ultimately show ?thesis by (intro exI [of _ ?t]) simp
qed

lemma kfree_eq:
  assumes "quiet s" and "kmem_ok s vs" and "page_ok s v" and "v \<notin> set vs"
  shows "\<exists>t. kfree v s = Done () t \<and> kmem_ok t (v # vs) \<and> (\<forall>u. u \<noteq> v \<longrightarrow> pg t u = pg s u) \<and>
    pool_frame s t \<and> quiet t"
proof -
  let ?d = "put32 0 (unat (kfreelist s)) (memset (pg s v) 0 1 4096)"
  let ?c = "if use_lock s then kcpu (cs s) else kcpu s"
  let ?t = "s\<lparr>pg := (pg s)(v := ?d), kfreelist := v, kcpu := ?c\<rparr>"
  have "release KmemLock ((acquired KmemLock (s\<lparr>pg := m\<rparr>))\<lparr>pg := p, kfreelist := f\<rparr>) =
      Done () (s\<lparr>pg := p, kfreelist := f, kcpu := kcpu (cs s)\<rparr>)" for m p f
    using assms(1) release_quiet [of "s\<lparr>pg := m\<rparr>" "(acquired KmemLock (s\<lparr>pg := m\<rparr>))\<lparr>pg := p, kfreelist := f\<rparr>" KmemLock]
    by (simp add: acquired_def)
  then have "kfree v s = Done () ?t"
    using assms(1,3) quiet_free [OF assms(1), of KmemLock]
    by (auto simp: kfree_def bnd_def sq_def gets_def whenk_def acquire_eq modify_def ret_def set_page_def page_ok_def)
  moreover have "kmem_ok ?t (v # vs)"
    using assms(2,3,4) by (auto simp: kmem_ok_def page_ok_def flist_other)
  moreover have "pool_frame s ?t"
    unfolding pool_frame_def by (intro exI) (rule refl)
  moreover have "quiet ?t" using assms(1) by (auto simp: quiet_def)
  ultimately show ?thesis by (intro exI [of _ ?t]) simp
qed

text \<open>A page that is not a page of the allocator's range is refused.\<close>

lemma kfree_bad: "v mod PGSIZE \<noteq> 0 \<or> v < kend s \<or> PHYSTOP \<le> v2p v \<Longrightarrow> kfree v s = Panic ''kfree''"
  by (simp add: kfree_def bnd_def gets_def panic_def)

section \<open>The allocator's contract\<close>

text \<open>
  A pool of pages over states \<open>'s\<close>: \<open>ok s vs\<close> says that \<open>vs\<close> are the free pages and
  \<open>writes V s t\<close> that \<open>t\<close> differs from \<open>s\<close> only inside the pages of \<open>V\<close>.
\<close>

locale page_pool =
  fixes ok :: "'s \<Rightarrow> 'p list \<Rightarrow> bool" and alloc :: "('s, 'p) kop" and free :: "'p \<Rightarrow> ('s, unit) kop"
    and null :: 'p and valid :: "'s \<Rightarrow> 'p \<Rightarrow> bool" and writes :: "'p set \<Rightarrow> 's \<Rightarrow> 's \<Rightarrow> bool"
  assumes alloc_law: "ok s vs \<Longrightarrow> \<exists>t. alloc s = Done (case vs of [] \<Rightarrow> null | v # _ \<Rightarrow> v) t \<and> ok t (tl vs)"
    and alloc_valid: "alloc s = Done r t \<Longrightarrow> ok s vs \<Longrightarrow> valid t v = valid s v"
    and free_law: "ok s vs \<Longrightarrow> valid s v \<Longrightarrow> v \<notin> set vs \<Longrightarrow> \<exists>t. free v s = Done () t \<and> ok t (v # vs)"
    and free_valid: "free v s = Done () t \<Longrightarrow> ok s vs \<Longrightarrow> valid s v \<Longrightarrow> v \<notin> set vs \<Longrightarrow> valid t u = valid s u"
    and writes_law: "writes V s t \<Longrightarrow> ok s vs \<Longrightarrow> V \<inter> set vs = {} \<Longrightarrow> ok t vs"
    and writes_valid: "writes V s t \<Longrightarrow> valid t v = valid s v"
    and free_pages: "ok s vs \<Longrightarrow> distinct vs \<and> (\<forall>v \<in> set vs. valid s v \<and> v \<noteq> null)"
begin

text \<open>\<open>lent\<close>: the pages that clients hold and the free ones partition the original pool.\<close>

definition lent :: "'p set \<Rightarrow> 's \<Rightarrow> 'p set \<Rightarrow> bool" where
  "lent P s L \<longleftrightarrow> (\<exists>vs. ok s vs \<and> L \<inter> set vs = {} \<and> L \<union> set vs = P \<and> (\<forall>v \<in> L. valid s v))"

lemma lent_start: "ok s vs \<Longrightarrow> lent (set vs) s {}"
  by (auto simp: lent_def)

lemma lent_alloc:
  assumes "lent P s L" and "alloc s = Done v t"
  shows "if v = null then lent P t L \<and> L = P else v \<notin> L \<and> v \<in> P \<and> lent P t (insert v L)"
proof -
  obtain vs where vs: "ok s vs" "L \<inter> set vs = {}" "L \<union> set vs = P" "\<forall>v \<in> L. valid s v"
    using assms(1) by (auto simp: lent_def)
  have t: "ok t (tl vs)" "v = (case vs of [] \<Rightarrow> null | v # _ \<Rightarrow> v)" using alloc_law [OF vs(1)] assms(2) by auto
  have val: "valid t u = valid s u" for u using alloc_valid [OF assms(2) vs(1)] .
  show ?thesis
  proof (cases vs)
    case Nil
    then show ?thesis using t vs val by (auto simp: lent_def intro!: exI [of _ "[]"])
  next
    case (Cons u us)
    then have "v = u" "u \<noteq> null" "u \<notin> set us" "valid s u" using t free_pages [OF vs(1)] by auto
    then show ?thesis using t vs val Cons by (auto simp: lent_def intro!: exI [of _ us])
  qed
qed

lemma lent_free:
  assumes "lent P s L" and "v \<in> L"
  shows "\<exists>t. free v s = Done () t \<and> lent P t (L - {v})"
proof -
  obtain vs where vs: "ok s vs" "L \<inter> set vs = {}" "L \<union> set vs = P" "\<forall>v \<in> L. valid s v"
    using assms(1) by (auto simp: lent_def)
  have v: "valid s v" "v \<notin> set vs" using vs assms(2) by auto
  obtain t where t: "free v s = Done () t" "ok t (v # vs)" using free_law [OF vs(1) v] by blast
  have "valid t u = valid s u" for u using free_valid [OF t(1) vs(1) v] .
  then show ?thesis using t vs assms(2) by (auto simp: lent_def intro!: exI [of _ "v # vs"])
qed

lemma lent_write: "lent P s L \<Longrightarrow> writes L s t \<Longrightarrow> lent P t L"
proof -
  assume "lent P s L" and w: "writes L s t"
  then obtain vs where vs: "ok s vs" "L \<inter> set vs = {}" "L \<union> set vs = P" "\<forall>v \<in> L. valid s v"
    by (auto simp: lent_def)
  show ?thesis unfolding lent_def
    using writes_law [OF w vs(1,2)] vs writes_valid [OF w] by (intro exI [of _ vs]) simp
qed

end

definition pool_ok :: "kstate \<Rightarrow> 32 word list \<Rightarrow> bool" where
  "pool_ok s vs \<longleftrightarrow> quiet s \<and> kmem_ok s vs"

definition page_writes :: "32 word set \<Rightarrow> kstate \<Rightarrow> kstate \<Rightarrow> bool" where
  "page_writes V s t \<longleftrightarrow> quiet t \<and> kfreelist t = kfreelist s \<and> kend t = kend s \<and> (\<forall>u. u \<notin> V \<longrightarrow> pg t u = pg s u)"

lemma flist_cong: "(\<And>v. v \<in> set vs \<Longrightarrow> m v = m' v) \<Longrightarrow> flist m r vs = flist m' r vs"
  by (induction vs arbitrary: r) (auto simp: run_next_def)

lemma page_ok_cong: "kend t = kend s \<Longrightarrow> page_ok t v = page_ok s v"
  by (simp add: page_ok_def)

interpretation kpool: page_pool pool_ok kalloc kfree 0 page_ok page_writes
proof unfold_locales
  fix s vs assume h: "pool_ok s vs"
  show "\<exists>t. kalloc s = Done (case vs of [] \<Rightarrow> 0 | v # _ \<Rightarrow> v) t \<and> pool_ok t (tl vs)"
    using kalloc_eq [of s vs] h by (auto simp: pool_ok_def)
  show "distinct vs \<and> (\<forall>v \<in> set vs. page_ok s v \<and> v \<noteq> 0)"
    using h by (auto simp: pool_ok_def kmem_ok_def page_ok_def)
next
  fix s r t vs v assume "kalloc s = Done r t" "pool_ok s vs"
  then show "page_ok t v = page_ok s v"
    using kalloc_eq [of s vs] pool_frame_locks [of s t] by (intro page_ok_cong) (auto simp: pool_ok_def)
next
  fix s vs v assume "pool_ok s vs" "page_ok s v" "v \<notin> set vs"
  then show "\<exists>t. kfree v s = Done () t \<and> pool_ok t (v # vs)"
    using kfree_eq [of s vs v] by (auto simp: pool_ok_def)
next
  fix s t vs u v assume "kfree v s = Done () t" "pool_ok s vs" "page_ok s v" "v \<notin> set vs"
  then show "page_ok t u = page_ok s u"
    using kfree_eq [of s vs v] pool_frame_locks [of s t] by (intro page_ok_cong) (auto simp: pool_ok_def)
next
  fix V s t vs assume h: "page_writes V s t" "pool_ok s vs" "V \<inter> set vs = {}"
  have "flist (pg s) r vs = flist (pg t) r vs" for r
    using h by (intro flist_cong) (auto simp: page_writes_def)
  then show "pool_ok t vs"
    using h page_ok_cong [of t s] by (auto simp: page_writes_def pool_ok_def kmem_ok_def)
next
  fix V s t v assume "page_writes V s t"
  then show "page_ok t v = page_ok s v" by (intro page_ok_cong) (simp add: page_writes_def)
qed

section \<open>No page is handed out twice\<close>

text \<open>
  The runs of the kernel as the allocator sees them: calls of \<open>kalloc\<close>, calls of
  \<open>kfree\<close> on a page in use, and any code that writes only the pages it holds.
\<close>

inductive page_run :: "kstate \<Rightarrow> kstate \<Rightarrow> 32 word set \<Rightarrow> bool" for s0 where
  start: "page_run s0 s0 {}"
| alloc: "page_run s0 s L \<Longrightarrow> kalloc s = Done v t \<Longrightarrow> page_run s0 t (if v = 0 then L else insert v L)"
| free: "page_run s0 s L \<Longrightarrow> v \<in> L \<Longrightarrow> kfree v s = Done () t \<Longrightarrow> page_run s0 t (L - {v})"
| store: "page_run s0 s L \<Longrightarrow> page_writes L s t \<Longrightarrow> page_run s0 t L"

lemma page_run_lent: "page_run s0 s L \<Longrightarrow> pool_ok s0 vs \<Longrightarrow> kpool.lent (set vs) s L"
proof (induction rule: page_run.induct)
  case start
  then show ?case by (rule kpool.lent_start)
next
  case (alloc s L v t)
  then show ?case using kpool.lent_alloc [of "set vs" s L v t] by auto
next
  case (free s L v t)
  then show ?case using kpool.lent_free [of "set vs" s L v] by auto
next
  case (store s L t)
  then show ?case using kpool.lent_write by blast
qed

text \<open>
  C11: the page allocator never hands a page out twice and loses none.  After any run of
  allocations, frees of pages in use and writes to pages in use, \<open>kalloc\<close> returns; a
  page it returns was in the pool at the start and is in use nowhere, and it returns 0
  only when every page of the pool is in use.  Freeing a page in use never panics.
\<close>

theorem kalloc_never_twice:
  assumes "pool_ok s0 vs" and "page_run s0 s L"
  shows "(\<exists>v t. kalloc s = Done v t \<and> (if v = 0 then L = set vs else v \<in> set vs \<and> v \<notin> L)) \<and>
    (\<forall>v \<in> L. \<exists>t. kfree v s = Done () t)"
proof -
  have l: "kpool.lent (set vs) s L" using page_run_lent assms by blast
  then obtain us where "pool_ok s us" unfolding kpool.lent_def by blast
  then obtain r t where t: "kalloc s = Done r t" using kpool.alloc_law by blast
  then have "if r = 0 then L = set vs else r \<in> set vs \<and> r \<notin> L"
    using kpool.lent_alloc [OF l t] by (auto split: if_splits)
  with t show ?thesis using kpool.lent_free [OF l] by blast
qed

theorem kalloc_never_twice_witness:
  "(let s0 = kzero\<lparr>kfreelist := 0x80200000\<rparr> in
     pool_ok s0 [0x80200000] \<and> page_run s0 s0 {} \<and> (\<exists>t. kalloc s0 = Done 0x80200000 t))"
proof -
  let ?s = "kzero\<lparr>kfreelist := 0x80200000\<rparr>"
  have h: "pool_ok ?s [0x80200000]"
    by (simp add: pool_ok_def kmem_ok_def run_next_def kzero_def get32_zeros page_ok_def v2p_def quiet_def
        free_lock_def zero_cpu_def word_le_nat_alt word_less_nat_alt unat_sub_if_size)
  have r: "page_run ?s ?s {}" by (rule page_run.start)
  obtain v t where "kalloc ?s = Done v t" "if v = 0 then {} = {0x80200000 :: 32 word} else v = 0x80200000"
    using kalloc_never_twice [OF h r] by (auto split: if_splits)
  then show ?thesis using h r by (auto simp: Let_def split: if_splits)
qed

end
