(* ===== verification/Ring.thy ===== *)
theory Ring
  imports Xv6_Prelude
begin

text \<open>
  Ring buffers with free-running 32-bit indices, as \<open>pipe.c\<close> and \<open>console.c\<close> use them:
  the reader's index \<open>r\<close> and the writer's index \<open>w\<close> only grow, wrap around at
  \<open>2 ^ 32\<close>, and are reduced modulo the size of the buffer at each access.  The locale
  asks that the size divides \<open>2 ^ 31\<close>, without which the wrap-around would corrupt
  the queue, and gives the queue operations.
\<close>

definition queued :: "nat \<Rightarrow> (nat \<Rightarrow> 'a) \<Rightarrow> 32 word \<Rightarrow> 32 word \<Rightarrow> 'a list" where
  "queued N b r w = map (\<lambda>k. b (unat (r + of_nat k) mod N)) [0 ..< unat (w - r)]"

lemma length_queued [simp]: "length (queued N b r w) = unat (w - r)"
  by (simp add: queued_def)

lemma queued_empty [simp]: "queued N b r r = []"
  by (simp add: queued_def)

lemma queued_Nil: "queued N b r w = [] \<longleftrightarrow> r = w"
proof -
  have "queued N b r w = [] \<longleftrightarrow> unat (w - r) = 0" by (simp add: queued_def)
  also have "\<dots> \<longleftrightarrow> w - r = 0" by (rule unat_eq_0)
  finally show ?thesis by auto
qed

lemma unat_minus_Suc: "(w :: 32 word) \<noteq> r \<Longrightarrow> unat (w - r) = Suc (unat (w - (r + 1)))"
proof -
  assume "w \<noteq> r"
  then have "w - r \<noteq> 0" by simp
  then have "unat (w - r - 1) = unat (w - r) - 1" "0 < unat (w - r)"
    by (simp_all add: unat_minus_one unat_gt_0)
  then show ?thesis by (simp add: diff_diff_eq)
qed

lemma unat_plus_one: "unat (w - r :: 32 word) < 4294967295 \<Longrightarrow> unat (w + 1 - r) = Suc (unat (w - r))"
proof -
  assume h: "unat (w - r) < 4294967295"
  have "w + 1 - r = (w - r) + 1" by simp
  have "unat ((w - r) + 1) = unat (w - r) + unat (1 :: 32 word)"
    using h by (intro unat_add_lem [THEN iffD1]) simp
  then show ?thesis unfolding \<open>w + 1 - r = (w - r) + 1\<close> by simp
qed

lemma of_nat_unat_add: "r + of_nat (unat (w - r)) = (w :: 32 word)"
  by simp

locale ring =
  fixes N :: nat
  assumes N_pos: "0 < N" and N_dvd: "N dvd 2147483648"
begin

lemma N_le: "N \<le> 2147483648"
  using N_dvd by (rule dvd_imp_le) simp

lemma N_dvd': "N dvd 4294967296"
  using N_dvd dvd_trans [of N 2147483648 4294967296] by simp

lemma slot_add: "unat (r + of_nat k :: 32 word) mod N = (unat r + k) mod N"
proof -
  have "unat (r + of_nat k :: 32 word) = (unat r + k) mod 4294967296"
    by (simp add: unat_word_ariths unat_of_nat mod_add_right_eq)
  then show ?thesis using N_dvd' by (simp add: mod_mod_cancel)
qed

lemma slot_inj_le: "k \<le> j \<Longrightarrow> j < N \<Longrightarrow> (x + k) mod N = (x + j) mod N \<Longrightarrow> k = j"
  using mod_eq_dvd_iff_nat [of "x + k" "x + j" N] dvd_imp_le [of N "j - k"] by fastforce

lemma slot_inj: "k < N \<Longrightarrow> j < N \<Longrightarrow> (x + k) mod N = (x + j) mod N \<Longrightarrow> k = j"
  using slot_inj_le [of k j x] slot_inj_le [of j k x] by (cases "k \<le> j") auto

lemma queued_get: "r \<noteq> w \<Longrightarrow> queued N b r w = b (unat r mod N) # queued N b (r + 1) w"
proof -
  assume "r \<noteq> w"
  then have "unat (w - r) = Suc (unat (w - (r + 1)))" by (simp add: unat_minus_Suc)
  then show ?thesis by (simp add: queued_def upt_conv_Cons map_Suc_upt [symmetric] comp_def ac_simps del: map_Suc_upt upt_Suc)
qed

lemma queued_put:
  assumes "unat (w - r) < N"
  shows "queued N (b(unat w mod N := x)) r (w + 1) = queued N b r w @ [x]"
proof -
  have S: "unat (w + 1 - r) = Suc (unat (w - r))"
    using assms N_le by (intro unat_plus_one) linarith
  have "unat (r + of_nat k) mod N \<noteq> unat w mod N" if "k < unat (w - r)" for k
    using slot_add [of r k] slot_add [of r "unat (w - r)"] slot_inj [of k "unat (w - r)" "unat r"] that assms
    by (auto simp: of_nat_unat_add)
  then show ?thesis using S by (simp add: queued_def)
qed

lemma queued_unput: "e \<noteq> r \<Longrightarrow> queued N b r (e - 1) = butlast (queued N b r e)"
proof -
  assume "e \<noteq> r"
  then have "unat (e - r) = Suc (unat (e - 1 - r))"
    using unat_minus_Suc [of e r] by (simp add: algebra_simps)
  then show ?thesis by (simp add: queued_def)
qed

lemma queued_last: "e \<noteq> r \<Longrightarrow> last (queued N b r e) = b (unat (e - 1) mod N)"
proof -
  assume "e \<noteq> r"
  then have "unat (e - r) = Suc (unat (e - 1 - r))"
    using unat_minus_Suc [of e r] by (simp add: algebra_simps)
  moreover have "r + of_nat (unat (e - 1 - r)) = e - 1" by (rule of_nat_unat_add)
  ultimately show ?thesis by (simp add: queued_def)
qed

lemma queued_split:
  assumes "unat (w - r) \<le> unat (e - r)"
  shows "queued N b r e = queued N b r w @ queued N b w e"
proof -
  have "unat (e - w) = unat (e - r) - unat (w - r)"
    using assms unat_sub [of "w - r" "e - r"] by (simp add: word_le_nat_alt)
  then have n: "unat (e - r) = unat (w - r) + unat (e - w)" using assms by simp
  have "b (unat (r + of_nat (unat (w - r) + k)) mod N) = b (unat (w + of_nat k) mod N)" for k
    by (simp add: add.assoc [symmetric])
  then show ?thesis
    unfolding queued_def n by (intro nth_equalityI) (auto simp: nth_append add.commute simp del: of_nat_add dest!: le_Suc_ex)
qed

end

end
