(* ===== verification/Bio.thy ===== *)
theory Bio
  imports Sched
begin

text \<open>
  \<open>bio.c\<close>, the buffer cache, over the in-memory disk driver of \<open>memide.c\<close>.

  The cache is the array \<open>bcache.buf\<close> threaded on a circular doubly linked list with
  the sentinel \<open>bcache.head\<close>; the links are modelled as the code has them, and
  \<open>dlist c xs\<close> says that they represent the list \<open>xs\<close> of buffers, most recently used
  first.  The two scans of \<open>bget\<close> carry fuel \<open>NBUF + 1\<close>, one step for each buffer and
  one for the sentinel; \<open>scan_next_eq\<close> and \<open>scan_prev_eq\<close> show that this is enough for
  every well-formed list, so the model spins only where the C loop would.

  Clients see the cache through \<open>bview\<close>: the contents of a block as the kernel sees
  it, in the cache where it is cached and on the disk elsewhere.
\<close>

section \<open>Links\<close>

definition nextp :: "bcache \<Rightarrow> bptr \<Rightarrow> bptr" where
  "nextp c p = (case p of HeadP \<Rightarrow> bc_head_next c | BufP i \<Rightarrow> b_next (bc_buf c ! i))"

definition prevp :: "bcache \<Rightarrow> bptr \<Rightarrow> bptr" where
  "prevp c p = (case p of HeadP \<Rightarrow> bc_head_prev c | BufP i \<Rightarrow> b_prev (bc_buf c ! i))"

definition set_next :: "bptr \<Rightarrow> bptr \<Rightarrow> bcache \<Rightarrow> bcache" where
  "set_next p q c =
     (case p of HeadP \<Rightarrow> c\<lparr>bc_head_next := q\<rparr> | BufP i \<Rightarrow> upd_buf i (\<lambda>b. b\<lparr>b_next := q\<rparr>) c)"

definition set_prev :: "bptr \<Rightarrow> bptr \<Rightarrow> bcache \<Rightarrow> bcache" where
  "set_prev p q c =
     (case p of HeadP \<Rightarrow> c\<lparr>bc_head_prev := q\<rparr> | BufP i \<Rightarrow> upd_buf i (\<lambda>b. b\<lparr>b_prev := q\<rparr>) c)"

definition modc :: "(bcache \<Rightarrow> bcache) \<Rightarrow> unit kfun" where
  "modc f = modify (\<lambda>s. s\<lparr>kbcache := f (kbcache s)\<rparr>)"

abbreviation bufs :: "kstate \<Rightarrow> buf list" where
  "bufs s \<equiv> bc_buf (kbcache s)"

section \<open>Operations\<close>

text \<open>\<open>dev = -1\<close> as an unsigned number.\<close>

abbreviation (input) NODEV :: nat where "NODEV \<equiv> 4294967295"

definition binit_step :: "nat \<Rightarrow> bcache \<Rightarrow> bcache" where
  "binit_step i c =
     (let c = set_next (BufP i) (bc_head_next c) c;
          c = set_prev (BufP i) HeadP c;
          c = upd_buf i (\<lambda>b. b\<lparr>b_dev := NODEV\<rparr>) c;
          c = set_prev (bc_head_next c) (BufP i) c
      in set_next HeadP (BufP i) c)"

definition binit :: "unit kfun" where
  "binit =
     sq (initlock BcacheLock)
     (sq (modc (\<lambda>c. c\<lparr>bc_head_prev := HeadP\<rparr>))
     (sq (modc (\<lambda>c. c\<lparr>bc_head_next := HeadP\<rparr>))
     (forM [0 ..< NBUF] (\<lambda>i. modc (binit_step i)))))"

text \<open>
  One of \<open>bget\<close>'s scans, following \<open>nx\<close> from \<open>p\<close> until the sentinel: \<open>None\<close> when the
  fuel runs out, \<open>Some None\<close> when no buffer matches.
\<close>

fun scan :: "(bptr \<Rightarrow> bptr) \<Rightarrow> (nat \<Rightarrow> bool) \<Rightarrow> nat \<Rightarrow> bptr \<Rightarrow> nat option option" where
  "scan nx P 0 p = None"
| "scan nx P (Suc n) HeadP = Some None"
| "scan nx P (Suc n) (BufP i) = (if P i then Some (Some i) else scan nx P n (nx (BufP i)))"

definition bget_loop :: "nat \<Rightarrow> nat \<Rightarrow> nat kfun" where
  "bget_loop dev blockno =
     bnd (gets kbcache) (\<lambda>c.
     case scan (nextp c) (\<lambda>i. b_dev (bc_buf c ! i) = dev \<and> b_blockno (bc_buf c ! i) = blockno)
            (NBUF + 1) (bc_head_next c) of
       None \<Rightarrow> spin
     | Some (Some i) \<Rightarrow>
         if \<not> b_busy (bc_buf c ! i)
         then sq (setb i (\<lambda>b. b\<lparr>b_busy := True\<rparr>)) (sq (release BcacheLock) (ret i))
         else sleep (ChanBuf i) (Some BcacheLock)
     | Some None \<Rightarrow>
         (case scan (prevp c) (\<lambda>i. \<not> b_busy (bc_buf c ! i) \<and> \<not> b_dirty (bc_buf c ! i))
                 (NBUF + 1) (bc_head_prev c) of
            None \<Rightarrow> spin
          | Some None \<Rightarrow> panic ''bget: no buffers''
          | Some (Some i) \<Rightarrow>
              sq (setb i (\<lambda>b. b\<lparr>b_dev := dev\<rparr>))
              (sq (setb i (\<lambda>b. b\<lparr>b_blockno := blockno\<rparr>))
              (sq (setb i (\<lambda>b. b\<lparr>b_busy := True, b_valid := False, b_dirty := False\<rparr>))
              (sq (release BcacheLock) (ret i))))))"

definition bget :: "nat \<Rightarrow> nat \<Rightarrow> nat kfun" where
  "bget dev blockno = sq (acquire BcacheLock) (bget_loop dev blockno)"

text \<open>
  \<open>memide.c\<close>.  A write of a block is recorded in \<open>dtrace\<close>; \<open>memmove\<close> of \<open>BSIZE\<close> bytes
  between the buffer and the disk copies the whole block.
\<close>

definition ideinit :: "(nat \<Rightarrow> bytes) \<Rightarrow> nat \<Rightarrow> unit kfun" where
  "ideinit img sz =
     sq (modify (\<lambda>s. s\<lparr>disk := img\<rparr>)) (modify (\<lambda>s. s\<lparr>disksize := sz div BSIZE\<rparr>))"

definition ideintr :: "unit kfun" where
  "ideintr = ret ()"

definition iderw :: "nat \<Rightarrow> unit kfun" where
  "iderw i =
     bnd (getb i) (\<lambda>b. bnd (gets disksize) (\<lambda>dsz.
     if \<not> b_busy b then panic ''iderw: buf not busy''
     else if b_valid b \<and> \<not> b_dirty b then panic ''iderw: nothing to do''
     else if b_dev b \<noteq> 1 then panic ''iderw: request not for disk 1''
     else if dsz \<le> b_blockno b then panic ''iderw: block out of range''
     else
       sq (if b_dirty b
           then sq (setb i (\<lambda>b. b\<lparr>b_dirty := False\<rparr>))
                   (modify (\<lambda>s. s\<lparr>disk := (disk s)(b_blockno b := b_data b),
                                  dtrace := dtrace s @ [(b_blockno b, b_data b)]\<rparr>))
           else bnd (gets (\<lambda>s. disk s (b_blockno b))) (\<lambda>d. setb i (\<lambda>b. b\<lparr>b_data := d\<rparr>)))
       (setb i (\<lambda>b. b\<lparr>b_valid := True\<rparr>))))"

definition bread :: "nat \<Rightarrow> nat \<Rightarrow> nat kfun" where
  "bread dev blockno =
     bnd (bget dev blockno) (\<lambda>i.
     bnd (getb i) (\<lambda>b.
     sq (whenk (\<not> b_valid b) (iderw i))
     (ret i)))"

definition bwrite :: "nat \<Rightarrow> unit kfun" where
  "bwrite i =
     bnd (getb i) (\<lambda>b.
     if \<not> b_busy b then panic ''bwrite''
     else sq (setb i (\<lambda>b. b\<lparr>b_dirty := True\<rparr>)) (iderw i))"

definition brelse_links :: "nat \<Rightarrow> bcache \<Rightarrow> bcache" where
  "brelse_links i c =
     (let p = BufP i;
          c = set_prev (nextp c p) (prevp c p) c;
          c = set_next (prevp c p) (nextp c p) c;
          c = set_next p (bc_head_next c) c;
          c = set_prev p HeadP c;
          c = set_prev (bc_head_next c) p c
      in set_next HeadP p c)"

definition brelse :: "nat \<Rightarrow> unit kfun" where
  "brelse i =
     bnd (getb i) (\<lambda>b.
     if \<not> b_busy b then panic ''brelse''
     else
       sq (acquire BcacheLock)
       (sq (modc (brelse_links i))
       (sq (setb i (\<lambda>b. b\<lparr>b_busy := False\<rparr>))
       (sq (wakeup (ChanBuf i))
       (release BcacheLock)))))"

text \<open>Reading and replacing \<open>b->data\<close>.\<close>

definition bdata :: "nat \<Rightarrow> bytes kfun" where
  "bdata i = bnd (getb i) (\<lambda>b. ret (b_data b))"

definition set_bdata :: "nat \<Rightarrow> bytes \<Rightarrow> unit kfun" where
  "set_bdata i d = setb i (\<lambda>b. b\<lparr>b_data := d\<rparr>)"

section \<open>The linked list\<close>

fun chained :: "bcache \<Rightarrow> bptr \<Rightarrow> nat list \<Rightarrow> bptr \<Rightarrow> bool" where
  "chained c p [] q \<longleftrightarrow> nextp c p = q \<and> prevp c q = p"
| "chained c p (i # xs) q \<longleftrightarrow>
     nextp c p = BufP i \<and> prevp c (BufP i) = p \<and> chained c (BufP i) xs q"

definition dlist :: "bcache \<Rightarrow> nat list \<Rightarrow> bool" where
  "dlist c xs \<longleftrightarrow> chained c HeadP xs HeadP \<and> distinct xs \<and> set xs = {..< length (bc_buf c)}"

lemma chained_append:
  "chained c p (xs @ i # ys) q \<longleftrightarrow> chained c p xs (BufP i) \<and> chained c (BufP i) ys q"
  by (induction xs arbitrary: p) auto

lemma chained_snoc:
  "chained c p (xs @ [i]) q \<longleftrightarrow> chained c p xs (BufP i) \<and> nextp c (BufP i) = q \<and> prevp c q = BufP i"
  by (simp add: chained_append)

text \<open>What a chain depends on.\<close>

lemma chained_cong:
  assumes "\<And>r. r = p \<or> r \<in> BufP ` set xs \<Longrightarrow> nextp c' r = nextp c r"
    and "\<And>r. r = q \<or> r \<in> BufP ` set xs \<Longrightarrow> prevp c' r = prevp c r"
  shows "chained c' p xs q = chained c p xs q"
  using assms by (induction xs arbitrary: p) auto

definition ptr_ok :: "bcache \<Rightarrow> bptr \<Rightarrow> bool" where
  "ptr_ok c p = (case p of HeadP \<Rightarrow> True | BufP i \<Rightarrow> i < length (bc_buf c))"

lemma ptr_ok_simps [simp]: "ptr_ok c HeadP" "ptr_ok c (BufP i) \<longleftrightarrow> i < length (bc_buf c)"
  by (simp_all add: ptr_ok_def)

lemma nextp_set_next:
  "ptr_ok c p \<Longrightarrow> nextp (set_next p q c) r = (if r = p then q else nextp c r)"
  by (auto simp: nextp_def set_next_def upd_buf_def upd_nth_def nth_list_update split: bptr.splits)

lemma prevp_set_prev:
  "ptr_ok c p \<Longrightarrow> prevp (set_prev p q c) r = (if r = p then q else prevp c r)"
  by (auto simp: prevp_def set_prev_def upd_buf_def upd_nth_def nth_list_update split: bptr.splits)

lemma nextp_set_prev [simp]: "nextp (set_prev p q c) r = nextp c r"
  by (auto simp: nextp_def set_prev_def upd_buf_def upd_nth_def nth_list_update split: bptr.splits)

lemma prevp_set_next [simp]: "prevp (set_next p q c) r = prevp c r"
  by (auto simp: prevp_def set_next_def upd_buf_def upd_nth_def nth_list_update split: bptr.splits)

lemma length_bufs_set [simp]: "length (bc_buf (set_next p q c)) = length (bc_buf c)"
  "length (bc_buf (set_prev p q c)) = length (bc_buf c)"
  "length (bc_buf (upd_buf i f c)) = length (bc_buf c)"
  by (auto simp: set_next_def set_prev_def upd_buf_def split: bptr.splits)

lemma head_next_eq: "bc_head_next c = nextp c HeadP" and head_prev_eq: "bc_head_prev c = prevp c HeadP"
  by (simp_all add: nextp_def prevp_def)

lemma ptr_ok_set [simp]: "ptr_ok (set_next p q c) r = ptr_ok c r" "ptr_ok (set_prev p q c) r = ptr_ok c r"
  by (cases r; simp)+

text \<open>A buffer's contents apart from its links.\<close>

definition payload :: "buf \<Rightarrow> buf" where
  "payload b = b\<lparr>b_prev := HeadP, b_next := HeadP\<rparr>"

lemma payload_fields: "payload b = payload b' \<longleftrightarrow>
   b_busy b = b_busy b' \<and> b_valid b = b_valid b' \<and> b_dirty b = b_dirty b' \<and>
   b_dev b = b_dev b' \<and> b_blockno b = b_blockno b' \<and> b_data b = b_data b'"
  by (cases b; cases b') (auto simp: payload_def)

lemma payload_set [simp]:
  "map payload (bc_buf (set_next p q c)) = map payload (bc_buf c)"
  "map payload (bc_buf (set_prev p q c)) = map payload (bc_buf c)"
  by (auto simp: set_next_def set_prev_def upd_buf_def payload_def map_upd_nth_same split: bptr.splits)

lemma upd_buf_links:
  assumes "\<And>b. b_next (f b) = b_next b" "\<And>b. b_prev (f b) = b_prev b"
  shows "nextp (upd_buf i f c) p = nextp c p" "prevp (upd_buf i f c) p = prevp c p"
  using assms
  by (auto simp: nextp_def prevp_def upd_buf_def upd_nth_def nth_list_update split: bptr.splits)

lemma dlist_upd_buf:
  "(\<And>b. b_next (f b) = b_next b) \<Longrightarrow> (\<And>b. b_prev (f b) = b_prev b) \<Longrightarrow>
     dlist (upd_buf i f c) xs = dlist c xs"
  unfolding dlist_def by (simp add: upd_buf_links cong: chained_cong)

lemma scan_next_eq:
  "chained c p xs HeadP \<Longrightarrow> length xs < n \<Longrightarrow> scan (nextp c) P n (nextp c p) = Some (find P xs)"
proof (induction xs arbitrary: p n)
  case Nil
  then show ?case by (cases n) auto
next
  case (Cons i xs)
  then obtain m where m: "n = Suc m" by (cases n) auto
  have "scan (nextp c) P m (nextp c (BufP i)) = Some (find P xs)"
    using Cons.prems m by (intro Cons.IH) auto
  then show ?case using Cons.prems m by simp
qed

lemma scan_prev_eq:
  "chained c HeadP xs q \<Longrightarrow> length xs < n \<Longrightarrow> scan (prevp c) P n (prevp c q) = Some (find P (rev xs))"
proof (induction xs arbitrary: q n rule: rev_induct)
  case Nil
  then show ?case by (cases n) auto
next
  case (snoc i xs)
  then obtain m where m: "n = Suc m" by (cases n) auto
  have "scan (prevp c) P m (prevp c (BufP i)) = Some (find P (rev xs))"
    using snoc.prems m by (intro snoc.IH) (auto simp: chained_append)
  then show ?case using snoc.prems m by (simp add: chained_append)
qed

lemma chained_prev_in: "chained c p (xs @ i # ys) q \<Longrightarrow> prevp c (BufP i) \<in> insert p (BufP ` set xs)"
  by (induction xs arbitrary: p) auto

lemma chained_next_in: "chained c (BufP i) ys q \<Longrightarrow> nextp c (BufP i) \<in> insert q (BufP ` set ys)"
  by (cases ys) auto

definition unlink :: "nat \<Rightarrow> bcache \<Rightarrow> bcache" where
  "unlink i c = set_next (prevp c (BufP i)) (nextp c (BufP i))
                  (set_prev (nextp c (BufP i)) (prevp c (BufP i)) c)"

definition push_front :: "nat \<Rightarrow> bcache \<Rightarrow> bcache" where
  "push_front i c = set_next HeadP (BufP i) (set_prev (nextp c HeadP) (BufP i)
                      (set_prev (BufP i) HeadP (set_next (BufP i) (nextp c HeadP) c)))"

lemma links_unlink:
  assumes "ptr_ok c (nextp c (BufP i))" "ptr_ok c (prevp c (BufP i))"
  shows "nextp (unlink i c) r = (if r = prevp c (BufP i) then nextp c (BufP i) else nextp c r)"
    "prevp (unlink i c) r = (if r = nextp c (BufP i) then prevp c (BufP i) else prevp c r)"
  using assms unfolding unlink_def by (simp_all add: nextp_set_next prevp_set_prev)

lemma chained_ptr_ok:
  assumes "chained c HeadP (xs @ i # ys) HeadP" "set (xs @ i # ys) \<subseteq> {..< length (bc_buf c)}"
  shows "ptr_ok c (nextp c (BufP i))" "ptr_ok c (prevp c (BufP i))"
  using chained_next_in [of c i ys HeadP] chained_prev_in [OF assms(1)] assms
  by (auto simp: chained_append)

lemma chained_unlink:
  assumes "ptr_ok c (nextp c (BufP i))" "ptr_ok c (prevp c (BufP i))"
    and "chained c p (xs @ i # ys) q" "distinct (xs @ i # ys)"
    and "p \<notin> BufP ` set (xs @ i # ys)" "q \<notin> BufP ` set (xs @ i # ys)"
  shows "chained (unlink i c) p (xs @ ys) q"
proof -
  note lu = links_unlink [OF assms(1,2)]
  show ?thesis using assms(3-6)
  proof (induction xs arbitrary: p)
    case Nil
    show ?case
    proof (cases ys)
      case (Cons j zs)
      have "chained (unlink i c) (BufP j) zs q = chained c (BufP j) zs q"
        using Nil Cons by (intro chained_cong) (auto simp: lu)
      then show ?thesis using Nil Cons by (auto simp: lu)
    qed (use Nil in \<open>auto simp: lu\<close>)
  next
    case (Cons k xs)
    have IH: "chained (unlink i c) (BufP k) (xs @ ys) q" using Cons.prems by (intro Cons.IH) auto
    have ch: "chained c (BufP k) (xs @ i # ys) q" using Cons.prems by simp
    have "p \<notin> insert (BufP k) (BufP ` set xs)" using Cons.prems by auto
    then have "prevp c (BufP i) \<noteq> p" using chained_prev_in [OF ch] by blast
    moreover have "nextp c (BufP i) \<noteq> BufP k"
      using chained_next_in [of c i ys q] ch Cons.prems by (auto simp: chained_append)
    ultimately show ?case using IH Cons.prems by (simp add: lu)
  qed
qed

lemma chained_push_front:
  assumes "chained c HeadP xs HeadP" "i \<notin> set xs" "insert i (set xs) \<subseteq> {..< length (bc_buf c)}"
    "distinct xs"
  shows "chained (push_front i c) HeadP (i # xs) HeadP"
proof (cases xs)
  case Nil
  then show ?thesis using assms
    by (simp add: push_front_def nextp_set_next prevp_set_prev)
next
  case (Cons j ys)
  have j: "nextp c HeadP = BufP j" using assms Cons by simp
  have "chained (push_front i c) (BufP j) ys HeadP = chained c (BufP j) ys HeadP"
    unfolding push_front_def j using assms Cons
    by (intro chained_cong) (auto simp: nextp_set_next prevp_set_prev)
  then show ?thesis using assms Cons j
    by (auto simp: push_front_def nextp_set_next prevp_set_prev)
qed

lemma brelse_links_eq:
  assumes "nextp c (BufP i) \<noteq> BufP i" "ptr_ok c (nextp c (BufP i))" "i < length (bc_buf c)"
  shows "brelse_links i c = push_front i (unlink i c)"
  using assms
  by (simp add: brelse_links_def push_front_def unlink_def Let_def head_next_eq nextp_set_next prevp_set_prev)

lemma length_move [simp]: "length (bc_buf (unlink i c)) = length (bc_buf c)"
  "length (bc_buf (push_front i c)) = length (bc_buf c)"
  by (simp_all add: unlink_def push_front_def)

text \<open>\<open>brelse\<close> moves the buffer to the front of the represented list.\<close>

lemma dlist_brelse_links:
  assumes "dlist c xs" "i \<in> set xs"
  shows "dlist (brelse_links i c) (i # remove1 i xs)"
proof -
  obtain as bs where s: "xs = as @ i # bs" "i \<notin> set as"
    using split_list_first [OF assms(2)] by blast
  have d: "chained c HeadP (as @ i # bs) HeadP" "distinct (as @ i # bs)"
    "set (as @ i # bs) = {..< length (bc_buf c)}" using assms(1) s by (auto simp: dlist_def)
  have "chained (unlink i c) HeadP (as @ bs) HeadP"
    using d chained_ptr_ok [OF d(1)] by (intro chained_unlink) auto
  then have "chained (push_front i (unlink i c)) HeadP (i # as @ bs) HeadP"
    using d by (intro chained_push_front) auto
  moreover have "remove1 i xs = as @ bs" using s by (simp add: remove1_append)
  moreover have "nextp c (BufP i) \<noteq> BufP i"
    using chained_next_in [of c i bs HeadP] d by (auto simp: chained_append)
  moreover have "i < length (bc_buf c)" using d(3) by auto
  ultimately show ?thesis using d s chained_ptr_ok(1) [OF d(1)] by (simp add: dlist_def brelse_links_eq)
qed

lemma payload_brelse_links [simp]: "map payload (bc_buf (brelse_links i c)) = map payload (bc_buf c)"
  by (simp add: brelse_links_def Let_def)

lemma nth_payload:
  "map payload xs = map payload ys \<Longrightarrow> i < length xs \<Longrightarrow> payload (xs ! i) = payload (ys ! i)"
  by (metis length_map nth_map)

section \<open>The cache invariant and the view of a block\<close>

definition bc_inv :: "kstate \<Rightarrow> bool" where
  "bc_inv s \<longleftrightarrow>
     length (bufs s) = NBUF \<and> (\<exists>xs. dlist (kbcache s) xs) \<and>
     (\<forall>i < NBUF. \<forall>j < NBUF. b_dev (bufs s ! i) = b_dev (bufs s ! j) \<longrightarrow>
        b_blockno (bufs s ! i) = b_blockno (bufs s ! j) \<longrightarrow> b_dev (bufs s ! i) \<noteq> NODEV \<longrightarrow> i = j) \<and>
     (\<forall>i < NBUF. b_valid (bufs s ! i) \<longrightarrow> \<not> b_busy (bufs s ! i) \<longrightarrow> \<not> b_dirty (bufs s ! i) \<longrightarrow>
        b_dev (bufs s ! i) = ROOTDEV \<longrightarrow> b_data (bufs s ! i) = disk s (b_blockno (bufs s ! i))) \<and>
     (\<forall>i < NBUF. b_dirty (bufs s ! i) \<longrightarrow> b_valid (bufs s ! i) \<and> b_dev (bufs s ! i) = ROOTDEV)"

definition caches :: "kstate \<Rightarrow> nat \<Rightarrow> nat \<Rightarrow> bool" where
  "caches s i b \<longleftrightarrow> i < NBUF \<and> b_dev (bufs s ! i) = ROOTDEV \<and> b_blockno (bufs s ! i) = b"

definition bview :: "kstate \<Rightarrow> nat \<Rightarrow> bytes" where
  "bview s b =
     (case find (\<lambda>i. caches s i b \<and> b_valid (bufs s ! i)) [0 ..< NBUF] of
        Some i \<Rightarrow> b_data (bufs s ! i) | None \<Rightarrow> disk s b)"

text \<open>Buffer \<open>i\<close> is held (\<open>B_BUSY\<close>) for block \<open>b\<close>; the dirty, i.e. pinned blocks; the spare buffers.\<close>

definition hold :: "kstate \<Rightarrow> nat \<Rightarrow> nat \<Rightarrow> bool" where
  "hold s i b \<longleftrightarrow> caches s i b \<and> b_busy (bufs s ! i) \<and> b_valid (bufs s ! i)"

definition busy_block :: "kstate \<Rightarrow> nat \<Rightarrow> bool" where
  "busy_block s b \<longleftrightarrow> (\<exists>i. caches s i b \<and> b_busy (bufs s ! i))"

definition pinned :: "kstate \<Rightarrow> nat set" where
  "pinned s = {b. \<exists>i. caches s i b \<and> b_dirty (bufs s ! i)}"

definition spare :: "kstate \<Rightarrow> nat set" where
  "spare s = {i. i < NBUF \<and> \<not> b_busy (bufs s ! i) \<and> \<not> b_dirty (bufs s ! i)}"

lemma caches_unique: "bc_inv s \<Longrightarrow> caches s i b \<Longrightarrow> caches s j b \<Longrightarrow> i = j"
  by (auto simp: bc_inv_def caches_def)

lemma bview_cached:
  assumes "bc_inv s" "caches s i b" "b_valid (bufs s ! i)"
  shows "bview s b = b_data (bufs s ! i)"
proof -
  have "find (\<lambda>i. caches s i b \<and> b_valid (bufs s ! i)) [0 ..< NBUF] \<noteq> None"
    using assms by (auto simp: find_None_iff caches_def)
  then obtain j where j: "find (\<lambda>i. caches s i b \<and> b_valid (bufs s ! i)) [0 ..< NBUF] = Some j" by auto
  then have "caches s j b" by (auto simp: find_Some_iff)
  then have "j = i" using caches_unique assms by blast
  then show ?thesis using j by (simp add: bview_def)
qed

lemma bview_disk: "(\<And>i. caches s i b \<Longrightarrow> \<not> b_valid (bufs s ! i)) \<Longrightarrow> bview s b = disk s b"
proof -
  assume a: "\<And>i. caches s i b \<Longrightarrow> \<not> b_valid (bufs s ! i)"
  have "find (\<lambda>i. caches s i b \<and> b_valid (bufs s ! i)) [0 ..< NBUF] = None"
    using a by (auto simp: find_None_iff)
  then show ?thesis by (simp add: bview_def)
qed

lemma finite_spare [simp]: "finite (spare s)"
  by (simp add: spare_def)

lemma bc_inv_dlist: "bc_inv s \<Longrightarrow> \<exists>xs. dlist (kbcache s) xs \<and> (\<forall>i. i \<in> set xs \<longleftrightarrow> i < NBUF) \<and> length xs = NBUF"
proof -
  assume "bc_inv s"
  then obtain xs where x: "dlist (kbcache s) xs" "length (bufs s) = NBUF" by (auto simp: bc_inv_def)
  then have "\<forall>i. i \<in> set xs \<longleftrightarrow> i < NBUF" by (auto simp: dlist_def simp del: lessThan_nat_numeral)
  moreover have "length xs = NBUF"
    using x distinct_card [of xs] by (simp add: dlist_def del: lessThan_nat_numeral)
  ultimately show ?thesis using x(1) by blast
qed

text \<open>The outcome of \<open>bget\<close>'s two scans on a well-formed cache.\<close>

lemma find_outcome:
  assumes "\<forall>i. i \<in> set xs \<longleftrightarrow> i < n"
  shows "find P xs = None \<and> (\<forall>i. i < n \<longrightarrow> \<not> P i) \<or> (\<exists>i. i < n \<and> P i \<and> find P xs = Some i)"
proof (cases "find P xs")
  case None
  then show ?thesis using assms by (auto simp: find_None_iff)
next
  case (Some i)
  then have "i \<in> set xs" "P i" by (auto simp: find_Some_iff)
  then show ?thesis using assms Some by blast
qed

lemma scan_cached:
  assumes "bc_inv s" "scan (nextp (kbcache s)) P (NBUF + 1) (bc_head_next (kbcache s)) = r"
  shows "r = Some None \<and> (\<forall>i. i < NBUF \<longrightarrow> \<not> P i) \<or> (\<exists>i. i < NBUF \<and> P i \<and> r = Some (Some i))"
proof -
  obtain xs where xs: "dlist (kbcache s) xs" "\<forall>i. i \<in> set xs \<longleftrightarrow> i < NBUF" "length xs = NBUF"
    using bc_inv_dlist [OF assms(1)] by blast
  have "r = Some (find P xs)"
    unfolding assms(2) [symmetric] head_next_eq using xs(1,3)
    by (intro scan_next_eq) (simp_all add: dlist_def)
  then show ?thesis using find_outcome [OF xs(2), of P] by (elim disjE exE conjE) simp_all
qed

lemma scan_recycle:
  assumes "bc_inv s" "scan (prevp (kbcache s)) P (NBUF + 1) (bc_head_prev (kbcache s)) = r"
  shows "r = Some None \<and> (\<forall>i. i < NBUF \<longrightarrow> \<not> P i) \<or> (\<exists>i. i < NBUF \<and> P i \<and> r = Some (Some i))"
proof -
  obtain xs where xs: "dlist (kbcache s) xs" "\<forall>i. i \<in> set xs \<longleftrightarrow> i < NBUF" "length xs = NBUF"
    using bc_inv_dlist [OF assms(1)] by blast
  have "r = Some (find P (rev xs))"
    unfolding assms(2) [symmetric] head_prev_eq using xs(1,3)
    by (intro scan_prev_eq) (simp_all add: dlist_def)
  moreover have rv: "\<forall>i. i \<in> set (rev xs) \<longleftrightarrow> i < NBUF" using xs(2) by simp
  ultimately show ?thesis using find_outcome [OF rv, of P] by (elim disjE exE conjE) simp_all
qed

section \<open>The effect of the operations\<close>

lemma released_cs:
  "quiet s \<Longrightarrow> released lk ((acquired lk s)\<lparr>kbcache := c\<rparr>) = (cs s)\<lparr>kbcache := c\<rparr>"
  by (simp add: released_def acquired_def cs_def quiet_def free_lock_def fun_upd_idem_iff)

lemma release_cs:
  "quiet s \<Longrightarrow> release lk ((acquired lk s)\<lparr>kbcache := c\<rparr>) = Done () ((cs s)\<lparr>kbcache := c\<rparr>)"
  by (simp add: release_eq released_cs quiet_def)

definition bread_buf :: "kstate \<Rightarrow> nat \<Rightarrow> nat \<Rightarrow> buf" where
  "bread_buf s b i = (bufs s ! i)\<lparr>b_busy := True, b_valid := True, b_dev := ROOTDEV, b_blockno := b,
     b_dirty := (caches s i b \<and> b_dirty (bufs s ! i)), b_data := bview s b\<rparr>"

definition bread_picks :: "kstate \<Rightarrow> nat \<Rightarrow> nat \<Rightarrow> bool" where
  "bread_picks s b i \<longleftrightarrow> i < NBUF \<and> \<not> b_busy (bufs s ! i) \<and>
     (caches s i b \<or> i \<in> spare s \<and> (\<forall>j. \<not> caches s j b))"

lemma upd_buf_upd_buf: "upd_buf i f (upd_buf i g c) = upd_buf i (\<lambda>b. f (g b)) c"
  by (auto simp: upd_buf_def upd_nth_def)

lemma upd_buf_const: "i < length (bc_buf c) \<Longrightarrow> upd_buf i f c = upd_buf i (\<lambda>_. f (bc_buf c ! i)) c"
  by (simp add: upd_buf_def upd_nth_def)

lemma bget_picks:
  assumes q: "quiet s" and inv: "bc_inv s" and nb: "\<not> busy_block s b" and sp: "spare s \<noteq> {}"
  shows "\<exists>i. bread_picks s b i \<and> bget ROOTDEV b s = Done i ((cs s)\<lparr>kbcache := upd_buf i
    (\<lambda>x. if caches s i b then x\<lparr>b_busy := True\<rparr>
         else x\<lparr>b_dev := ROOTDEV, b_blockno := b, b_busy := True, b_valid := False, b_dirty := False\<rparr>)
    (kbcache s)\<rparr>)"
proof -
  let ?P = "\<lambda>i. b_dev (bufs s ! i) = ROOTDEV \<and> b_blockno (bufs s ! i) = b"
  let ?S = "\<lambda>i. \<not> b_busy (bufs s ! i) \<and> \<not> b_dirty (bufs s ! i)"
  note defs = bget_def bget_loop_def sq_def bnd_def acquire_eq gets_def setb_def modify_def ret_def
    release_cs upd_buf_upd_buf
  from scan_cached [OF inv refl, of ?P] show ?thesis
  proof (elim disjE conjE exE)
    fix i
    assume i: "i < NBUF" "b_dev (bufs s ! i) = ROOTDEV" "b_blockno (bufs s ! i) = b"
      and sc: "scan (nextp (kbcache s)) ?P (NBUF + 1) (bc_head_next (kbcache s)) = Some (Some i)"
    have ci: "caches s i b" using i by (simp add: caches_def)
    then have "\<not> b_busy (bufs s ! i)" using nb by (auto simp: busy_block_def)
    then show ?thesis using ci q sc i(1) by (intro exI [of _ i]) (simp add: defs bread_picks_def)
  next
    assume none: "\<forall>i. i < NBUF \<longrightarrow> \<not> ?P i"
      and sc: "scan (nextp (kbcache s)) ?P (NBUF + 1) (bc_head_next (kbcache s)) = Some None"
    have nc: "\<And>j. \<not> caches s j b" using none by (auto simp: caches_def)
    from scan_recycle [OF inv refl, of ?S] show ?thesis
    proof (elim disjE conjE exE)
      assume "\<forall>i. i < NBUF \<longrightarrow> \<not> ?S i"
      then show ?thesis using sp by (auto simp: spare_def)
    next
      fix i
      assume i: "i < NBUF" "\<not> b_busy (bufs s ! i)" "\<not> b_dirty (bufs s ! i)"
        and sr: "scan (prevp (kbcache s)) ?S (NBUF + 1) (bc_head_prev (kbcache s)) = Some (Some i)"
      have "i \<in> spare s" using i by (simp add: spare_def)
      then show ?thesis using nc q sc sr i by (intro exI [of _ i]) (simp add: defs bread_picks_def)
    qed
  qed
qed

lemma buf_eqI: "payload b = payload b' \<Longrightarrow> b_next b = b_next b' \<Longrightarrow> b_prev b = b_prev b' \<Longrightarrow> b = b'"
  by (cases b; cases b') (simp add: payload_fields)

lemma iderw_read:
  assumes "i < length (bufs s)" "b_busy (bufs s ! i)" "\<not> b_valid (bufs s ! i)" "\<not> b_dirty (bufs s ! i)"
    "b_dev (bufs s ! i) = ROOTDEV" "b_blockno (bufs s ! i) < disksize s"
  shows "iderw i s = Done () (s\<lparr>kbcache := upd_buf i
     (\<lambda>x. x\<lparr>b_data := disk s (b_blockno (bufs s ! i)), b_valid := True\<rparr>) (kbcache s)\<rparr>)"
  using assms by (simp add: iderw_def bnd_def sq_def gets_def getb_def setb_def modify_def upd_buf_upd_buf)

lemma iderw_write:
  assumes "i < length (bufs s)" "b_busy (bufs s ! i)" "b_dirty (bufs s ! i)"
    "b_dev (bufs s ! i) = ROOTDEV" "b_blockno (bufs s ! i) < disksize s"
  shows "iderw i s = Done () (s\<lparr>kbcache := upd_buf i (\<lambda>x. x\<lparr>b_dirty := False, b_valid := True\<rparr>) (kbcache s),
     disk := (disk s)(b_blockno (bufs s ! i) := b_data (bufs s ! i)),
     dtrace := dtrace s @ [(b_blockno (bufs s ! i), b_data (bufs s ! i))]\<rparr>)"
  using assms by (simp add: iderw_def bnd_def sq_def gets_def getb_def setb_def modify_def upd_buf_upd_buf)

lemma nth_upd_buf [simp]:
  "j < length (bc_buf c) \<Longrightarrow> bc_buf (upd_buf i f c) ! j = (if j = i then f (bc_buf c ! j) else bc_buf c ! j)"
  by (simp add: upd_buf_def)

lemma bread_buf_cached:
  assumes "bc_inv s" "caches s i b" "b_valid (bufs s ! i)"
  shows "(bufs s ! i)\<lparr>b_busy := True\<rparr> = bread_buf s b i"
proof -
  have "b_dev (bufs s ! i) = ROOTDEV" "b_blockno (bufs s ! i) = b" using assms(2) by (simp_all add: caches_def)
  then show ?thesis
    using assms(2,3) bview_cached [OF assms] by - (rule buf_eqI, simp_all add: bread_buf_def payload_fields)
qed

lemma bread_buf_read:
  assumes "bc_inv s" "\<not> (caches s i b \<and> b_valid (bufs s ! i))" "caches s i b \<or> (\<forall>j. \<not> caches s j b)"
  shows "bview s b = disk s b" "caches s i b \<Longrightarrow> \<not> b_dirty (bufs s ! i)"
proof -
  have "\<And>j. caches s j b \<Longrightarrow> \<not> b_valid (bufs s ! j)"
    using assms caches_unique [OF assms(1)] by blast
  then show "bview s b = disk s b" by (rule bview_disk)
  show "caches s i b \<Longrightarrow> \<not> b_dirty (bufs s ! i)" using assms(1,2) by (auto simp: bc_inv_def caches_def)
qed

lemma upd_buf_eqI:
  "i < length (bc_buf c) \<Longrightarrow> f (bc_buf c ! i) = x \<Longrightarrow> upd_buf i f c = upd_buf i (\<lambda>_. x) c"
  by (simp add: upd_buf_def upd_nth_def)

text \<open>\<open>bread\<close> returns a held buffer with the block's current contents and changes nothing else.\<close>

lemma bread_eq:
  assumes q: "quiet s" and inv: "bc_inv s" and nb: "\<not> busy_block s b" and sp: "spare s \<noteq> {}"
    and sz: "b < disksize s"
  shows "\<exists>i. bread_picks s b i \<and>
    bread ROOTDEV b s = Done i ((cs s)\<lparr>kbcache := upd_buf i (\<lambda>_. bread_buf s b i) (kbcache s)\<rparr>)"
proof -
  let ?f = "\<lambda>i x. if caches s i b then x\<lparr>b_busy := True\<rparr>
     else x\<lparr>b_dev := ROOTDEV, b_blockno := b, b_busy := True, b_valid := False, b_dirty := False\<rparr>"
  let ?t = "\<lambda>i. (cs s)\<lparr>kbcache := upd_buf i (?f i) (kbcache s)\<rparr>"
  from bget_picks [OF q inv nb sp] obtain i where i: "bread_picks s b i" "bget ROOTDEV b s = Done i (?t i)"
    by blast
  have len: "i < length (bufs s)" using i(1) inv by (simp add: bread_picks_def bc_inv_def)
  have bi: "bufs (?t i) ! i = ?f i (bufs s ! i)" using len by simp
  show ?thesis
  proof (cases "caches s i b \<and> b_valid (bufs s ! i)")
    case True
    then have "bread ROOTDEV b s = Done i (?t i)"
      using i(2) bi by (simp add: bread_def bnd_def sq_def getb_def gets_def whenk_def ret_def)
    moreover have "upd_buf i (?f i) (kbcache s) = upd_buf i (\<lambda>_. bread_buf s b i) (kbcache s)"
      using True bread_buf_cached [OF inv] len by (intro upd_buf_eqI) simp_all
    ultimately show ?thesis using i(1) by (intro exI [of _ i]) simp
  next
    case False
    have r: "bview s b = disk s b" "caches s i b \<Longrightarrow> \<not> b_dirty (bufs s ! i)"
      using bread_buf_read [OF inv False] i(1) by (auto simp: bread_picks_def)
    have bn: "b_blockno (?f i (bufs s ! i)) = b" by (simp add: caches_def)
    have "iderw i (?t i) = Done () ((?t i)\<lparr>kbcache := upd_buf i
       (\<lambda>x. x\<lparr>b_data := disk (?t i) (b_blockno (bufs (?t i) ! i)), b_valid := True\<rparr>) (kbcache (?t i))\<rparr>)"
      using False r(2) len sz by (intro iderw_read) (auto simp: bi caches_def)
    then have "bread ROOTDEV b s = Done i ((cs s)\<lparr>kbcache := upd_buf i
       (\<lambda>x. (?f i x)\<lparr>b_data := disk s b, b_valid := True\<rparr>) (kbcache s)\<rparr>)"
      using i(2) bi False
      by (simp add: bread_def bnd_def sq_def getb_def gets_def whenk_def ret_def upd_buf_upd_buf bn)
    moreover have "upd_buf i (\<lambda>x. (?f i x)\<lparr>b_data := disk s b, b_valid := True\<rparr>) (kbcache s) =
        upd_buf i (\<lambda>_. bread_buf s b i) (kbcache s)"
      by (rule upd_buf_eqI [OF len], rule buf_eqI)
         (use r in \<open>auto simp: bread_buf_def payload_fields caches_def\<close>)
    ultimately show ?thesis using i(1) by (intro exI [of _ i]) simp
  qed
qed

section \<open>How an update of one buffer acts on the invariant and the view\<close>

lemma dlist_cong:
  assumes "\<And>p. nextp c' p = nextp c p" "\<And>p. prevp c' p = prevp c p" "length (bc_buf c') = length (bc_buf c)"
  shows "dlist c' xs = dlist c xs"
  using assms chained_cong [of HeadP xs c' c HeadP] by (simp add: dlist_def)

lemma links_upd_const:
  assumes "i < length (bc_buf c)" "b_next x = b_next (bc_buf c ! i)" "b_prev x = b_prev (bc_buf c ! i)"
  shows "nextp (upd_buf i (\<lambda>_. x) c) p = nextp c p" "prevp (upd_buf i (\<lambda>_. x) c) p = prevp c p"
  using assms by (cases p; simp add: nextp_def prevp_def upd_buf_def upd_nth_def nth_list_update)+

lemma bc_inv_upd:
  assumes inv: "bc_inv s" and i: "i < NBUF" and kb: "kbcache s' = upd_buf i (\<lambda>_. x) (kbcache s)"
    and links: "b_next x = b_next (bufs s ! i)" "b_prev x = b_prev (bufs s ! i)"
    and uniq: "\<And>j. j < NBUF \<Longrightarrow> j \<noteq> i \<Longrightarrow> b_dev (bufs s ! j) = b_dev x \<Longrightarrow>
          b_blockno (bufs s ! j) = b_blockno x \<Longrightarrow> b_dev x = NODEV"
    and disk: "\<And>b. b_dev x = ROOTDEV \<and> b_blockno x = b \<or> disk s' b = disk s b"
    and clean: "b_valid x \<Longrightarrow> \<not> b_busy x \<Longrightarrow> \<not> b_dirty x \<Longrightarrow> b_dev x = ROOTDEV \<Longrightarrow>
          b_data x = disk s' (b_blockno x)"
    and dirty: "b_dirty x \<Longrightarrow> b_valid x \<and> b_dev x = ROOTDEV"
  shows "bc_inv s'"
proof -
  have len: "length (bufs s) = NBUF" using inv by (simp add: bc_inv_def)
  have nth: "\<And>j. j < NBUF \<Longrightarrow> bufs s' ! j = (if j = i then x else bufs s ! j)"
    using kb len by simp
  obtain xs where "dlist (kbcache s) xs" using inv by (auto simp: bc_inv_def)
  then have "dlist (kbcache s') xs"
    unfolding kb using links i len by (subst dlist_cong [of _ "kbcache s"]) (simp_all add: links_upd_const)
  moreover have "length (bufs s') = NBUF" using kb len by simp
  moreover have "j = k" if "j < NBUF" "k < NBUF" "b_dev (bufs s' ! j) = b_dev (bufs s' ! k)"
    "b_blockno (bufs s' ! j) = b_blockno (bufs s' ! k)" "b_dev (bufs s' ! j) \<noteq> NODEV" for j k
    using that uniq inv unfolding bc_inv_def by (metis nth)
  moreover have "b_data (bufs s' ! j) = disk s' (b_blockno (bufs s' ! j))"
    if j: "j < NBUF" "b_valid (bufs s' ! j)" "\<not> b_busy (bufs s' ! j)" "\<not> b_dirty (bufs s' ! j)"
      "b_dev (bufs s' ! j) = ROOTDEV" for j
  proof (cases "j = i")
    case True
    then show ?thesis using j clean nth by simp
  next
    case False
    have "disk s' (b_blockno (bufs s ! j)) = disk s (b_blockno (bufs s ! j))"
      using disk [of "b_blockno (bufs s ! j)"] uniq [OF j(1) False] False j nth by auto
    then show ?thesis using False j nth inv by (simp add: bc_inv_def)
  qed
  moreover have "b_valid (bufs s' ! j) \<and> b_dev (bufs s' ! j) = ROOTDEV" if "j < NBUF" "b_dirty (bufs s' ! j)" for j
    using that dirty inv nth by (cases "j = i") (auto simp: bc_inv_def)
  ultimately show ?thesis unfolding bc_inv_def by blast
qed

lemma bview_other:
  assumes "bc_inv s" "bc_inv s'" "disk s' b = disk s b"
    and "\<And>j. caches s' j b \<longleftrightarrow> caches s j b"
    and "\<And>j. caches s j b \<Longrightarrow> b_valid (bufs s' ! j) = b_valid (bufs s ! j) \<and> b_data (bufs s' ! j) = b_data (bufs s ! j)"
  shows "bview s' b = bview s b"
proof (cases "\<exists>j. caches s j b \<and> b_valid (bufs s ! j)")
  case True
  then obtain j where j: "caches s j b" "b_valid (bufs s ! j)" by blast
  then have "bview s b = b_data (bufs s ! j)" "bview s' b = b_data (bufs s' ! j)"
    using bview_cached [OF assms(1) j] bview_cached [OF assms(2), of j b] assms(4,5) j by blast+
  then show ?thesis using assms(5) j by simp
next
  case False
  then have "bview s b = disk s b" by (intro bview_disk) blast
  moreover have "bview s' b = disk s' b" using False assms(4,5) by (intro bview_disk) blast
  ultimately show ?thesis using assms(3) by simp
qed

lemma bview_clean:
  assumes "bc_inv s" "caches s i b" "\<not> b_busy (bufs s ! i)" "\<not> b_dirty (bufs s ! i)"
  shows "bview s b = disk s b"
proof (cases "b_valid (bufs s ! i)")
  case True
  then have "bview s b = b_data (bufs s ! i)" using assms bview_cached by blast
  then show ?thesis using assms True by (auto simp: bc_inv_def caches_def)
next
  case False
  then show ?thesis using assms caches_unique by (intro bview_disk) blast
qed

section \<open>Contracts\<close>

definition bio_ok :: "kstate \<Rightarrow> bool" where
  "bio_ok s \<longleftrightarrow> quiet s \<and> ptable_ok s \<and> bc_inv s"

lemma bio_ok_len: "bio_ok s \<Longrightarrow> length (bufs s) = NBUF"
  by (simp add: bio_ok_def bc_inv_def)

definition bread_post :: "kstate \<Rightarrow> nat \<Rightarrow> nat \<Rightarrow> kstate \<Rightarrow> bool" where
  "bread_post s b i t \<longleftrightarrow>
     bio_ok t \<and> hold t i b \<and> same_rest s t \<and> klog t = klog s \<and> disk t = disk s \<and> dtrace t = dtrace s \<and>
     bview t = bview s \<and> pinned t = pinned s \<and> (\<forall>c. busy_block t c \<longleftrightarrow> c = b \<or> busy_block s c) \<and>
     (\<forall>j c. hold s j c \<longrightarrow> hold t j c \<and> j \<noteq> i) \<and>
     card (spare t) + (if b \<in> pinned s then 0 else 1) = card (spare s)"

text \<open>The state after \<open>bread\<close>: buffer \<open>i\<close> replaced by \<open>bread_buf s b i\<close>.\<close>

definition bread_st :: "kstate \<Rightarrow> nat \<Rightarrow> nat \<Rightarrow> kstate" where
  "bread_st s b i = (cs s)\<lparr>kbcache := upd_buf i (\<lambda>_. bread_buf s b i) (kbcache s)\<rparr>"

lemma bread_st_nth:
  "bc_inv s \<Longrightarrow> j < NBUF \<Longrightarrow> bufs (bread_st s b i) ! j = (if j = i then bread_buf s b i else bufs s ! j)"
  by (simp add: bread_st_def bc_inv_def)

lemma bread_st_caches:
  "bc_inv s \<Longrightarrow> caches (bread_st s b i) j c \<longleftrightarrow> (if j = i \<and> i < NBUF then c = b else caches s j c)"
  by (auto simp: caches_def bread_st_nth bread_buf_def)

lemma bread_picks_unique:
  "bc_inv s \<Longrightarrow> bread_picks s b i \<Longrightarrow> caches s j b \<Longrightarrow> j = i"
  using caches_unique by (auto simp: bread_picks_def)

lemma bread_st_inv:
  assumes inv: "bc_inv s" and p: "bread_picks s b i"
  shows "bc_inv (bread_st s b i)"
proof (rule bc_inv_upd [OF inv, where i = i and x = "bread_buf s b i"])
  fix j assume j: "j < NBUF" "j \<noteq> i" "b_dev (bufs s ! j) = b_dev (bread_buf s b i)"
    "b_blockno (bufs s ! j) = b_blockno (bread_buf s b i)"
  then have "caches s j b" by (simp add: caches_def bread_buf_def)
  then show "b_dev (bread_buf s b i) = NODEV" using bread_picks_unique [OF inv p] j by blast
qed (use p in \<open>simp_all add: bread_picks_def bread_st_def bread_buf_def\<close>)

lemma bread_st_view:
  assumes inv: "bc_inv s" and p: "bread_picks s b i"
  shows "bview (bread_st s b i) c = bview s c"
proof (cases "c = b")
  case True
  have "caches (bread_st s b i) i b" "b_valid (bufs (bread_st s b i) ! i)"
    using p inv by (auto simp: bread_st_caches bread_st_nth bread_picks_def bread_buf_def)
  then have "bview (bread_st s b i) b = b_data (bufs (bread_st s b i) ! i)"
    by (rule bview_cached [OF bread_st_inv [OF inv p]])
  then show ?thesis using p inv True by (simp add: bread_st_nth bread_picks_def bread_buf_def)
next
  case False
  have i: "i < NBUF" "\<not> caches (bread_st s b i) i c" using p inv False
    by (simp_all add: bread_st_caches bread_picks_def)
  show ?thesis
  proof (cases "caches s i c")
    case True
    then have "i \<in> spare s" using p False by (auto simp: bread_picks_def caches_def)
    then have "bview s c = disk s c" using True inv by (intro bview_clean) (auto simp: spare_def)
    moreover have "bview (bread_st s b i) c = disk (bread_st s b i) c"
      using True False inv i caches_unique by (intro bview_disk) (metis bread_st_caches)
    ultimately show ?thesis by (simp add: bread_st_def)
  next
    case False
    have c: "caches (bread_st s b i) j c = caches s j c" for j
      using False i \<open>c \<noteq> b\<close> by (simp add: bread_st_caches [OF inv])
    have e: "bufs (bread_st s b i) ! j = bufs s ! j" if "caches s j c" for j
      using that False bread_st_nth [OF inv, of j] by (auto simp: caches_def)
    show ?thesis
      using c e by (intro bview_other [OF inv bread_st_inv [OF inv p]]) (simp_all add: bread_st_def)
  qed
qed

lemma bread_st_sets:
  assumes inv: "bc_inv s" and p: "bread_picks s b i"
  shows "pinned (bread_st s b i) = pinned s"
    and "busy_block (bread_st s b i) c \<longleftrightarrow> c = b \<or> busy_block s c"
    and "hold (bread_st s b i) i b"
    and "hold s j c \<Longrightarrow> hold (bread_st s b i) j c \<and> j \<noteq> i"
proof -
  have i: "i < NBUF" "\<not> b_busy (bufs s ! i)" "caches s i b \<or> \<not> b_dirty (bufs s ! i)"
    using p by (auto simp: bread_picks_def spare_def)
  have d: "caches s i c \<and> b_dirty (bufs s ! i) \<Longrightarrow> c = b" for c using i by (auto simp: caches_def)
  have "caches (bread_st s b i) j c \<and> P (bufs (bread_st s b i) ! j) \<longleftrightarrow>
      j = i \<and> c = b \<and> P (bread_buf s b i) \<or> j \<noteq> i \<and> caches s j c \<and> P (bufs s ! j)" for P c j
  proof (cases "j < NBUF")
    case True
    then show ?thesis using i(1) by (simp add: bread_st_caches [OF inv] bread_st_nth [OF inv])
  next
    case False
    then show ?thesis using i(1) by (auto simp: caches_def)
  qed
  then have e: "(\<exists>j. caches (bread_st s b i) j c \<and> P (bufs (bread_st s b i) ! j)) \<longleftrightarrow>
      c = b \<and> P (bread_buf s b i) \<or> (\<exists>j. j \<noteq> i \<and> caches s j c \<and> P (bufs s ! j))" for P c
    by blast
  show "pinned (bread_st s b i) = pinned s"
    unfolding pinned_def e
  proof (rule Collect_cong)
    fix c
    have "b_dirty (bread_buf s b i) \<longleftrightarrow> caches s i b \<and> b_dirty (bufs s ! i)" by (simp add: bread_buf_def)
    then show "(c = b \<and> b_dirty (bread_buf s b i) \<or> (\<exists>j. j \<noteq> i \<and> caches s j c \<and> b_dirty (bufs s ! j))) =
        (\<exists>j. caches s j c \<and> b_dirty (bufs s ! j))" using d by metis
  qed
  show "busy_block (bread_st s b i) c \<longleftrightarrow> c = b \<or> busy_block s c"
    unfolding busy_block_def e using i(2) by (auto simp: bread_buf_def)
  show "hold (bread_st s b i) i b"
    using i(1) bread_st_nth [OF inv i(1)] by (simp add: hold_def bread_st_caches [OF inv] bread_buf_def)
  show "hold (bread_st s b i) j c \<and> j \<noteq> i" if "hold s j c"
    using that i(2) bread_st_nth [OF inv, of j] by (auto simp: hold_def bread_st_caches [OF inv] caches_def)
qed

lemma bread_st_spare:
  assumes inv: "bc_inv s" and p: "bread_picks s b i"
  shows "card (spare (bread_st s b i)) + (if b \<in> pinned s then 0 else 1) = card (spare s)"
proof -
  have i: "i < NBUF" "\<not> b_busy (bufs s ! i)" using p by (auto simp: bread_picks_def)
  have "spare (bread_st s b i) = spare s - {i}"
    using i by (auto simp: spare_def bread_st_nth [OF inv] bread_buf_def split: if_splits)
  moreover have "b \<in> pinned s \<longleftrightarrow> i \<notin> spare s"
    using p i bread_picks_unique [OF inv p] by (auto simp: pinned_def spare_def bread_picks_def)
  moreover have "i \<in> spare s \<Longrightarrow> card (spare s - {i}) + 1 = card (spare s)"
    using card_Suc_Diff1 [OF finite_spare, of i s] by simp
  ultimately show ?thesis by auto
qed

lemma bread_twp:
  assumes ok: "bio_ok s" and "\<not> busy_block s b" "spare s \<noteq> {}" "b < disksize s"
  shows "twp (bread ROOTDEV b) (bread_post s b) s"
proof -
  have inv: "bc_inv s" "quiet s" "ptable_ok s" using ok by (simp_all add: bio_ok_def)
  obtain i where p: "bread_picks s b i" and e: "bread ROOTDEV b s = Done i (bread_st s b i)"
    using bread_eq [OF inv(2,1) assms(2,3,4)] unfolding bread_st_def by blast
  have "bio_ok (bread_st s b i)"
    using bread_st_inv [OF inv(1) p] inv by (simp add: bio_ok_def bread_st_def ptable_ok_def)
  moreover have "same_rest s (bread_st s b i)" "klog (bread_st s b i) = klog s"
    "disk (bread_st s b i) = disk s" "dtrace (bread_st s b i) = dtrace s"
    by (simp_all add: bread_st_def same_rest_def)
  moreover have "bview (bread_st s b i) = bview s" using bread_st_view [OF inv(1) p] by blast
  ultimately have "bread_post s b i (bread_st s b i)"
    unfolding bread_post_def using bread_st_sets [OF inv(1) p] bread_st_spare [OF inv(1) p] by blast
  then show ?thesis using e by (simp add: twp_def)
qed

text \<open>Updates of the data and the dirty bit of a held buffer.\<close>

lemma held_upd:
  assumes inv: "bc_inv s" and h: "hold s i b"
    and kb: "kbcache s' = upd_buf i (\<lambda>_. (bufs s ! i)\<lparr>b_data := d, b_dirty := dd\<rparr>) (kbcache s)"
    and dk: "\<And>c. c \<noteq> b \<Longrightarrow> disk s' c = disk s c"
  shows "bc_inv s'" "bview s' = (bview s)(b := d)"
    "pinned s' = (if dd then insert b (pinned s) else pinned s - {b})"
    "busy_block s' c = busy_block s c" "hold s' j c = hold s j c" "spare s' = spare s"
proof -
  let ?x = "(bufs s ! i)\<lparr>b_data := d, b_dirty := dd\<rparr>"
  have i: "i < NBUF" "b_dev (bufs s ! i) = ROOTDEV" "b_blockno (bufs s ! i) = b"
    "b_busy (bufs s ! i)" "b_valid (bufs s ! i)" "caches s i b"
    using h by (auto simp: hold_def caches_def)
  have len: "length (bufs s) = NBUF" using inv by (simp add: bc_inv_def)
  have nth: "bufs s' ! j = (if j = i then ?x else bufs s ! j)" if "j < NBUF" for j
    using kb len that by simp
  have c: "caches s' j c = caches s j c" for j c
    using i nth [of j] by (cases "j = i") (auto simp: caches_def)
  show inv': "bc_inv s'"
  proof (rule bc_inv_upd [OF inv i(1) kb])
    fix j assume j: "j < NBUF" "j \<noteq> i" "b_dev (bufs s ! j) = b_dev ?x" "b_blockno (bufs s ! j) = b_blockno ?x"
    then have "caches s j b" using i by (simp add: caches_def)
    then show "b_dev ?x = NODEV" using caches_unique [OF inv] i(6) j(2) by blast
  next
    fix c show "b_dev ?x = ROOTDEV \<and> b_blockno ?x = c \<or> disk s' c = disk s c" using dk i by auto
  qed (use i in auto)
  show "bview s' = (bview s)(b := d)"
  proof
    fix c
    show "bview s' c = ((bview s)(b := d)) c"
    proof (cases "c = b")
      case True
      have "bview s' b = b_data (bufs s' ! i)"
        using i nth [of i] c by (intro bview_cached [OF inv']) auto
      then show ?thesis using True i nth [of i] by simp
    next
      case False
      have "bview s' c = bview s c"
      proof (rule bview_other [OF inv inv' dk [OF False] c])
        fix j assume "caches s j c"
        then have "j \<noteq> i" "j < NBUF" using i False by (auto simp: caches_def)
        then show "b_valid (bufs s' ! j) = b_valid (bufs s ! j) \<and> b_data (bufs s' ! j) = b_data (bufs s ! j)"
          using nth [of j] by simp
      qed
      then show ?thesis using False by simp
    qed
  qed
  have e: "caches s j c \<Longrightarrow> b_dirty (bufs s' ! j) = (if j = i then dd else b_dirty (bufs s ! j))" for j c
    using nth [of j] by (simp add: caches_def)
  have ib: "caches s i c \<longleftrightarrow> c = b" for c using i by (auto simp: caches_def)
  show "pinned s' = (if dd then insert b (pinned s) else pinned s - {b})"
    unfolding pinned_def c using e ib caches_unique [OF inv] by (auto; metis)
  have f: "j < NBUF \<Longrightarrow> b_busy (bufs s' ! j) = b_busy (bufs s ! j) \<and> b_valid (bufs s' ! j) = b_valid (bufs s ! j)" for j
    using nth [of j] i by simp
  show "busy_block s' c = busy_block s c" unfolding busy_block_def c using f by (auto simp: caches_def)
  show "hold s' j c = hold s j c" unfolding hold_def c using f [of j] by (auto simp: caches_def)
  show "spare s' = spare s" using i(4) by (auto simp: spare_def nth split: if_splits)
qed

text \<open>Changes of the links only.\<close>

lemma relink:
  assumes inv: "bc_inv s" and pl: "map payload (bufs s') = map payload (bufs s)"
    and dl: "dlist (kbcache s') xs" and dk: "disk s' = disk s"
  shows "bc_inv s'" "bview s' = bview s" "pinned s' = pinned s" "busy_block s' c = busy_block s c"
    "hold s' j c = hold s j c" "spare s' = spare s" "caches s' j c = caches s j c"
proof -
  have len: "length (bufs s) = NBUF" "length (bufs s') = NBUF"
    using inv pl by (auto simp: bc_inv_def dest: map_eq_imp_length_eq)
  have f: "b_busy (bufs s' ! k) = b_busy (bufs s ! k)" "b_valid (bufs s' ! k) = b_valid (bufs s ! k)"
    "b_dirty (bufs s' ! k) = b_dirty (bufs s ! k)" "b_dev (bufs s' ! k) = b_dev (bufs s ! k)"
    "b_blockno (bufs s' ! k) = b_blockno (bufs s ! k)" "b_data (bufs s' ! k) = b_data (bufs s ! k)"
    if "k < NBUF" for k
    using nth_payload [OF pl, of k] that len by (simp_all add: payload_fields)
  show inv': "bc_inv s'" using inv dl len dk unfolding bc_inv_def by (auto simp: f)
  have c: "caches s' k c = caches s k c" for k c using f [of k] by (auto simp: caches_def)
  show "bview s' = bview s"
  proof
    fix c show "bview s' c = bview s c"
      by (rule bview_other [OF inv inv' _ c]) (use f dk in \<open>auto simp: caches_def\<close>)
  qed
  show "pinned s' = pinned s" unfolding pinned_def c using f by (auto simp: caches_def)
  show "busy_block s' c = busy_block s c" unfolding busy_block_def c using f by (auto simp: caches_def)
  show "hold s' j c = hold s j c" unfolding hold_def c using f [of j] by (auto simp: caches_def)
  show "spare s' = spare s" using f by (auto simp: spare_def)
  show "caches s' j c = caches s j c" by (rule c)
qed

lemma setb_eq: "setb i f s = Done () (s\<lparr>kbcache := upd_buf i f (kbcache s)\<rparr>)"
  by (simp add: setb_def modify_def)

lemma getb_eq: "getb i s = Done (bufs s ! i) s"
  by (simp add: getb_def gets_def)

lemma wp_buf [wp]:
  "twp (getb i) Q s = Q (bufs s ! i) s" "wp (getb i) Q s = Q (bufs s ! i) s"
  "twp (setb i f) R s = R () (s\<lparr>kbcache := upd_buf i f (kbcache s)\<rparr>)"
  "wp (setb i f) R s = R () (s\<lparr>kbcache := upd_buf i f (kbcache s)\<rparr>)"
  by (simp_all add: twp_def wp_def getb_eq setb_eq)

lemma hold_data: "bio_ok s \<Longrightarrow> hold s i b \<Longrightarrow> b_data (bufs s ! i) = bview s b"
  by (metis bio_ok_def hold_def bview_cached)

lemma hold_dirty: "bio_ok s \<Longrightarrow> hold s i b \<Longrightarrow> b_dirty (bufs s ! i) \<longleftrightarrow> b \<in> pinned s"
  using caches_unique by (auto simp: bio_ok_def hold_def pinned_def)

lemma hold_fields: "hold s i b \<Longrightarrow> i < NBUF \<and> b_busy (bufs s ! i) \<and> b_valid (bufs s ! i) \<and>
    b_dev (bufs s ! i) = ROOTDEV \<and> b_blockno (bufs s ! i) = b"
  by (simp add: hold_def caches_def)

text \<open>Effects of the client-visible operations, as relations between states.\<close>

definition wrote :: "kstate \<Rightarrow> nat \<Rightarrow> bytes \<Rightarrow> kstate \<Rightarrow> bool" where
  "wrote s b d t \<longleftrightarrow> bio_ok t \<and> same_rest s t \<and> klog t = klog s \<and> disk t = disk s \<and> dtrace t = dtrace s \<and>
     bview t = (bview s)(b := d) \<and> pinned t = pinned s \<and> busy_block t = busy_block s \<and>
     hold t = hold s \<and> spare t = spare s"

definition synced :: "kstate \<Rightarrow> nat \<Rightarrow> kstate \<Rightarrow> bool" where
  "synced s b t \<longleftrightarrow> bio_ok t \<and> same_rest s t \<and> klog t = klog s \<and> disk t = (disk s)(b := bview s b) \<and>
     dtrace t = dtrace s @ [(b, bview s b)] \<and> bview t = bview s \<and> pinned t = pinned s - {b} \<and>
     busy_block t = busy_block s \<and> hold t = hold s \<and> spare t = spare s"

definition let_go :: "kstate \<Rightarrow> nat \<Rightarrow> nat \<Rightarrow> kstate \<Rightarrow> bool" where
  "let_go s i b t \<longleftrightarrow> bio_ok t \<and> same_rest s t \<and> klog t = klog s \<and> disk t = disk s \<and> dtrace t = dtrace s \<and>
     bview t = bview s \<and> pinned t = pinned s \<and> (\<forall>c. busy_block t c \<longleftrightarrow> c \<noteq> b \<and> busy_block s c) \<and>
     (\<forall>j c. hold s j c \<longrightarrow> j \<noteq> i \<longrightarrow> hold t j c) \<and>
     card (spare t) = card (spare s) + (if b \<in> pinned s then 0 else 1)"

lemma set_data_wrote:
  assumes ok: "bio_ok s" and h: "hold s i b"
  shows "wrote s b (f (bview s b)) (s\<lparr>kbcache := upd_buf i (\<lambda>x. x\<lparr>b_data := f (b_data x)\<rparr>) (kbcache s)\<rparr>)"
proof -
  let ?t = "s\<lparr>kbcache := upd_buf i (\<lambda>x. x\<lparr>b_data := f (b_data x)\<rparr>) (kbcache s)\<rparr>"
  have inv: "bc_inv s" using ok by (simp add: bio_ok_def)
  have "upd_buf i (\<lambda>x. x\<lparr>b_data := f (b_data x)\<rparr>) (kbcache s) =
      upd_buf i (\<lambda>_. (bufs s ! i)\<lparr>b_data := f (bview s b), b_dirty := b_dirty (bufs s ! i)\<rparr>) (kbcache s)"
    using hold_fields [OF h] bio_ok_len [OF ok] hold_data [OF ok h] by (intro upd_buf_eqI) simp_all
  then have kb: "kbcache ?t = upd_buf i (\<lambda>_. (bufs s ! i)\<lparr>b_data := f (bview s b),
      b_dirty := b_dirty (bufs s ! i)\<rparr>) (kbcache s)" by simp
  have dk: "disk ?t c = disk s c" for c by simp
  note u = held_upd [OF inv h kb dk]
  have "pinned ?t = pinned s" using u(3) hold_dirty [OF ok h] by auto
  then show ?thesis
    unfolding wrote_def fun_eq_iff [of "busy_block _"] fun_eq_iff [of "hold _"]
    using u ok by (auto simp: bio_ok_def same_rest_def ptable_ok_def fun_eq_iff)
qed

lemma bwrite_twp:
  assumes ok: "bio_ok s" and h: "hold s i b" and sz: "b < disksize s"
  shows "twp (bwrite i) (\<lambda>_. synced s b) s"
proof -
  have inv: "bc_inv s" using ok by (simp add: bio_ok_def)
  have len: "i < length (bufs s)" using hold_fields [OF h] bio_ok_len [OF ok] by simp
  let ?s1 = "s\<lparr>kbcache := upd_buf i (\<lambda>x. x\<lparr>b_dirty := True\<rparr>) (kbcache s)\<rparr>"
  let ?t = "?s1\<lparr>kbcache := upd_buf i (\<lambda>x. x\<lparr>b_dirty := False, b_valid := True\<rparr>) (kbcache ?s1),
     disk := (disk ?s1)(b_blockno (bufs ?s1 ! i) := b_data (bufs ?s1 ! i)),
     dtrace := dtrace ?s1 @ [(b_blockno (bufs ?s1 ! i), b_data (bufs ?s1 ! i))]\<rparr>"
  have rw: "iderw i ?s1 = Done () ?t"
    using hold_fields [OF h] len sz by (intro iderw_write) simp_all
  have e: "bwrite i s = Done () ?t"
    using hold_fields [OF h] rw by (simp add: bwrite_def bnd_def sq_def getb_eq setb_eq)
  have f: "b_blockno (bufs ?s1 ! i) = b" "b_data (bufs ?s1 ! i) = bview s b"
    using hold_fields [OF h] hold_data [OF ok h] len by simp_all
  have "upd_buf i (\<lambda>x. (x\<lparr>b_dirty := True\<rparr>)\<lparr>b_dirty := False, b_valid := True\<rparr>) (kbcache s) =
      upd_buf i (\<lambda>_. (bufs s ! i)\<lparr>b_data := bview s b, b_dirty := False\<rparr>) (kbcache s)"
    using len hold_data [OF ok h] hold_fields [OF h] by (intro upd_buf_eqI) simp_all
  then have kb: "kbcache ?t = upd_buf i (\<lambda>_. (bufs s ! i)\<lparr>b_data := bview s b, b_dirty := False\<rparr>) (kbcache s)"
    by (simp add: upd_buf_upd_buf)
  have dk: "disk ?t c = disk s c" if "c \<noteq> b" for c using that f by simp
  note u = held_upd [OF inv h kb dk]
  have "same_rest s ?t" "klog ?t = klog s" "ptable_ok ?t = ptable_ok s" "quiet ?t = quiet s"
    by (simp_all add: same_rest_def ptable_ok_def quiet_def)
  moreover have "disk ?t = (disk s)(b := bview s b)" "dtrace ?t = dtrace s @ [(b, bview s b)]"
    using f by simp_all
  moreover have "busy_block ?t = busy_block s" "hold ?t = hold s" using u(4,5) by blast+
  ultimately have "synced s b ?t"
    unfolding synced_def using u(1,2,3,6) ok by (simp add: bio_ok_def)
  then show ?thesis using e by (simp add: twp_def)
qed

text \<open>Giving up a held buffer whose contents are on disk or pinned.\<close>

lemma unbusy:
  assumes inv: "bc_inv s" and h: "hold s i b" and cl: "b \<in> pinned s \<or> bview s b = disk s b"
    and kb: "kbcache s' = upd_buf i (\<lambda>x. x\<lparr>b_busy := False\<rparr>) (kbcache s)" and dk: "disk s' = disk s"
  shows "bc_inv s'" "bview s' = bview s" "pinned s' = pinned s"
    "busy_block s' c \<longleftrightarrow> c \<noteq> b \<and> busy_block s c" "hold s j c \<Longrightarrow> j \<noteq> i \<Longrightarrow> hold s' j c"
    "card (spare s') = card (spare s) + (if b \<in> pinned s then 0 else 1)"
proof -
  let ?x = "(bufs s ! i)\<lparr>b_busy := False\<rparr>"
  have i: "i < NBUF" "b_dev (bufs s ! i) = ROOTDEV" "b_blockno (bufs s ! i) = b"
    "b_busy (bufs s ! i)" "b_valid (bufs s ! i)" "caches s i b"
    using h by (auto simp: hold_def caches_def)
  have len: "length (bufs s) = NBUF" using inv by (simp add: bc_inv_def)
  have nth: "bufs s' ! j = (if j = i then ?x else bufs s ! j)" if "j < NBUF" for j
    using kb len that by simp
  have f: "b_valid (bufs s' ! j) = b_valid (bufs s ! j)" "b_data (bufs s' ! j) = b_data (bufs s ! j)"
    "b_dirty (bufs s' ! j) = b_dirty (bufs s ! j)" "b_dev (bufs s' ! j) = b_dev (bufs s ! j)"
    "b_blockno (bufs s' ! j) = b_blockno (bufs s ! j)"
    "b_busy (bufs s' ! j) \<longleftrightarrow> j \<noteq> i \<and> b_busy (bufs s ! j)" if "j < NBUF" for j
    using nth [OF that] by simp_all
  have c: "caches s' j c = caches s j c" for j c using f [of j] by (auto simp: caches_def)
  have dirty: "b_dirty (bufs s ! i) \<longleftrightarrow> b \<in> pinned s"
    using caches_unique [OF inv] i(6) by (auto simp: pinned_def)
  have kb': "kbcache s' = upd_buf i (\<lambda>_. ?x) (kbcache s)"
    unfolding kb using i len by (intro upd_buf_eqI) simp_all
  show inv': "bc_inv s'"
  proof (rule bc_inv_upd [OF inv i(1) kb'])
    fix j assume j: "j < NBUF" "j \<noteq> i" "b_dev (bufs s ! j) = b_dev ?x" "b_blockno (bufs s ! j) = b_blockno ?x"
    then have "caches s j b" using i by (simp add: caches_def)
    then show "b_dev ?x = NODEV" using caches_unique [OF inv] i(6) j(2) by blast
  next
    assume "\<not> b_dirty ?x"
    then have "bview s b = disk s b" using cl dirty by simp
    then show "b_data ?x = disk s' (b_blockno ?x)" using bview_cached [OF inv i(6,5)] i dk by simp
  qed (use i dk in simp_all)
  show "bview s' = bview s"
  proof
    fix c show "bview s' c = bview s c"
      by (rule bview_other [OF inv inv' _ c]) (use f dk in \<open>auto simp: caches_def\<close>)
  qed
  show "pinned s' = pinned s" unfolding pinned_def c using f by (auto simp: caches_def)
  have "b_busy (bufs s' ! j) \<longleftrightarrow> j \<noteq> i \<and> b_busy (bufs s ! j)" if "caches s j c" for j
    using that f(6) [of j] by (simp add: caches_def)
  moreover have "j = i \<longleftrightarrow> c = b" if "caches s j c" for j
    using that i(3,6) caches_unique [OF inv i(6), of j] by (metis caches_def)
  ultimately show "busy_block s' c \<longleftrightarrow> c \<noteq> b \<and> busy_block s c"
    unfolding busy_block_def c by blast
  show "hold s' j c" if "hold s j c" "j \<noteq> i"
    using that f [of j] unfolding hold_def c by (auto simp: caches_def)
  have "spare s' = (if b \<in> pinned s then spare s else insert i (spare s))" "i \<notin> spare s"
    using f i dirty by (auto simp: spare_def)
  then show "card (spare s') = card (spare s) + (if b \<in> pinned s then 0 else 1)" by simp
qed

lemma brelse_twp:
  assumes ok: "bio_ok s" and h: "hold s i b" and cl: "b \<in> pinned s \<or> bview s b = disk s b"
  shows "twp (brelse i) (\<lambda>_. let_go s i b) s"
proof -
  have inv: "bc_inv s" "quiet s" "ptable_ok s" using ok by (simp_all add: bio_ok_def)
  have i: "i < NBUF" "b_busy (bufs s ! i)" using hold_fields [OF h] by simp_all
  let ?c = "brelse_links i (kbcache s)"
  let ?s1 = "s\<lparr>kbcache := ?c\<rparr>"
  let ?ps = "map (wake (ChanBuf i)) (ptable s)"
  let ?t = "(cs s)\<lparr>kbcache := upd_buf i (\<lambda>x. x\<lparr>b_busy := False\<rparr>) ?c, ptable := ?ps\<rparr>"
  let ?u = "(acquired BcacheLock s)\<lparr>kbcache := upd_buf i (\<lambda>x. x\<lparr>b_busy := False\<rparr>) ?c\<rparr>"
  obtain xs where xs: "dlist (kbcache s) xs" "\<forall>i. i \<in> set xs \<longleftrightarrow> i < NBUF" using bc_inv_dlist [OF inv(1)] by blast
  have dl: "dlist (kbcache ?s1) (i # remove1 i xs)" using dlist_brelse_links xs i by simp
  have pl: "map payload (bufs ?s1) = map payload (bufs s)" by simp
  note r = relink [OF inv(1) pl dl]
  have w: "wakeup (ChanBuf i) ?u = Done () (?u\<lparr>ptable := ?ps\<rparr>)"
    using inv by (subst wakeup_inside) (simp_all add: quiet_def free_lock_def ptable_ok_def)
  have rel: "release BcacheLock (?u\<lparr>ptable := ?ps\<rparr>) = Done () ?t"
    using inv(2) by (simp add: release_eq quiet_def released_def acquired_def cs_def free_lock_def fun_upd_idem_iff)
  have e: "brelse i s = Done () ?t"
    using i inv(2) w rel
    by (simp add: brelse_def bnd_def sq_def getb_eq setb_eq modc_def modify_def acquire_eq)
  have h1: "hold ?s1 i b" using r(5) h by simp
  have cl1: "b \<in> pinned ?s1 \<or> bview ?s1 b = disk ?s1 b" using r cl by simp
  have kb: "kbcache ?t = upd_buf i (\<lambda>x. x\<lparr>b_busy := False\<rparr>) (kbcache ?s1)" by simp
  have dk: "disk ?t = disk ?s1" by simp
  have inv1: "bc_inv ?s1" using r(1) by simp
  note u = unbusy [OF inv1 h1 cl1 kb dk]
  have "same_rest s ?t" "klog ?t = klog s" "ptable_ok ?t" "quiet ?t" "disk ?t = disk s" "dtrace ?t = dtrace s"
    using inv by (simp_all add: same_rest_def ptable_ok_def)
  then have "let_go s i b ?t"
    unfolding let_go_def using u r by (simp add: bio_ok_def)
  then show ?thesis using e by (simp add: twp_def)
qed

section \<open>The interface of the buffer cache\<close>

text \<open>
  What the log and the file system rely on, and the two block copies of the log proved
  from it.  \<open>view\<close> is the current contents of the blocks, \<open>dsk\<close> the disk, \<open>tr\<close> the
  history of disk writes, \<open>pin\<close> the blocks that may not be evicted, \<open>room\<close> the number of
  buffers that may be recycled.
\<close>

locale block_cache =
  fixes ok :: "'s \<Rightarrow> bool" and frame :: "'s \<Rightarrow> 's \<Rightarrow> bool"
    and view :: "'s \<Rightarrow> nat \<Rightarrow> bytes" and dsk :: "'s \<Rightarrow> nat \<Rightarrow> bytes" and tr :: "'s \<Rightarrow> (nat \<times> bytes) list"
    and pin :: "'s \<Rightarrow> nat set" and taken :: "'s \<Rightarrow> nat \<Rightarrow> bool" and holds :: "'s \<Rightarrow> nat \<Rightarrow> nat \<Rightarrow> bool"
    and room :: "'s \<Rightarrow> nat" and nblocks :: "'s \<Rightarrow> nat"
    and rd :: "nat \<Rightarrow> ('s, nat) kop" and wr :: "nat \<Rightarrow> ('s, unit) kop" and rl :: "nat \<Rightarrow> ('s, unit) kop"
    and getd :: "nat \<Rightarrow> ('s, bytes) kop" and setd :: "nat \<Rightarrow> bytes \<Rightarrow> ('s, unit) kop"
  assumes frame_trans: "frame s t \<Longrightarrow> frame t u \<Longrightarrow> frame s u"
    and frame_nblocks: "frame s t \<Longrightarrow> nblocks t = nblocks s"
    and clean: "ok s \<Longrightarrow> \<not> taken s b \<Longrightarrow> b \<notin> pin s \<Longrightarrow> view s b = dsk s b"
    and rd_law: "ok s \<Longrightarrow> \<not> taken s b \<Longrightarrow> 0 < room s \<Longrightarrow> b < nblocks s \<Longrightarrow>
       twp (rd b) (\<lambda>i t. ok t \<and> frame s t \<and> holds t i b \<and> view t = view s \<and> dsk t = dsk s \<and> tr t = tr s \<and>
         pin t = pin s \<and> (\<forall>c. taken t c \<longleftrightarrow> c = b \<or> taken s c) \<and>
         (\<forall>j c. holds s j c \<longrightarrow> holds t j c \<and> j \<noteq> i) \<and>
         room t + (if b \<in> pin s then 0 else 1) = room s) s"
    and getd_law: "ok s \<Longrightarrow> holds s i b \<Longrightarrow> twp (getd i) (\<lambda>d t. t = s \<and> d = view s b) s"
    and setd_law: "ok s \<Longrightarrow> holds s i b \<Longrightarrow>
       twp (setd i d) (\<lambda>_ t. ok t \<and> frame s t \<and> view t = (view s)(b := d) \<and> dsk t = dsk s \<and> tr t = tr s \<and>
         pin t = pin s \<and> taken t = taken s \<and> holds t = holds s \<and> room t = room s) s"
    and wr_law: "ok s \<Longrightarrow> holds s i b \<Longrightarrow> b < nblocks s \<Longrightarrow>
       twp (wr i) (\<lambda>_ t. ok t \<and> frame s t \<and> view t = view s \<and> dsk t = (dsk s)(b := view s b) \<and>
         tr t = tr s @ [(b, view s b)] \<and> pin t = pin s - {b} \<and> taken t = taken s \<and> holds t = holds s \<and>
         room t = room s) s"
    and rl_law: "ok s \<Longrightarrow> holds s i b \<Longrightarrow> b \<in> pin s \<or> view s b = dsk s b \<Longrightarrow>
       twp (rl i) (\<lambda>_ t. ok t \<and> frame s t \<and> view t = view s \<and> dsk t = dsk s \<and> tr t = tr s \<and>
         pin t = pin s \<and> (\<forall>c. taken t c \<longleftrightarrow> c \<noteq> b \<and> taken s c) \<and>
         (\<forall>j c. holds s j c \<longrightarrow> j \<noteq> i \<longrightarrow> holds t j c) \<and>
         room t = room s + (if b \<in> pin s then 0 else 1)) s"
begin

text \<open>Reading a block and letting it go changes nothing.\<close>

lemma read_release:
  assumes "ok s" "\<not> taken s b" "0 < room s" "b < nblocks s"
  shows "twp (bnd (rd b) (\<lambda>i. bnd (getd i) (\<lambda>d. sq (rl i) (ret d))))
    (\<lambda>d t. d = view s b \<and> ok t \<and> frame s t \<and> view t = view s \<and> dsk t = dsk s \<and> tr t = tr s \<and>
       pin t = pin s \<and> (\<forall>c. taken t c \<longleftrightarrow> taken s c) \<and> room t = room s) s"
  unfolding twp_bnd
proof (rule twp_mono [OF rd_law [OF assms]], elim conjE)
  fix i t assume t: "ok t" "frame s t" "holds t i b" "view t = view s" "dsk t = dsk s" "tr t = tr s"
    "pin t = pin s" "\<forall>c. taken t c \<longleftrightarrow> c = b \<or> taken s c" "room t + (if b \<in> pin s then 0 else 1) = room s"
  have cl: "b \<in> pin t \<or> view t b = dsk t b" using clean [OF assms(1,2)] t by auto
  show "twp (getd i) (\<lambda>d. twp (sq (rl i) (ret d))
    (\<lambda>d t. d = view s b \<and> ok t \<and> frame s t \<and> view t = view s \<and> dsk t = dsk s \<and> tr t = tr s \<and>
       pin t = pin s \<and> (\<forall>c. taken t c \<longleftrightarrow> taken s c) \<and> room t = room s)) t"
    using t assms(2)
    by (intro twp_mono [OF getd_law [OF t(1,3)]])
       (auto simp: wp intro!: twp_mono [OF rl_law [OF t(1,3) cl]] dest: frame_trans [OF t(2)])
qed

text \<open>Copying one block over another through two buffers, as \<open>install_trans\<close> and \<open>write_log\<close> do.\<close>

definition copied_to :: "nat \<Rightarrow> bytes \<Rightarrow> 's \<Rightarrow> 's \<Rightarrow> bool" where
  "copied_to b d s t \<longleftrightarrow> ok t \<and> frame s t \<and> view t = (view s)(b := d) \<and> dsk t = (dsk s)(b := d) \<and>
     tr t = tr s @ [(b, d)] \<and> pin t = pin s - {b} \<and> (\<forall>c. taken t c \<longleftrightarrow> taken s c) \<and>
     room t = room s + (if b \<in> pin s then 1 else 0)"

lemma copy_steps:
  assumes "ok s" "a \<noteq> b" "\<not> taken s a" "\<not> taken s b" "2 \<le> room s" "a < nblocks s" "b < nblocks s"
  obtains x t y u where "rd a s = Done x t" "rd b t = Done y u" "ok u" "frame s u" "holds u x a" "holds u y b"
    "x \<noteq> y" "view u = view s" "dsk u = dsk s" "tr u = tr s" "pin u = pin s"
    "\<forall>c. taken u c \<longleftrightarrow> c = a \<or> c = b \<or> taken s c"
    "room u + (if a \<in> pin s then 0 else 1) + (if b \<in> pin s then 0 else 1) = room s"
proof -
  obtain x t where x: "rd a s = Done x t" "ok t" "frame s t" "holds t x a" "view t = view s" "dsk t = dsk s"
    "tr t = tr s" "pin t = pin s" "\<forall>c. taken t c \<longleftrightarrow> c = a \<or> taken s c"
    "room t + (if a \<in> pin s then 0 else 1) = room s"
    using rd_law [of s a] assms by (auto simp: twp_iff)
  have "0 < room t" "b < nblocks t" "\<not> taken t b"
    using x assms frame_nblocks [OF x(3)] by (auto split: if_splits)
  then obtain y u where y: "rd b t = Done y u" "ok u" "frame t u" "holds u y b" "view u = view t" "dsk u = dsk t"
    "tr u = tr t" "pin u = pin t" "\<forall>c. taken u c \<longleftrightarrow> c = b \<or> taken t c"
    "\<forall>j c. holds t j c \<longrightarrow> holds u j c \<and> j \<noteq> y"
    "room u + (if b \<in> pin t then 0 else 1) = room t"
    using rd_law [of t b] x(2) by (auto simp: twp_iff)
  show thesis
    by (rule that [of x t y u]) (use x y frame_trans in \<open>auto split: if_splits\<close>)
qed

text \<open>Source buffer \<open>p\<close> for block \<open>a\<close>, destination buffer \<open>q\<close> for block \<open>b\<close>, both held.\<close>

lemma copy_core:
  assumes "ok u" "holds u p a" "holds u q b" "p \<noteq> q" "a \<noteq> b" "a \<in> pin u \<or> view u a = dsk u a" "b < nblocks u"
  shows "twp (bnd (getd p) (\<lambda>d. sq (setd q d) (sq (wr q) (sq (rl p) (rl q)))))
    (\<lambda>_ r. ok r \<and> frame u r \<and> view r = (view u)(b := view u a) \<and> dsk r = (dsk u)(b := view u a) \<and>
       tr r = tr u @ [(b, view u a)] \<and> pin r = pin u - {b} \<and> (\<forall>c. taken r c \<longleftrightarrow> c \<noteq> a \<and> c \<noteq> b \<and> taken u c) \<and>
       room r = room u + (if a \<in> pin u then 1 else 2)) u"
proof -
  have g: "getd p u = Done (view u a) u" using getd_law [OF assms(1,2)] by (auto simp: twp_iff)
  obtain v where v: "setd q (view u a) u = Done () v" "ok v" "frame u v" "view v = (view u)(b := view u a)"
    "dsk v = dsk u" "tr v = tr u" "pin v = pin u" "taken v = taken u" "holds v = holds u" "room v = room u"
    using setd_law [OF assms(1,3), of "view u a"] by (auto simp: twp_iff)
  have "b < nblocks v" using assms(7) frame_nblocks [OF v(3)] by simp
  then obtain w where w: "wr q v = Done () w" "ok w" "frame v w" "view w = view v" "dsk w = (dsk v)(b := view v b)"
    "tr w = tr v @ [(b, view v b)]" "pin w = pin v - {b}" "taken w = taken v" "holds w = holds v" "room w = room v"
    using wr_law [of v q b] v assms(3) by (auto simp: twp_iff)
  have "a \<in> pin w \<or> view w a = dsk w a" using assms(5,6) v w by auto
  then obtain z where z: "rl p w = Done () z" "ok z" "frame w z" "view z = view w" "dsk z = dsk w" "tr z = tr w"
    "pin z = pin w" "\<forall>c. taken z c \<longleftrightarrow> c \<noteq> a \<and> taken w c" "\<forall>j c. holds w j c \<longrightarrow> j \<noteq> p \<longrightarrow> holds z j c"
    "room z = room w + (if a \<in> pin w then 0 else 1)"
    using rl_law [of w p a] w(2,9) v(9) assms(2) by (auto simp: twp_iff)
  have "holds z q b" "view z b = dsk z b" using z(4,5,9) w(4,5,9) v(9) assms(3,4) by auto
  then obtain r where r: "rl q z = Done () r" "ok r" "frame z r" "view r = view z" "dsk r = dsk z" "tr r = tr z"
    "pin r = pin z" "\<forall>c. taken r c \<longleftrightarrow> c \<noteq> b \<and> taken z c" "room r = room z + (if b \<in> pin z then 0 else 1)"
    using rl_law [of z q b] z(2) by (auto simp: twp_iff)
  have "frame u r" using v(3) w(3) z(3) r(3) frame_trans by blast
  moreover have "room r = room u + (if a \<in> pin u then 1 else 2)"
    using r(9) z(7,10) w(7,10) v(7,10) assms(5) by auto
  ultimately show ?thesis using g v w z r assms(5) by (auto simp: twp_def bnd_def sq_def)
qed

lemma copy_second:
  assumes "ok s" "a \<noteq> b" "\<not> taken s a" "\<not> taken s b" "2 \<le> room s" "a < nblocks s" "b < nblocks s"
  shows "twp (bnd (rd a) (\<lambda>x. bnd (rd b) (\<lambda>y. bnd (getd x) (\<lambda>d. sq (setd y d) (sq (wr y) (sq (rl x) (rl y)))))))
    (\<lambda>_. copied_to b (view s a) s) s"
proof -
  obtain x t y u where c: "rd a s = Done x t" "rd b t = Done y u" "ok u" "frame s u" "holds u x a" "holds u y b"
    "x \<noteq> y" "view u = view s" "dsk u = dsk s" "tr u = tr s" "pin u = pin s"
    "\<forall>c. taken u c \<longleftrightarrow> c = a \<or> c = b \<or> taken s c"
    "room u + (if a \<in> pin s then 0 else 1) + (if b \<in> pin s then 0 else 1) = room s"
    using copy_steps [OF assms] .
  have pre: "a \<in> pin u \<or> view u a = dsk u a" "b < nblocks u"
    using clean [OF assms(1,3)] c assms(7) frame_nblocks [OF c(4)] by auto
  have "twp (bnd (getd x) (\<lambda>d. sq (setd y d) (sq (wr y) (sq (rl x) (rl y))))) (\<lambda>_. copied_to b (view s a) s) u"
    using assms(2-4) c(8-13) frame_trans [OF c(4)]
    by (intro twp_mono [OF copy_core [OF c(3,5,6,7) assms(2) pre]])
       (auto simp: copied_to_def split: if_splits)
  then show ?thesis using c(1,2) by (simp add: twp_def bnd_def)
qed

lemma copy_first:
  assumes "ok s" "a \<noteq> b" "\<not> taken s a" "\<not> taken s b" "2 \<le> room s" "a < nblocks s" "b < nblocks s"
  shows "twp (bnd (rd a) (\<lambda>x. bnd (rd b) (\<lambda>y. bnd (getd y) (\<lambda>d. sq (setd x d) (sq (wr x) (sq (rl y) (rl x)))))))
    (\<lambda>_. copied_to a (view s b) s) s"
proof -
  obtain x t y u where c: "rd a s = Done x t" "rd b t = Done y u" "ok u" "frame s u" "holds u x a" "holds u y b"
    "x \<noteq> y" "view u = view s" "dsk u = dsk s" "tr u = tr s" "pin u = pin s"
    "\<forall>c. taken u c \<longleftrightarrow> c = a \<or> c = b \<or> taken s c"
    "room u + (if a \<in> pin s then 0 else 1) + (if b \<in> pin s then 0 else 1) = room s"
    using copy_steps [OF assms] .
  have pre: "b \<in> pin u \<or> view u b = dsk u b" "a < nblocks u"
    using clean [OF assms(1,4)] c assms(6) frame_nblocks [OF c(4)] by auto
  have "twp (bnd (getd y) (\<lambda>d. sq (setd x d) (sq (wr x) (sq (rl y) (rl x))))) (\<lambda>_. copied_to a (view s b) s) u"
    using assms(2-4) c(8-13) frame_trans [OF c(4)]
    by (intro twp_mono [OF copy_core [OF c(3,6,5) c(7) [symmetric] assms(2) [symmetric] pre]])
       (auto simp: copied_to_def split: if_splits)
  then show ?thesis using c(1,2) by (simp add: twp_def bnd_def)
qed

end

lemma bview_unpinned:
  assumes "bio_ok s" "\<not> busy_block s b" "b \<notin> pinned s"
  shows "bview s b = disk s b"
proof (cases "\<exists>i. caches s i b")
  case True
  then obtain i where i: "caches s i b" by blast
  then show ?thesis using assms by (intro bview_clean [OF _ i]) (auto simp: bio_ok_def busy_block_def pinned_def)
next
  case False
  then show ?thesis by (intro bview_disk) blast
qed

interpretation bc: block_cache bio_ok "\<lambda>s t. same_rest s t \<and> klog t = klog s" bview disk dtrace pinned
  busy_block hold "\<lambda>s. card (spare s)" disksize "bread ROOTDEV" bwrite brelse bdata set_bdata
proof (unfold_locales, goal_cases)
  case (1 s t u)
  then show ?case using same_rest_trans by auto
next
  case (2 s t)
  then show ?case by (simp add: same_rest_def)
next
  case (3 s b)
  then show ?case by (rule bview_unpinned)
next
  case (4 s b)
  then have "spare s \<noteq> {}" by (auto simp: card_gt_0_iff)
  then show ?case using 4(1,2,4) by (intro twp_mono [OF bread_twp]) (simp_all add: bread_post_def)
next
  case (5 s i b)
  then show ?case by (simp add: bdata_def wp hold_data)
next
  case (6 s i b d)
  then show ?case using set_data_wrote [of s i b "\<lambda>_. d"] by (simp add: set_bdata_def wp wrote_def)
next
  case (7 s i b)
  then show ?case by (intro twp_mono [OF bwrite_twp [of s i b]]) (unfold synced_def, auto)
next
  case (8 s i b)
  then show ?case by (intro twp_mono [OF brelse_twp [of s i b]]) (simp_all add: let_go_def)
qed

section \<open>Initialisation\<close>

lemma ptr_ok_upd_buf [simp]: "ptr_ok (upd_buf i f c) r = ptr_ok c r"
  by (cases r) simp_all

lemma binit_step_links:
  assumes "i < length (bc_buf c)" "ptr_ok c (nextp c HeadP)" "nextp c HeadP \<noteq> BufP i"
  shows "nextp (binit_step i c) p = nextp (push_front i c) p" "prevp (binit_step i c) p = prevp (push_front i c) p"
  using assms
  by (auto simp: binit_step_def push_front_def Let_def head_next_eq upd_buf_links nextp_set_next prevp_set_prev)

lemma length_binit_step [simp]: "length (bc_buf (binit_step i c)) = length (bc_buf c)"
  by (simp add: binit_step_def Let_def)

text \<open>The first \<open>k\<close> rounds of \<open>binit\<close>'s loop have linked the buffers below \<open>k\<close>, the last one first.\<close>

lemma binit_fold:
  assumes "k \<le> length (bc_buf c)"
  shows "chained (fold binit_step [0 ..< k] (c\<lparr>bc_head_prev := HeadP, bc_head_next := HeadP\<rparr>)) HeadP (rev [0 ..< k]) HeadP \<and>
    length (bc_buf (fold binit_step [0 ..< k] (c\<lparr>bc_head_prev := HeadP, bc_head_next := HeadP\<rparr>))) = length (bc_buf c)"
  using assms
proof (induction k)
  case 0
  then show ?case by (simp add: nextp_def prevp_def)
next
  case (Suc k)
  let ?c = "fold binit_step [0 ..< k] (c\<lparr>bc_head_prev := HeadP, bc_head_next := HeadP\<rparr>)"
  have IH: "chained ?c HeadP (rev [0 ..< k]) HeadP" "length (bc_buf ?c) = length (bc_buf c)" using Suc by auto
  have h: "ptr_ok ?c (nextp ?c HeadP)" "nextp ?c HeadP \<noteq> BufP k"
    using IH Suc.prems by (cases k; simp)+
  have "chained (push_front k ?c) HeadP (k # rev [0 ..< k]) HeadP"
    using IH Suc.prems by (intro chained_push_front) auto
  then have "chained (binit_step k ?c) HeadP (k # rev [0 ..< k]) HeadP"
    using binit_step_links [of k ?c] h IH Suc.prems
    by (subst chained_cong [of _ _ _ "push_front k ?c"]) simp_all
  then show ?case using IH by simp
qed

definition blank :: "buf \<Rightarrow> bool" where
  "blank b \<longleftrightarrow> \<not> b_busy b \<and> \<not> b_valid b \<and> \<not> b_dirty b"

lemma blank_step:
  "list_all blank (bc_buf c) \<Longrightarrow> list_all blank (bc_buf (binit_step i c))"
  by (auto simp: binit_step_def Let_def set_next_def set_prev_def upd_buf_def upd_nth_def blank_def
      list_all_length nth_list_update split: bptr.splits)

lemma nodev_step:
  assumes "\<forall>j < i. b_dev (bc_buf c ! j) = NODEV" "i < length (bc_buf c)"
  shows "\<forall>j < Suc i. b_dev (bc_buf (binit_step i c) ! j) = NODEV"
  using assms
  by (auto simp: binit_step_def Let_def set_next_def set_prev_def upd_buf_def upd_nth_def
      nth_list_update less_Suc_eq split: bptr.splits)

lemma binit_fold_blank:
  assumes "list_all blank (bc_buf c)" "k \<le> length (bc_buf c)"
  shows "list_all blank (bc_buf (fold binit_step [0 ..< k] c)) \<and>
    (\<forall>j < k. b_dev (bc_buf (fold binit_step [0 ..< k] c) ! j) = NODEV) \<and>
    length (bc_buf (fold binit_step [0 ..< k] c)) = length (bc_buf c)"
  using assms(2)
proof (induction k)
  case 0
  then show ?case using assms(1) by simp
next
  case (Suc k)
  then show ?case using blank_step nodev_step [of k "fold binit_step [0 ..< k] c"] by simp
qed

lemma forM_modc: "forM xs (\<lambda>i. modc (f i)) s = Done () (s\<lparr>kbcache := fold f xs (kbcache s)\<rparr>)"
  by (induction xs arbitrary: s) (simp_all add: ret_def sq_def bnd_def modc_def modify_def)

lemma binit_inv:
  assumes "length (bufs s) = NBUF" "list_all blank (bufs s)" "quiet s" "ptable_ok s"
  shows "\<exists>t. binit s = Done () t \<and> bio_ok t \<and> disk t = disk s \<and> disksize t = disksize s \<and>
    (\<forall>b. \<not> busy_block t b) \<and> card (spare t) = NBUF \<and> pinned t = {} \<and> bview t = disk s"
proof -
  let ?c = "(kbcache s)\<lparr>bc_head_prev := HeadP, bc_head_next := HeadP\<rparr>"
  let ?d = "fold binit_step [0 ..< NBUF] ?c"
  let ?t = "s\<lparr>locks := (locks s)(BcacheLock := free_lock), kbcache := ?d\<rparr>"
  have e: "binit s = Done () ?t"
    unfolding binit_def sq_def bnd_def initlock_def modify_def modc_def free_lock_def
    by (simp add: forM_modc [unfolded modc_def modify_def] del: upt_rec_numeral fold_simps)
  have ch: "chained ?d HeadP (rev [0 ..< NBUF]) HeadP" "length (bc_buf ?d) = NBUF"
    using binit_fold [of NBUF "kbcache s"] assms(1) by auto
  have bl: "list_all blank (bc_buf ?d)" "\<forall>j < NBUF. b_dev (bc_buf ?d ! j) = NODEV"
    using binit_fold_blank [of ?c NBUF] assms(1,2) by auto
  have f: "\<not> b_busy (bufs ?t ! i)" "\<not> b_valid (bufs ?t ! i)" "\<not> b_dirty (bufs ?t ! i)"
    "b_dev (bufs ?t ! i) = NODEV" if "i < NBUF" for i
    using bl ch(2) that by (auto simp: list_all_length blank_def)
  have "dlist ?d (rev [0 ..< NBUF])"
    unfolding dlist_def ch(2) using ch(1) by (auto simp del: upt_rec_numeral lessThan_nat_numeral)
  then have inv: "bc_inv ?t" using ch(2) f unfolding bc_inv_def by auto
  have nc: "\<not> caches ?t i b" for i b using f by (auto simp: caches_def)
  have "quiet ?t" using assms(3) by (simp add: quiet_def free_lock_def fun_upd_idem_iff)
  then have "bio_ok ?t" using inv assms(4) by (simp add: bio_ok_def ptable_ok_def)
  moreover have "spare ?t = {..< NBUF}" using f by (auto simp: spare_def simp del: lessThan_nat_numeral)
  then have "card (spare ?t) = NBUF" by (simp del: lessThan_nat_numeral)
  moreover have "bview ?t = disk s"
  proof
    fix b show "bview ?t b = disk s b" using bview_disk [of ?t b] nc by simp
  qed
  ultimately show ?thesis using e nc by (auto simp: busy_block_def pinned_def)
qed

lemma quiet_kzero [simp]: "quiet kzero"
  by (simp add: quiet_def kzero_def free_lock_def zero_cpu_def)

text \<open>A booted machine with a disk of \<open>n\<close> blocks.\<close>

lemma boot_example:
  "\<exists>t. binit (kzero\<lparr>disk := d, disksize := n\<rparr>) = Done () t \<and> bio_ok t \<and> disksize t = n \<and>
    (\<forall>b. \<not> busy_block t b) \<and> card (spare t) = NBUF \<and> pinned t = {} \<and> bview t = d"
proof -
  let ?k = "kzero\<lparr>disk := d, disksize := n\<rparr>"
  have "list_all blank (bufs ?k)" "length (bufs ?k) = NBUF" "quiet ?k" "ptable_ok ?k"
    by (auto simp: kzero_def blank_def zero_defs quiet_def free_lock_def ptable_ok_def list_all_length)
  then show ?thesis using binit_inv [of ?k] by auto
qed

section \<open>Properties\<close>

text \<open>
  C9: \<open>bread\<close> returns the current contents of a block.  When the cache is well formed,
  the block is not held by anyone and some buffer is neither busy nor pinned, \<open>bread\<close>
  returns (it neither sleeps nor panics nor runs out of the list) a buffer that is
  busy, valid and carries the block number, whose data is the block as the kernel sees
  it; the cache stays well formed, so no block is ever cached twice, the contents of
  every other block are unchanged, and nothing is written to the disk.
\<close>

theorem bread_returns_current_block:
  assumes "bio_ok s" and "\<not> busy_block s b" and "spare s \<noteq> {}" and "b < disksize s"
  shows "\<exists>i t. bread ROOTDEV b s = Done i t \<and> i < NBUF \<and> b_busy (bufs t ! i) \<and> b_blockno (bufs t ! i) = b \<and>
    b_data (bufs t ! i) = bview s b \<and> bc_inv t \<and> bview t = bview s \<and> disk t = disk s"
proof -
  obtain i t where e: "bread ROOTDEV b s = Done i t" and p: "bread_post s b i t"
    using bread_twp [OF assms] by (auto simp: twp_iff)
  have ok: "bio_ok t" "hold t i b" using p by (simp_all add: bread_post_def)
  have "b_data (bufs t ! i) = bview t b" by (rule hold_data [OF ok])
  then show ?thesis using e p ok hold_fields [OF ok(2)] by (auto simp: bread_post_def bio_ok_def)
qed

theorem bread_returns_current_block_witness:
  "\<exists>s. bio_ok s \<and> \<not> busy_block s 7 \<and> spare s \<noteq> {} \<and> 7 < disksize s \<and>
     (\<exists>i t. bread ROOTDEV 7 s = Done i t \<and> b_data (bufs t ! i) = bview s 7)"
proof -
  obtain s where s: "bio_ok s" "disksize s = 2000" "\<forall>b. \<not> busy_block s b" "card (spare s) = NBUF"
    using boot_example [where d = "\<lambda>_. zeros" and n = 2000] by blast
  have h: "\<not> busy_block s 7" "spare s \<noteq> {}" "7 < disksize s" using s by auto
  show ?thesis using s(1) h bread_returns_current_block [OF s(1) h] by blast
qed

text \<open>
  C10: \<open>brelse\<close> implements move-to-front and nothing else.  If the links of the cache
  represent the list \<open>xs\<close>, most recently used first, then after \<open>brelse\<close> of a busy
  buffer \<open>i\<close> they represent \<open>i # remove1 i xs\<close>; of all the other fields of the buffers
  only the busy flag of \<open>i\<close> changes, every process that slept waiting for it and no other
  is made runnable, and the disk is not touched.  If the cache invariant held and the
  buffer's block is either dirty or as on disk, the invariant holds again and every block
  reads as before.
\<close>

theorem brelse_moves_to_front:
  assumes "quiet s" and "ptable_ok s" and "dlist (kbcache s) xs" and "i \<in> set xs" and "b_busy (bufs s ! i)"
  shows "\<exists>t. brelse i s = Done () t \<and> dlist (kbcache t) (i # remove1 i xs) \<and>
    map payload (bufs t) = map payload ((bufs s)[i := (bufs s ! i)\<lparr>b_busy := False\<rparr>]) \<and>
    ptable t = map (wake (ChanBuf i)) (ptable s) \<and> disk t = disk s \<and> dtrace t = dtrace s \<and>
    (\<forall>b. bc_inv s \<and> hold s i b \<and> (b \<in> pinned s \<or> bview s b = disk s b) \<longrightarrow>
       bio_ok t \<and> bview t = bview s \<and> pinned t = pinned s \<and> (\<forall>c. busy_block t c \<longleftrightarrow> c \<noteq> b \<and> busy_block s c))"
proof -
  let ?c = "brelse_links i (kbcache s)"
  let ?u = "(acquired BcacheLock s)\<lparr>kbcache := upd_buf i (\<lambda>x. x\<lparr>b_busy := False\<rparr>) ?c\<rparr>"
  let ?ps = "map (wake (ChanBuf i)) (ptable s)"
  let ?t = "(cs s)\<lparr>kbcache := upd_buf i (\<lambda>x. x\<lparr>b_busy := False\<rparr>) ?c, ptable := ?ps\<rparr>"
  have w: "wakeup (ChanBuf i) ?u = Done () (?u\<lparr>ptable := ?ps\<rparr>)"
    using assms(1,2) by (subst wakeup_inside) (simp_all add: quiet_def free_lock_def ptable_ok_def)
  have rel: "release BcacheLock (?u\<lparr>ptable := ?ps\<rparr>) = Done () ?t"
    using assms(1) by (simp add: release_eq quiet_def released_def acquired_def cs_def free_lock_def fun_upd_idem_iff)
  have e: "brelse i s = Done () ?t"
    using assms(1,5) w rel
    by (simp add: brelse_def bnd_def sq_def getb_eq setb_eq modc_def modify_def acquire_eq)
  have dl: "dlist (kbcache ?t) (i # remove1 i xs)"
    using dlist_brelse_links [OF assms(3,4)] by (simp add: dlist_upd_buf)
  have i: "i < length (bufs s)" using assms(3,4) by (auto simp: dlist_def)
  have c: "map payload (bc_buf ?c) = map payload (bufs s)" by simp
  have len: "length (bc_buf ?c) = length (bufs s)" using map_eq_imp_length_eq [OF c] .
  have "payload (bc_buf ?c ! i) = payload (bufs s ! i)" using arg_cong [OF c, of "\<lambda>ys. ys ! i"] i len by (simp del: payload_brelse_links)
  then have p: "payload ((bc_buf ?c ! i)\<lparr>b_busy := False\<rparr>) = payload ((bufs s ! i)\<lparr>b_busy := False\<rparr>)"
    by (simp add: payload_fields)
  have "map payload (bufs ?t) = map payload ((bufs s)[i := (bufs s ! i)\<lparr>b_busy := False\<rparr>])"
    using i len c p by (simp add: upd_buf_def upd_nth_def map_update)
  moreover have "bio_ok ?t \<and> bview ?t = bview s \<and> pinned ?t = pinned s \<and> (\<forall>c. busy_block ?t c \<longleftrightarrow> c \<noteq> b \<and> busy_block s c)"
    if "bc_inv s \<and> hold s i b \<and> (b \<in> pinned s \<or> bview s b = disk s b)" for b
    using brelse_twp [of s i b] that assms(1,2) e by (auto simp: twp_iff bio_ok_def let_go_def)
  moreover have "ptable ?t = ?ps" "disk ?t = disk s" "dtrace ?t = dtrace s" by simp_all
  ultimately show ?thesis using e dl by blast
qed

theorem brelse_moves_to_front_witness:
  "\<exists>s xs i t. bio_ok s \<and> dlist (kbcache s) xs \<and> i \<in> set xs \<and> hold s i 7 \<and> bview s 7 = disk s 7 \<and>
     brelse i s = Done () t \<and> dlist (kbcache t) (i # remove1 i xs) \<and> bio_ok t \<and> bview t = bview s"
proof -
  obtain s where s: "bio_ok s" "disksize s = 2000" "\<forall>b. \<not> busy_block s b" "card (spare s) = NBUF" "pinned s = {}"
    using boot_example [where d = "\<lambda>_. zeros" and n = 2000] by blast
  have sp: "spare s \<noteq> {}" using s(4) by auto
  obtain i u where u: "bread_post s 7 i u" using bread_twp [OF s(1) _ sp, of 7] s(2,3) by (auto simp: twp_iff)
  have v: "bview s 7 = disk s 7" using bview_unpinned [OF s(1)] s(3,5) by simp
  have f: "bio_ok u" "hold u i 7" "bview u 7 = disk u 7" using u v by (simp_all add: bread_post_def)
  then have q: "quiet u" "ptable_ok u" "bc_inv u" by (simp_all add: bio_ok_def)
  obtain xs where xs: "dlist (kbcache u) xs" "\<forall>i. i \<in> set xs \<longleftrightarrow> i < NBUF" using bc_inv_dlist [OF q(3)] by blast
  have i: "i \<in> set xs" "b_busy (bufs u ! i)" using hold_fields [OF f(2)] xs(2) by simp_all
  show ?thesis using f q(3) xs(1) i(1) brelse_moves_to_front [OF q(1,2) xs(1) i] by blast
qed

end
