(* ===== verification/Log.thy ===== *)
theory Log
  imports Bio
begin

text \<open>
  \<open>log.c\<close>: the redo log that makes a group of file system calls atomic.

  The on-disk header is \<open>struct logheader\<close> in the first log block: the count in the
  first word and the home block numbers after it.  \<open>commit_writes\<close> is the sequence of
  block writes one commit performs, and a crash cuts this sequence anywhere; the
  theorems at the end show that recovery after any cut gives the disk before the
  transaction or the disk after it.

  The counted loops run over \<open>log.lh.n\<close> rounds, which the loop bodies do not change.
\<close>

section \<open>Operations\<close>

definition modlog :: "(log \<Rightarrow> log) \<Rightarrow> unit kfun" where
  "modlog f = modify (\<lambda>s. s\<lparr>klog := f (klog s)\<rparr>)"

definition modlh :: "(logheader \<Rightarrow> logheader) \<Rightarrow> unit kfun" where
  "modlh f = modlog (\<lambda>l. l\<lparr>lg_lh := f (lg_lh l)\<rparr>)"

text \<open>\<open>readsb\<close> of \<open>fs.c\<close>: the superblock is the first 28 bytes of block 1.\<close>

definition dec_sb :: "bytes \<Rightarrow> superblock" where
  "dec_sb d = \<lparr>sb_size = get32 d 0, sb_nblocks = get32 d 4, sb_ninodes = get32 d 8, sb_nlog = get32 d 12,
     sb_logstart = get32 d 16, sb_inodestart = get32 d 20, sb_bmapstart = get32 d 24\<rparr>"

definition readsb :: "nat \<Rightarrow> superblock kfun" where
  "readsb dev =
     bnd (bread dev 1) (\<lambda>bp.
     bnd (bdata bp) (\<lambda>d.
     sq (brelse bp)
     (ret (dec_sb d))))"

definition install_trans :: "unit kfun" where
  "install_trans =
     bnd (gets klog) (\<lambda>l.
     forM [0 ..< nat (lh_n (lg_lh l))] (\<lambda>tail.
       bnd (bread (lg_dev l) (lg_start l + tail + 1)) (\<lambda>lbuf.
       bnd (bread (lg_dev l) (lh_block (lg_lh l) tail)) (\<lambda>dbuf.
       bnd (bdata lbuf) (\<lambda>d.
       sq (set_bdata dbuf d)
       (sq (bwrite dbuf)
       (sq (brelse lbuf)
       (brelse dbuf))))))))"

definition read_head :: "unit kfun" where
  "read_head =
     bnd (gets klog) (\<lambda>l.
     bnd (bread (lg_dev l) (lg_start l)) (\<lambda>buf.
     bnd (bdata buf) (\<lambda>lh.
     sq (modlh (\<lambda>h. h\<lparr>lh_n := sint32 (get32 lh 0)\<rparr>))
     (sq (forM [0 ..< nat (sint32 (get32 lh 0))] (\<lambda>i.
            modlh (\<lambda>h. h\<lparr>lh_block := (lh_block h)(i := get32 lh (4 + 4 * i))\<rparr>)))
     (brelse buf)))))"

text \<open>The header block \<open>write_head\<close> builds in the buffer.\<close>

definition head_bytes :: "logheader \<Rightarrow> bytes \<Rightarrow> bytes" where
  "head_bytes h d =
     fold (\<lambda>i. put32 (4 + 4 * i) (lh_block h i)) [0 ..< nat (lh_n h)] (put32 0 (nat32 (lh_n h)) d)"

definition write_head :: "unit kfun" where
  "write_head =
     bnd (gets klog) (\<lambda>l.
     bnd (bread (lg_dev l) (lg_start l)) (\<lambda>buf.
     bnd (bdata buf) (\<lambda>d.
     sq (set_bdata buf (head_bytes (lg_lh l) d))
     (sq (bwrite buf)
     (brelse buf)))))"

definition recover_from_log :: "unit kfun" where
  "recover_from_log =
     sq read_head
     (sq install_trans
     (sq (modlh (\<lambda>h. h\<lparr>lh_n := 0\<rparr>))
     write_head))"

text \<open>\<open>sizeof(struct logheader)\<close> is \<open>4 + 4 * LOGSIZE\<close>.\<close>

definition initlog :: "nat \<Rightarrow> unit kfun" where
  "initlog dev =
     (if BSIZE \<le> 4 + 4 * LOGSIZE then panic ''initlog: too big logheader''
      else
        sq (initlock LogLock)
        (bnd (readsb dev) (\<lambda>sb.
        sq (modlog (\<lambda>l. l\<lparr>lg_start := sb_logstart sb\<rparr>))
        (sq (modlog (\<lambda>l. l\<lparr>lg_size := sb_nlog sb\<rparr>))
        (sq (modlog (\<lambda>l. l\<lparr>lg_dev := dev\<rparr>))
        recover_from_log)))))"

definition begin_op_loop :: "unit kfun" where
  "begin_op_loop =
     bnd (gets klog) (\<lambda>l.
     if lg_committing l then sleep ChanLog (Some LogLock)
     else if lh_n (lg_lh l) + (lg_outstanding l + 1) * int MAXOPBLOCKS > int LOGSIZE
     then sleep ChanLog (Some LogLock)
     else
       sq (modlog (\<lambda>l. l\<lparr>lg_outstanding := lg_outstanding l + 1\<rparr>))
       (release LogLock))"

definition begin_op :: "unit kfun" where
  "begin_op = sq (acquire LogLock) begin_op_loop"

text \<open>What \<open>begin_op\<close> continues with when it is woken.\<close>

definition begin_op_resume :: "bool \<Rightarrow> unit kfun" where
  "begin_op_resume en = sq (sleep_resume en (Some LogLock)) begin_op_loop"

definition write_log :: "unit kfun" where
  "write_log =
     bnd (gets klog) (\<lambda>l.
     forM [0 ..< nat (lh_n (lg_lh l))] (\<lambda>tail.
       bnd (bread (lg_dev l) (lg_start l + tail + 1)) (\<lambda>to.
       bnd (bread (lg_dev l) (lh_block (lg_lh l) tail)) (\<lambda>from.
       bnd (bdata from) (\<lambda>d.
       sq (set_bdata to d)
       (sq (bwrite to)
       (sq (brelse from)
       (brelse to))))))))"

definition commit :: "unit kfun" where
  "commit =
     bnd (gets (\<lambda>s. lh_n (lg_lh (klog s)))) (\<lambda>n.
     whenk (n > 0)
       (sq write_log
       (sq write_head
       (sq install_trans
       (sq (modlh (\<lambda>h. h\<lparr>lh_n := 0\<rparr>))
       write_head)))))"

definition end_op :: "unit kfun" where
  "end_op =
     sq (acquire LogLock)
     (sq (modlog (\<lambda>l. l\<lparr>lg_outstanding := lg_outstanding l - 1\<rparr>))
     (bnd (gets klog) (\<lambda>l.
     if lg_committing l then panic ''log.committing''
     else
       bnd (if lg_outstanding l = 0
            then sq (modlog (\<lambda>l. l\<lparr>lg_committing := True\<rparr>)) (ret True)
            else sq (wakeup ChanLog) (ret False)) (\<lambda>do_commit.
       sq (release LogLock)
       (whenk do_commit
         (sq commit
         (sq (acquire LogLock)
         (sq (modlog (\<lambda>l. l\<lparr>lg_committing := False\<rparr>))
         (sq (wakeup ChanLog)
         (release LogLock))))))))))"

text \<open>\<open>log_write\<close>'s scan for the block, from index \<open>i\<close> with \<open>m\<close> entries left.\<close>

fun log_scan :: "(nat \<Rightarrow> nat) \<Rightarrow> nat \<Rightarrow> nat \<Rightarrow> nat \<Rightarrow> nat" where
  "log_scan blk b 0 i = i"
| "log_scan blk b (Suc m) i = (if blk i = b then i else log_scan blk b m (i + 1))"

definition log_write :: "nat \<Rightarrow> unit kfun" where
  "log_write b =
     bnd (gets klog) (\<lambda>l.
     if lh_n (lg_lh l) \<ge> int LOGSIZE \<or> lh_n (lg_lh l) \<ge> int (lg_size l) - 1
     then panic ''too big a transaction''
     else if lg_outstanding l < 1 then panic ''log_write outside of trans''
     else
       sq (acquire LogLock)
       (bnd (gets klog) (\<lambda>l. bnd (getb b) (\<lambda>bf.
       let i = log_scan (lh_block (lg_lh l)) (b_blockno bf) (nat (lh_n (lg_lh l))) 0 in
       sq (modlh (\<lambda>h. h\<lparr>lh_block := (lh_block h)(i := b_blockno bf)\<rparr>))
       (sq (whenk (int i = lh_n (lg_lh l)) (modlh (\<lambda>h. h\<lparr>lh_n := lh_n h + 1\<rparr>)))
       (sq (setb b (\<lambda>x. x\<lparr>b_dirty := True\<rparr>))
       (release LogLock)))))))"

section \<open>Rewriting one block\<close>

context block_cache
begin

lemma rewrite_block:
  assumes "ok s" "\<not> taken s b" "0 < room s" "b < nblocks s"
  shows "twp (bnd (rd b) (\<lambda>i. bnd (getd i) (\<lambda>d. sq (setd i (f d)) (sq (wr i) (rl i)))))
    (\<lambda>_. copied_to b (f (view s b)) s) s"
proof -
  obtain i t where t: "rd b s = Done i t" "ok t" "frame s t" "holds t i b" "view t = view s" "dsk t = dsk s"
    "tr t = tr s" "pin t = pin s" "\<forall>c. taken t c \<longleftrightarrow> c = b \<or> taken s c"
    "room t + (if b \<in> pin s then 0 else 1) = room s"
    using rd_law [OF assms] by (auto simp: twp_iff)
  have g: "getd i t = Done (view s b) t" using getd_law [OF t(2,4)] t(5) by (auto simp: twp_iff)
  obtain v where v: "setd i (f (view s b)) t = Done () v" "ok v" "frame t v" "view v = (view t)(b := f (view s b))"
    "dsk v = dsk t" "tr v = tr t" "pin v = pin t" "taken v = taken t" "holds v = holds t" "room v = room t"
    using setd_law [OF t(2,4), of "f (view s b)"] by (auto simp: twp_iff)
  have "b < nblocks v" using assms(4) frame_nblocks [OF t(3)] frame_nblocks [OF v(3)] by simp
  then obtain w where w: "wr i v = Done () w" "ok w" "frame v w" "view w = view v" "dsk w = (dsk v)(b := view v b)"
    "tr w = tr v @ [(b, view v b)]" "pin w = pin v - {b}" "taken w = taken v" "holds w = holds v" "room w = room v"
    using wr_law [of v i b] v t(4) by (auto simp: twp_iff)
  have "holds w i b" "view w b = dsk w b" using w v t(4) by auto
  then obtain r where r: "rl i w = Done () r" "ok r" "frame w r" "view r = view w" "dsk r = dsk w" "tr r = tr w"
    "pin r = pin w" "\<forall>c. taken r c \<longleftrightarrow> c \<noteq> b \<and> taken w c" "room r = room w + (if b \<in> pin w then 0 else 1)"
    using rl_law [of w i b] w(2) by (auto simp: twp_iff)
  have "frame s r" using t(3) v(3) w(3) r(3) frame_trans by blast
  moreover have "taken r c = taken s c" for c using r(8) w(8) v(8) t(9) assms(2) by auto
  moreover have "room r = room s + (if b \<in> pin s then 1 else 0)"
    using r(9) w(7,10) v(7,10) t(8,10) by (auto split: if_splits)
  ultimately have "copied_to b (f (view s b)) s r"
    unfolding copied_to_def using r w v t by simp
  then show ?thesis using t(1) g v(1) w(1) r(1) by (simp add: twp_def bnd_def sq_def)
qed

end

section \<open>Sequences of block writes\<close>

definition apply_w :: "(nat \<times> bytes) list \<Rightarrow> (nat \<Rightarrow> bytes) \<Rightarrow> nat \<Rightarrow> bytes" where
  "apply_w ws d = fold (\<lambda>(b, x) D. D(b := x)) ws d"

lemma apply_w_Nil [simp]: "apply_w [] d = d"
  by (simp add: apply_w_def)

lemma apply_w_Cons [simp]: "apply_w ((b, x) # ws) d = apply_w ws (d(b := x))"
  by (simp add: apply_w_def)

lemma apply_w_append [simp]: "apply_w (ws @ vs) d = apply_w vs (apply_w ws d)"
  by (simp add: apply_w_def)

lemma apply_w_other: "b \<notin> fst ` set ws \<Longrightarrow> apply_w ws d b = d b"
  by (induction ws arbitrary: d) auto

text \<open>\<open>writes f g n\<close>: block \<open>f k\<close> gets contents \<open>g k\<close>, for \<open>k\<close> from 0 to \<open>n - 1\<close>.\<close>

definition writes :: "(nat \<Rightarrow> nat) \<Rightarrow> (nat \<Rightarrow> bytes) \<Rightarrow> nat \<Rightarrow> (nat \<times> bytes) list" where
  "writes f g n = map (\<lambda>k. (f k, g k)) [0 ..< n]"

lemma writes_0 [simp]: "writes f g 0 = []"
  by (simp add: writes_def)

lemma writes_Suc: "writes f g (Suc n) = writes f g n @ [(f n, g n)]"
  by (simp add: writes_def)

lemma length_writes [simp]: "length (writes f g n) = n"
  by (simp add: writes_def)

lemma fst_writes: "fst ` set (writes f g n) = f ` {..< n}"
  by (auto simp: writes_def image_image)

lemma take_writes: "take k (writes f g n) = writes f g (min k n)"
  by (auto simp: writes_def take_map min_def)

lemma writes_cong: "(\<And>k. k < n \<Longrightarrow> g k = h k) \<Longrightarrow> writes f g n = writes f h n"
  by (simp add: writes_def)

lemma apply_writes_other: "(\<And>k. k < n \<Longrightarrow> f k \<noteq> b) \<Longrightarrow> apply_w (writes f g n) d b = d b"
  by (rule apply_w_other) (auto simp: fst_writes)

lemma apply_writes_same:
  "inj_on f {..< n} \<Longrightarrow> k < n \<Longrightarrow> apply_w (writes f g n) d (f k) = g k"
proof (induction n)
  case 0
  then show ?case by simp
next
  case (Suc n)
  show ?case
  proof (cases "k = n")
    case True
    then show ?thesis by (simp add: writes_Suc)
  next
    case False
    have "inj_on f {..< n}" using Suc.prems(1) by (rule inj_on_subset) auto
    moreover have "f k \<noteq> f n" using Suc.prems False by (auto dest: inj_onD)
    ultimately show ?thesis using Suc False by (simp add: writes_Suc)
  qed
qed

text \<open>Each block \<open>f k\<close> written with its own contents in \<open>v\<close>.\<close>

lemma apply_writes_own:
  assumes "inj_on f {..< n}"
  shows "apply_w (writes f (\<lambda>k. v (f k)) n) d b = (if b \<in> f ` {..< n} then v b else d b)"
proof (cases "b \<in> f ` {..< n}")
  case True
  then obtain k where "k < n" "b = f k" by auto
  then show ?thesis using apply_writes_same [OF assms] by auto
next
  case False
  then have "f k \<noteq> b" if "k < n" for k using that by auto
  then show ?thesis using False by (simp add: apply_writes_other)
qed

section \<open>The loops of the log\<close>

lemma bio_cong:
  assumes "kbcache t = kbcache s" "disk t = disk s"
  shows "bview t = bview s" "pinned t = pinned s" "busy_block t = busy_block s" "hold t = hold s"
    "spare t = spare s" "bc_inv t = bc_inv s"
proof -
  have c: "caches t = caches s" using assms(1) by (simp add: fun_eq_iff caches_def)
  show "bview t = bview s" unfolding bview_def c assms ..
  show "pinned t = pinned s" "busy_block t = busy_block s" "hold t = hold s" "spare t = spare s" "bc_inv t = bc_inv s"
    unfolding fun_eq_iff pinned_def busy_block_def hold_def spare_def bc_inv_def c assms by simp_all
qed

lemma klog_update [simp]:
  "bview (s\<lparr>klog := l\<rparr>) = bview s" "pinned (s\<lparr>klog := l\<rparr>) = pinned s"
  "busy_block (s\<lparr>klog := l\<rparr>) = busy_block s" "hold (s\<lparr>klog := l\<rparr>) = hold s"
  "spare (s\<lparr>klog := l\<rparr>) = spare s" "bio_ok (s\<lparr>klog := l\<rparr>) = bio_ok s"
  "same_rest s (t\<lparr>klog := l\<rparr>) = same_rest s t"
  by (rule bio_cong, simp, simp)+ (simp_all add: bio_ok_def ptable_ok_def same_rest_def bio_cong [of "s\<lparr>klog := l\<rparr>" s])

lemma wp_klog [wp]:
  "twp (modlog f) Q s = Q () (s\<lparr>klog := f (klog s)\<rparr>)"
  "twp (modlh g) Q s = Q () (s\<lparr>klog := (klog s)\<lparr>lg_lh := g (lg_lh (klog s))\<rparr>\<rparr>)"
  "wp (modlog f) Q s = Q () (s\<lparr>klog := f (klog s)\<rparr>)"
  "wp (modlh g) Q s = Q () (s\<lparr>klog := (klog s)\<lparr>lg_lh := g (lg_lh (klog s))\<rparr>\<rparr>)"
  by (simp_all add: modlog_def modlh_def wp)

text \<open>The blocks of the log, its geometry, and a cache nobody is using.\<close>

definition log_area :: "log \<Rightarrow> nat set" where
  "log_area l = {lg_start l .. lg_start l + LOGSIZE}"

definition log_geom :: "nat \<Rightarrow> log \<Rightarrow> bool" where
  "log_geom sz l \<longleftrightarrow> lg_dev l = ROOTDEV \<and> lg_start l + LOGSIZE < sz \<and>
     0 \<le> lh_n (lg_lh l) \<and> lh_n (lg_lh l) \<le> int LOGSIZE \<and>
     inj_on (lh_block (lg_lh l)) {..< nat (lh_n (lg_lh l))} \<and>
     (\<forall>k < nat (lh_n (lg_lh l)). lh_block (lg_lh l) k < sz \<and> lh_block (lg_lh l) k \<notin> log_area l \<and>
        lh_block (lg_lh l) k < 4294967296)"

definition idle :: "kstate \<Rightarrow> bool" where
  "idle s \<longleftrightarrow> bio_ok s \<and> (\<forall>b. \<not> busy_block s b) \<and> 2 \<le> card (spare s)"

definition copy_rel :: "kstate \<Rightarrow> (nat \<times> bytes) list \<Rightarrow> nat set \<Rightarrow> kstate \<Rightarrow> bool" where
  "copy_rel s ws P t \<longleftrightarrow> idle t \<and> same_rest s t \<and> klog t = klog s \<and> bview t = apply_w ws (bview s) \<and>
     disk t = apply_w ws (disk s) \<and> dtrace t = dtrace s @ ws \<and> pinned t = pinned s - P"

lemma copied_to_rel:
  assumes "copy_rel s ws P t" "bc.copied_to b d t u"
  shows "copy_rel s (ws @ [(b, d)]) (insert b P) u"
  using assms same_rest_trans unfolding copy_rel_def bc.copied_to_def idle_def by auto

lemma copy_rel_refl [simp]: "copy_rel s [] {} s \<longleftrightarrow> idle s"
  by (simp add: copy_rel_def)

lemma log_geom_home:
  assumes "log_geom sz l" "k < nat (lh_n (lg_lh l))" "j < nat (lh_n (lg_lh l))"
  shows "lh_block (lg_lh l) k \<noteq> lg_start l + j + 1" "lg_start l + j + 1 < sz" "lh_block (lg_lh l) k < sz"
    "lg_start l + j + 1 \<in> log_area l"
  using assms by (auto simp: log_geom_def log_area_def)

lemma install_trans_twp:
  assumes id: "idle s" and g: "log_geom (disksize s) (klog s)"
  defines "blk \<equiv> lh_block (lg_lh (klog s))" and "n \<equiv> nat (lh_n (lg_lh (klog s)))" and "st \<equiv> lg_start (klog s)"
  shows "twp install_trans (\<lambda>_. copy_rel s (writes blk (\<lambda>k. bview s (st + k + 1)) n) (blk ` {..< n})) s"
proof -
  have dev: "lg_dev (klog s) = ROOTDEV" using g by (simp add: log_geom_def)
  let ?W = "writes blk (\<lambda>k. bview s (st + k + 1))"
  note gh = log_geom_home [OF g, folded blk_def n_def st_def]
  have step: "twp (bnd (bread ROOTDEV (st + k + 1)) (\<lambda>lbuf. bnd (bread ROOTDEV (blk k)) (\<lambda>dbuf.
      bnd (bdata lbuf) (\<lambda>d. sq (set_bdata dbuf d) (sq (bwrite dbuf) (sq (brelse lbuf) (brelse dbuf)))))))
      (\<lambda>_. copy_rel s (?W (Suc k)) (blk ` {..< Suc k})) t"
    if k: "k < n" and I: "copy_rel s (?W k) (blk ` {..< k}) t" for k t
  proof -
    have t: "bio_ok t" "\<not> busy_block t (st + k + 1)" "\<not> busy_block t (blk k)" "2 \<le> card (spare t)"
      "disksize t = disksize s" using I by (auto simp: copy_rel_def idle_def same_rest_def)
    have "bview t (st + k + 1) = apply_w (?W k) (bview s) (st + k + 1)" using I by (simp add: copy_rel_def)
    also have "\<dots> = bview s (st + k + 1)" using k gh by (intro apply_writes_other) auto
    finally have v: "bview t (st + k + 1) = bview s (st + k + 1)" .
    have ne: "st + k + 1 \<noteq> blk k" using gh(1) [OF k k] by simp
    have ins: "blk ` {..< Suc k} = insert (blk k) (blk ` {..< k})" by (simp add: lessThan_Suc)
    show ?thesis
      unfolding writes_Suc ins
      by (rule twp_mono [OF bc.copy_second [of t "st + k + 1" "blk k", unfolded v]])
         (use t k gh(2,3) ne copied_to_rel [OF I] in auto)
  qed
  have "twp (forM [0 ..< n] (\<lambda>k. bnd (bread ROOTDEV (st + k + 1)) (\<lambda>lbuf. bnd (bread ROOTDEV (blk k)) (\<lambda>dbuf.
      bnd (bdata lbuf) (\<lambda>d. sq (set_bdata dbuf d) (sq (bwrite dbuf) (sq (brelse lbuf) (brelse dbuf))))))))
      (\<lambda>_. copy_rel s (?W n) (blk ` {..< n})) s"
    by (rule twp_forM_upt [of n "\<lambda>k. copy_rel s (?W k) (blk ` {..< k})"]) (use step id in auto)
  then show ?thesis unfolding install_trans_def twp_bnd twp_gets dev blk_def n_def st_def .
qed

lemma write_log_twp:
  assumes id: "idle s" and g: "log_geom (disksize s) (klog s)"
  defines "blk \<equiv> lh_block (lg_lh (klog s))" and "n \<equiv> nat (lh_n (lg_lh (klog s)))" and "st \<equiv> lg_start (klog s)"
  shows "twp write_log (\<lambda>_. copy_rel s (writes (\<lambda>k. st + k + 1) (\<lambda>k. bview s (blk k)) n) ((\<lambda>k. st + k + 1) ` {..< n})) s"
proof -
  have dev: "lg_dev (klog s) = ROOTDEV" using g by (simp add: log_geom_def)
  let ?f = "\<lambda>k. st + k + 1" let ?W = "writes ?f (\<lambda>k. bview s (blk k))"
  note gh = log_geom_home [OF g, folded blk_def n_def st_def]
  have step: "twp (bnd (bread ROOTDEV (st + k + 1)) (\<lambda>to. bnd (bread ROOTDEV (blk k)) (\<lambda>from.
      bnd (bdata from) (\<lambda>d. sq (set_bdata to d) (sq (bwrite to) (sq (brelse from) (brelse to)))))))
      (\<lambda>_. copy_rel s (?W (Suc k)) (?f ` {..< Suc k})) t"
    if k: "k < n" and I: "copy_rel s (?W k) (?f ` {..< k}) t" for k t
  proof -
    have t: "bio_ok t" "\<not> busy_block t (st + k + 1)" "\<not> busy_block t (blk k)" "2 \<le> card (spare t)"
      "disksize t = disksize s" using I by (auto simp: copy_rel_def idle_def same_rest_def)
    have "bview t (blk k) = apply_w (?W k) (bview s) (blk k)" using I by (simp add: copy_rel_def)
    also have "\<dots> = bview s (blk k)"
      using k gh(1) by (intro apply_writes_other) (metis less_trans)
    finally have v: "bview t (blk k) = bview s (blk k)" .
    have ne: "st + k + 1 \<noteq> blk k" using gh(1) [OF k k] by simp
    have ins: "?f ` {..< Suc k} = insert (?f k) (?f ` {..< k})" by (simp add: lessThan_Suc)
    show ?thesis
      unfolding writes_Suc ins
      by (rule twp_mono [OF bc.copy_first [of t "st + k + 1" "blk k", unfolded v]])
         (use t k gh(2,3) ne copied_to_rel [OF I] in auto)
  qed
  have "twp (forM [0 ..< n] (\<lambda>k. bnd (bread ROOTDEV (st + k + 1)) (\<lambda>to. bnd (bread ROOTDEV (blk k)) (\<lambda>from.
      bnd (bdata from) (\<lambda>d. sq (set_bdata to d) (sq (bwrite to) (sq (brelse from) (brelse to))))))))
      (\<lambda>_. copy_rel s (?W n) (?f ` {..< n})) s"
    by (rule twp_forM_upt [of n "\<lambda>k. copy_rel s (?W k) (?f ` {..< k})"]) (use step id in auto)
  then show ?thesis unfolding write_log_def twp_bnd twp_gets dev blk_def n_def st_def .
qed

section \<open>The header\<close>

lemma fold_put32_other:
  "q + 4 \<le> p \<Longrightarrow> get32 (fold (\<lambda>i. put32 (p + 4 * i) (b i)) [0 ..< n] d) q = get32 d q"
  by (induction n) (simp_all add: enc)

lemma fold_put32_same:
  "i < n \<Longrightarrow> get32 (fold (\<lambda>i. put32 (p + 4 * i) (b i)) [0 ..< n] d) (p + 4 * i) = b i mod 4294967296"
proof (induction n)
  case 0
  then show ?case by simp
next
  case (Suc n)
  show ?case
  proof (cases "i = n")
    case True
    then show ?thesis by (simp add: enc)
  next
    case False
    then have "p + 4 * i + 4 \<le> p + 4 * n" using Suc.prems by simp
    then show ?thesis using Suc False by (simp add: enc)
  qed
qed

text \<open>The first \<open>n\<close> entries of an array replaced.\<close>

definition patch :: "nat \<Rightarrow> (nat \<Rightarrow> nat) \<Rightarrow> (nat \<Rightarrow> nat) \<Rightarrow> nat \<Rightarrow> nat" where
  "patch n f g = (\<lambda>i. if i < n then f i else g i)"

definition dec_head :: "logheader \<Rightarrow> bytes \<Rightarrow> logheader" where
  "dec_head old d = old\<lparr>lh_n := sint32 (get32 d 0),
     lh_block := patch (nat (sint32 (get32 d 0))) (\<lambda>i. get32 d (4 + 4 * i)) (lh_block old)\<rparr>"

text \<open>Writing a header and reading it back.\<close>

lemma dec_head_bytes:
  assumes "0 \<le> lh_n h" "lh_n h \<le> int LOGSIZE" "\<And>k. k < nat (lh_n h) \<Longrightarrow> lh_block h k < 4294967296"
  shows "lh_n (dec_head old (head_bytes h d)) = lh_n h"
    "k < nat (lh_n h) \<Longrightarrow> lh_block (dec_head old (head_bytes h d)) k = lh_block h k"
proof -
  have "get32 (head_bytes h d) 0 = nat32 (lh_n h)"
    by (simp add: head_bytes_def fold_put32_other enc)
  moreover have "sint32 (nat32 (lh_n h)) = lh_n h" using assms(1,2) by (intro sint32_nat32) auto
  ultimately show n: "lh_n (dec_head old (head_bytes h d)) = lh_n h" by (simp add: dec_head_def)
  show "lh_block (dec_head old (head_bytes h d)) k = lh_block h k" if "k < nat (lh_n h)"
    using that n assms(3) fold_put32_same [OF that, of 4 "lh_block h"]
    by (simp add: dec_head_def head_bytes_def patch_def)
qed

lemma head_bytes_0: "lh_n h = 0 \<Longrightarrow> head_bytes h d = put32 0 0 d"
  by (simp add: head_bytes_def nat32_def)

lemma write_head_twp:
  assumes "idle s" "lg_dev (klog s) = ROOTDEV" "lg_start (klog s) < disksize s"
  shows "twp write_head (\<lambda>_. copy_rel s [(lg_start (klog s), head_bytes (lg_lh (klog s)) (bview s (lg_start (klog s))))]
    {lg_start (klog s)}) s"
proof -
  have "twp write_head (\<lambda>_. bc.copied_to (lg_start (klog s)) (head_bytes (lg_lh (klog s)) (bview s (lg_start (klog s)))) s) s"
    unfolding write_head_def twp_bnd [of "gets klog"] twp_gets assms(2)
    using assms by (intro bc.rewrite_block) (auto simp: idle_def)
  moreover have "copy_rel s [] {} s" using assms(1) by simp
  ultimately show ?thesis using copied_to_rel [of s "[]" "{}" s] by (auto elim: twp_mono)
qed

lemma modlh_eq: "modlh g s = Done () (s\<lparr>klog := (klog s)\<lparr>lg_lh := g (lg_lh (klog s))\<rparr>\<rparr>)"
  by (simp add: modlh_def modlog_def modify_def)

lemma forM_modlh:
  "forM [0 ..< n] (\<lambda>i. modlh (\<lambda>h. h\<lparr>lh_block := (lh_block h)(i := f i)\<rparr>)) s =
    Done () (s\<lparr>klog := (klog s)\<lparr>lg_lh := (lg_lh (klog s))\<lparr>lh_block :=
      patch n f (lh_block (lg_lh (klog s)))\<rparr>\<rparr>\<rparr>)"
proof -
  let ?I = "\<lambda>k t. t = s\<lparr>klog := (klog s)\<lparr>lg_lh := (lg_lh (klog s))\<lparr>lh_block :=
      patch k f (lh_block (lg_lh (klog s)))\<rparr>\<rparr>\<rparr>"
  have "twp (forM [0 ..< n] (\<lambda>i. modlh (\<lambda>h. h\<lparr>lh_block := (lh_block h)(i := f i)\<rparr>))) (\<lambda>_. ?I n) s"
    by (rule twp_forM_upt [of n ?I]) (auto simp: wp patch_def less_Suc_eq fun_eq_iff)
  then show ?thesis by (simp add: twp_iff)
qed

lemma same_rest_klog [simp]: "same_rest (s\<lparr>klog := l\<rparr>) t = same_rest s t"
  by (simp add: same_rest_def)

definition after_head :: "kstate \<Rightarrow> kstate" where
  "after_head s = s\<lparr>klog := (klog s)\<lparr>lg_lh := dec_head (lg_lh (klog s)) (bview s (lg_start (klog s)))\<rparr>\<rparr>"

lemma read_head_twp:
  assumes "idle s" "lg_dev (klog s) = ROOTDEV" "lg_start (klog s) < disksize s" "pinned s = {}"
  shows "twp read_head (\<lambda>_ t. idle t \<and> same_rest s t \<and> klog t = klog (after_head s) \<and> bview t = bview s \<and>
    disk t = disk s \<and> dtrace t = dtrace s \<and> pinned t = {}) s"
proof -
  let ?st = "lg_start (klog s)"
  have "spare s \<noteq> {}" using assms(1) by (auto simp: idle_def)
  then obtain i t where t: "bread ROOTDEV ?st s = Done i t" "bread_post s ?st i t"
    using bread_twp [of s ?st] assms by (auto simp: twp_iff idle_def)
  have bt: "bio_ok t" "hold t i ?st" "bview t = bview s" "klog t = klog s" "disk t = disk s" "dtrace t = dtrace s"
    "pinned t = {}" "same_rest s t" using t(2) assms(4) by (simp_all add: bread_post_def)
  have d: "bdata i t = Done (bview s ?st) t" using bc.getd_law [OF bt(1,2)] bt(3) by (auto simp: twp_iff)
  let ?u = "t\<lparr>klog := klog (after_head s)\<rparr>"
  have "bview t ?st = disk t ?st" using bview_unpinned [of s ?st] bt assms by (simp add: idle_def)
  then obtain v where v: "brelse i ?u = Done () v" "let_go ?u i ?st v"
    using brelse_twp [of ?u i ?st] bt by (auto simp: twp_iff)
  have "read_head s = Done () v"
    using t(1) d v(1) bt(4) assms(2)
    by (simp add: read_head_def bnd_def sq_def gets_def modlh_eq forM_modlh after_head_def dec_head_def)
  moreover have "busy_block v c \<longleftrightarrow> False" for c
    using v(2) t(2) assms(1) by (auto simp: let_go_def bread_post_def idle_def)
  moreover have "card (spare v) = card (spare s)"
    using v(2) t(2) bt(7) assms(4) by (simp add: let_go_def bread_post_def)
  ultimately show ?thesis
    using v(2) bt assms(1) same_rest_trans [of s t v] by (simp add: twp_def let_go_def idle_def)
qed

section \<open>Recovery and commit as sequences of writes\<close>

text \<open>The writes recovery makes, from the disk contents it finds; \<open>h\<close> is the decoded header.\<close>

definition install_writes :: "nat \<Rightarrow> logheader \<Rightarrow> (nat \<Rightarrow> bytes) \<Rightarrow> (nat \<times> bytes) list" where
  "install_writes st h d = writes (lh_block h) (\<lambda>k. d (st + k + 1)) (nat (lh_n h))"

definition recover_writes :: "nat \<Rightarrow> logheader \<Rightarrow> (nat \<Rightarrow> bytes) \<Rightarrow> (nat \<times> bytes) list" where
  "recover_writes st h d = install_writes st h d @ [(st, put32 0 0 (d st))]"

text \<open>The writes one commit makes: the log blocks, the header, the home blocks, the cleared header.\<close>

definition commit_writes :: "nat \<Rightarrow> logheader \<Rightarrow> (nat \<Rightarrow> bytes) \<Rightarrow> (nat \<times> bytes) list" where
  "commit_writes st h v =
     writes (\<lambda>k. st + k + 1) (\<lambda>k. v (lh_block h k)) (nat (lh_n h)) @ [(st, head_bytes h (v st))] @
     writes (lh_block h) (\<lambda>k. v (lh_block h k)) (nat (lh_n h)) @ [(st, put32 0 0 (head_bytes h (v st)))]"

lemma copy_rel_trans:
  assumes "copy_rel s ws P t" "copy_rel t vs R u"
  shows "copy_rel s (ws @ vs) (P \<union> R) u"
  using assms same_rest_trans unfolding copy_rel_def by auto

lemma copy_rel_klog:
  "copy_rel (s\<lparr>klog := l\<rparr>) ws P t \<Longrightarrow> idle t \<and> same_rest s t \<and> klog t = l \<and> bview t = apply_w ws (bview s) \<and>
     disk t = apply_w ws (disk s) \<and> dtrace t = dtrace s @ ws \<and> pinned t = pinned s - P"
  by (auto simp: copy_rel_def same_rest_def)

lemma idle_klog [simp]: "idle (s\<lparr>klog := l\<rparr>) = idle s"
  by (simp add: idle_def)

definition log_done :: "kstate \<Rightarrow> (nat \<times> bytes) list \<Rightarrow> nat set \<Rightarrow> kstate \<Rightarrow> bool" where
  "log_done s ws P t \<longleftrightarrow> idle t \<and> same_rest s t \<and> bview t = apply_w ws (bview s) \<and> disk t = apply_w ws (disk s) \<and>
     dtrace t = dtrace s @ ws \<and> pinned t = pinned s - P \<and> lh_n (lg_lh (klog t)) = 0 \<and>
     lg_start (klog t) = lg_start (klog s) \<and> lg_dev (klog t) = lg_dev (klog s) \<and> lg_size (klog t) = lg_size (klog s) \<and>
     lg_outstanding (klog t) = lg_outstanding (klog s) \<and> lg_committing (klog t) = lg_committing (klog s)"

text \<open>\<open>log.lh.n = 0; write_head()\<close>, the end of both commit and recovery.\<close>

lemma clear_head_twp:
  assumes c: "copy_rel s ws P t" and l: "lg_dev (klog s) = ROOTDEV" "lg_start (klog s) < disksize s"
    and st: "lg_start (klog s) = st"
  shows "twp (sq (modlh (\<lambda>h. h\<lparr>lh_n := 0\<rparr>)) write_head)
    (\<lambda>_. log_done s (ws @ [(st, put32 0 0 (apply_w ws (bview s) st))]) (insert st P)) t"
proof -
  have t: "idle t" "same_rest s t" "klog t = klog s" "bview t = apply_w ws (bview s)" "disk t = apply_w ws (disk s)"
    "dtrace t = dtrace s @ ws" "pinned t = pinned s - P" using c by (simp_all add: copy_rel_def)
  let ?l = "(klog s)\<lparr>lg_lh := (lg_lh (klog s))\<lparr>lh_n := 0\<rparr>\<rparr>"
  have sz: "disksize t = disksize s" using t(2) by (simp add: same_rest_def)
  have "twp write_head (\<lambda>_. copy_rel (t\<lparr>klog := ?l\<rparr>) [(st, put32 0 0 (apply_w ws (bview s) st))] {st}) (t\<lparr>klog := ?l\<rparr>)"
    using write_head_twp [of "t\<lparr>klog := ?l\<rparr>"] t l st sz by (simp add: head_bytes_0)
  then show ?thesis
    unfolding twp_sq twp_bnd wp_klog t(3)
    by (rule twp_mono) (use t same_rest_trans in \<open>auto simp: log_done_def dest!: copy_rel_klog\<close>)
qed

lemma recover_twp:
  assumes id: "idle s" and pin: "pinned s = {}" and g: "log_geom (disksize s) (klog (after_head s))"
  defines "st \<equiv> lg_start (klog s)"
  shows "twp recover_from_log (\<lambda>_ t. log_done s
    (recover_writes st (dec_head (lg_lh (klog s)) (disk s st)) (disk s)) {} t \<and> pinned t = {}) s"
proof -
  have view: "bview s = disk s" using bview_unpinned id pin by (auto simp: idle_def)
  have l: "lg_dev (klog s) = ROOTDEV" "lg_start (klog s) < disksize s" using g by (auto simp: log_geom_def after_head_def)
  let ?h = "dec_head (lg_lh (klog s)) (disk s st)"
  have head: "klog (after_head s) = (klog s)\<lparr>lg_lh := ?h\<rparr>" by (simp add: after_head_def view st_def)
  have home: "\<And>k. k < nat (lh_n ?h) \<Longrightarrow> lh_block ?h k \<noteq> st"
    using g unfolding head by (auto simp: log_geom_def log_area_def st_def)
  obtain t where t: "read_head s = Done () t" "idle t" "same_rest s t" "klog t = (klog s)\<lparr>lg_lh := ?h\<rparr>"
    "bview t = disk s" "disk t = disk s" "dtrace t = dtrace s" "pinned t = {}"
    using read_head_twp [OF id l pin] view head by (auto simp: twp_iff)
  have gt: "log_geom (disksize t) (klog t)" using g t(3,4) head by (simp add: same_rest_def)
  obtain u where u: "install_trans t = Done () u" "copy_rel t (install_writes st ?h (disk s)) (lh_block ?h ` {..< nat (lh_n ?h)}) u"
    using install_trans_twp [OF t(2) gt] t(4,5) by (auto simp: twp_iff install_writes_def st_def)
  have e: "apply_w (install_writes st ?h (disk s)) (disk s) st = disk s st"
    unfolding install_writes_def using home by (intro apply_writes_other) auto
  have lt: "lg_dev (klog t) = ROOTDEV" "lg_start (klog t) < disksize t" "lg_start (klog t) = st"
    using t(3,4) l by (simp_all add: same_rest_def st_def)
  obtain v where v: "sq (modlh (\<lambda>h. h\<lparr>lh_n := 0\<rparr>)) write_head u = Done () v"
    "log_done t (recover_writes st ?h (disk s)) (insert st (lh_block ?h ` {..< nat (lh_n ?h)})) v"
    using clear_head_twp [OF u(2) lt] t(5) e by (auto simp: twp_iff recover_writes_def)
  have "recover_from_log s = Done () v"
    using t(1) u(1) v(1) by (simp add: recover_from_log_def sq_def bnd_def)
  then show ?thesis
    using v(2) t same_rest_trans [of s t v] view pin by (simp add: twp_def log_done_def)
qed

text \<open>A state \<open>commit\<close> is called in: every logged block is pinned, the log area is not.\<close>

definition commit_ready :: "kstate \<Rightarrow> bool" where
  "commit_ready s \<longleftrightarrow> idle s \<and> log_geom (disksize s) (klog s) \<and> 0 < lh_n (lg_lh (klog s)) \<and>
     pinned s = lh_block (lg_lh (klog s)) ` {..< nat (lh_n (lg_lh (klog s)))}"

lemma commit_twp:
  assumes r: "commit_ready s"
  defines "st \<equiv> lg_start (klog s)" and "h \<equiv> lg_lh (klog s)"
  shows "twp commit (\<lambda>_ t. log_done s (commit_writes st h (bview s)) (pinned s) t \<and> pinned t = {}) s"
proof -
  define n where "n = nat (lh_n h)"
  define V where "V = bview s"
  let ?W1 = "writes (\<lambda>k. st + k + 1) (\<lambda>k. V (lh_block h k)) n"
  let ?H = "head_bytes h (V st)"
  let ?W2 = "writes (lh_block h) (\<lambda>k. V (lh_block h k)) n"
  let ?L = "(\<lambda>k. st + k + 1) ` {..< n}" and ?B = "lh_block h ` {..< n}"
  have id: "idle s" and g: "log_geom (disksize s) (klog s)" and pin: "pinned s = ?B" and n0: "0 < lh_n h"
    using r by (auto simp: commit_ready_def h_def n_def)
  have l: "lg_dev (klog s) = ROOTDEV" "st < disksize s" "lg_start (klog s) < disksize s"
    using g by (auto simp: log_geom_def st_def)
  have home: "lh_block h k \<noteq> st" "lh_block h k \<noteq> st + j + 1" if "k < n" "j < n" for k j
    using log_geom_home [OF g, of k j] that g by (auto simp: n_def h_def st_def log_geom_def log_area_def)
  obtain t where t: "write_log s = Done () t" "copy_rel s ?W1 ?L t"
    using write_log_twp [OF id g] by (auto simp: twp_iff V_def h_def n_def st_def)
  have kt: "klog t = klog s" "disksize t = disksize s" "idle t" "bview t st = V st"
    using t(2) apply_writes_other [of n "\<lambda>k. st + k + 1" st] by (auto simp: copy_rel_def same_rest_def V_def)
  obtain u where u: "write_head t = Done () u" "copy_rel t [(st, ?H)] {st} u"
    using write_head_twp [of t] kt l by (auto simp: twp_iff st_def h_def)
  have su: "copy_rel s (?W1 @ [(st, ?H)]) (?L \<union> {st}) u" by (rule copy_rel_trans [OF t(2) u(2)])
  then have ku: "klog u = klog s" "disksize u = disksize s" "idle u"
    "bview u = apply_w (?W1 @ [(st, ?H)]) V" by (auto simp: copy_rel_def same_rest_def V_def)
  have lb: "bview u (st + k + 1) = V (lh_block h k)" if "k < n" for k
    using ku(4) apply_writes_same [of "\<lambda>k. st + k + 1" n k "\<lambda>k. V (lh_block h k)" V] that by (simp add: inj_on_def)
  have "writes (lh_block h) (\<lambda>k. bview u (st + k + 1)) n = ?W2" by (rule writes_cong) (rule lb)
  then obtain v where v: "install_trans u = Done () v" "copy_rel u ?W2 ?B v"
    using install_trans_twp [of u] ku g by (auto simp: twp_iff h_def n_def st_def)
  have sv: "copy_rel s (?W1 @ [(st, ?H)] @ ?W2) (?L \<union> {st} \<union> ?B) v"
    using copy_rel_trans [OF su v(2)] by simp
  have hd: "apply_w (?W1 @ [(st, ?H)] @ ?W2) V st = ?H"
    using home apply_writes_other [of n "lh_block h" st] by simp
  obtain w where w: "sq (modlh (\<lambda>h. h\<lparr>lh_n := 0\<rparr>)) write_head v = Done () w"
    "log_done s (commit_writes st h V) (insert st (?L \<union> {st} \<union> ?B)) w"
    using clear_head_twp [OF sv l(1,3) refl] hd by (auto simp: twp_iff commit_writes_def n_def V_def st_def)
  have "commit s = Done () w"
    using t(1) u(1) v(1) w(1) n0 by (simp add: commit_def sq_def bnd_def gets_def whenk_def h_def)
  moreover have "pinned w = {}" using w(2) pin by (auto simp: log_done_def)
  ultimately show ?thesis using w(2) pin by (simp add: twp_def log_done_def V_def)
qed

section \<open>Crashes\<close>

text \<open>
  The contents of the disk after the machine stopped having made the first \<open>k\<close> of the
  writes \<open>ws\<close>; a single block write is atomic.
\<close>

definition crash :: "nat \<Rightarrow> (nat \<times> bytes) list \<Rightarrow> (nat \<Rightarrow> bytes) \<Rightarrow> nat \<Rightarrow> bytes" where
  "crash k ws d = apply_w (take k ws) d"

text \<open>The effect of recovery on a disk.\<close>

definition recovered :: "nat \<Rightarrow> logheader \<Rightarrow> (nat \<Rightarrow> bytes) \<Rightarrow> nat \<Rightarrow> bytes" where
  "recovered st old d = apply_w (recover_writes st (dec_head old (d st)) d) d"

text \<open>The logged blocks carry their new contents, every other block the old one.\<close>

definition updated :: "logheader \<Rightarrow> (nat \<Rightarrow> bytes) \<Rightarrow> (nat \<Rightarrow> bytes) \<Rightarrow> nat \<Rightarrow> bytes" where
  "updated h v d b = (if b \<in> lh_block h ` {..< nat (lh_n h)} then v b else d b)"

lemma recovered_empty:
  assumes "lh_n (dec_head old (d st)) = 0"
  shows "recovered st old d = d(st := put32 0 0 (d st))"
  using assms by (simp add: recovered_def recover_writes_def install_writes_def)

lemma recovered_full:
  assumes g: "log_geom sz l" and st: "lg_start l = st" and h: "lg_lh l = h"
    and hd: "d st = head_bytes h x" and lb: "\<And>k. k < nat (lh_n h) \<Longrightarrow> d (st + k + 1) = v (lh_block h k)"
    and b: "b \<notin> log_area l"
  shows "recovered st old d b = updated h v d b"
proof -
  let ?h = "dec_head old (d st)" and ?n = "nat (lh_n h)"
  have hh: "0 \<le> lh_n h" "lh_n h \<le> int LOGSIZE" "\<And>k. k < ?n \<Longrightarrow> lh_block h k < 4294967296"
    "inj_on (lh_block h) {..< ?n}" using g h by (auto simp: log_geom_def)
  have n: "lh_n ?h = lh_n h" and blk: "\<And>k. k < ?n \<Longrightarrow> lh_block ?h k = lh_block h k"
    using dec_head_bytes [OF hh(1-3)] hd by auto
  have "install_writes st ?h d = writes (lh_block h) (\<lambda>k. v (lh_block h k)) ?n"
    unfolding install_writes_def n writes_def using blk lb by simp
  then have r: "recovered st old d b = apply_w (writes (lh_block h) (\<lambda>k. v (lh_block h k)) ?n) d b"
    using b st by (auto simp: recovered_def recover_writes_def log_area_def)
  then show ?thesis by (simp add: apply_writes_own [OF hh(4)] updated_def)
qed

lemma home_apply:
  assumes "\<And>k. k < n \<Longrightarrow> f k \<noteq> b" "st \<noteq> b"
  shows "apply_w (writes f g n @ [(st, x)]) d b = d b"
  using assms apply_writes_other [of n f b] by simp

text \<open>Recovery from a crash at any point of a commit.\<close>

lemma crash_commit:
  assumes g: "log_geom sz l" and empty: "lh_n (dec_head old (d (lg_start l))) = 0" and b: "b \<notin> log_area l"
  defines "st \<equiv> lg_start l" and "h \<equiv> lg_lh l"
  shows "recovered st old (crash k (commit_writes st h v) d) b =
     (if k \<le> nat (lh_n h) then d b else updated h v d b)"
proof -
  define n where "n = nat (lh_n h)"
  let ?f = "\<lambda>k. st + k + 1" let ?W1 = "writes ?f (\<lambda>k. v (lh_block h k)) n"
  let ?H = "head_bytes h (v st)" let ?w2 = "writes (lh_block h) (\<lambda>k. v (lh_block h k))"
  have W: "commit_writes st h v = ?W1 @ [(st, ?H)] @ ?w2 n @ [(st, put32 0 0 ?H)]"
    by (simp add: commit_writes_def n_def)
  have nl: "n \<le> LOGSIZE" using g by (auto simp: log_geom_def n_def h_def nat_le_iff)
  have bst: "b \<noteq> st" "\<And>j. j < n \<Longrightarrow> ?f j \<noteq> b" using b nl by (auto simp: log_area_def st_def)
  have hs: "lh_block h j \<noteq> st" if "j < n" for j
    using that g by (auto simp: n_def h_def st_def log_geom_def log_area_def)
  have hf: "lh_block h j \<noteq> ?f i" if "j < n" "i < n" for i j
    using log_geom_home [OF g, of j i] that by (simp add: n_def h_def st_def)
  have inj: "inj_on (lh_block h) {..< n}" using g by (simp add: log_geom_def h_def n_def)
  consider (log) "k \<le> n" | (inst) j where "k = n + 1 + j" "j \<le> n" | (all) "2 * n + 2 \<le> k" by atomize_elim presburger
  then show ?thesis
  proof cases
    case log
    let ?d = "apply_w (writes ?f (\<lambda>k. v (lh_block h k)) k) d"
    have c: "crash k (commit_writes st h v) d = ?d" using log by (simp add: crash_def W take_writes)
    have "?d st = d st" by (rule apply_writes_other) simp
    moreover have "?d b = d b"
    proof (rule apply_writes_other)
      fix i assume "i < k"
      then show "?f i \<noteq> b" using bst(2) [of i] log by simp
    qed
    ultimately show ?thesis
      using log bst empty recovered_empty [of old ?d st] unfolding c by (simp add: st_def n_def)
  next
    case (inst j)
    let ?d = "apply_w (?w2 j) (apply_w (?W1 @ [(st, ?H)]) d)"
    have c: "crash k (commit_writes st h v) d = ?d" using inst by (simp add: crash_def W take_writes)
    have nb: "?d x = apply_w (?W1 @ [(st, ?H)]) d x" if "\<And>i. i < n \<Longrightarrow> lh_block h i \<noteq> x" for x
      using that inst(2) by (intro apply_writes_other) simp
    have hd: "?d st = ?H" using nb [OF hs] by simp
    have lb: "?d (?f i) = v (lh_block h i)" if "i < n" for i
    proof -
      have "?d (?f i) = apply_w (?W1 @ [(st, ?H)]) d (?f i)" using hf that by (intro nb)
      then show ?thesis using apply_writes_same [of ?f n i "\<lambda>k. v (lh_block h k)" d] that by (simp add: inj_on_def)
    qed
    have "recovered st old ?d b = updated h v ?d b"
      using hd lb by (intro recovered_full [OF g]) (auto simp: st_def h_def n_def b)
    moreover have "?d b = d b" if "b \<notin> lh_block h ` {..< n}"
      using that home_apply [OF bst(2) bst(1) [symmetric]] by (subst nb) auto
    ultimately show ?thesis using inst unfolding c by (simp add: updated_def n_def [symmetric])
  next
    case all
    let ?d = "(apply_w (?w2 n) (apply_w (?W1 @ [(st, ?H)]) d))(st := put32 0 0 ?H)"
    have c: "crash k (commit_writes st h v) d = ?d" using all by (simp add: crash_def W)
    have "lh_n (dec_head old (?d st)) = 0" by (simp add: dec_head_def enc)
    moreover have "?d b = updated h v d b"
      using bst(1) home_apply [OF bst(2) bst(1) [symmetric]]
      by (simp add: apply_writes_own [OF inj] updated_def n_def [symmetric])
    ultimately show ?thesis
      using all bst(1) recovered_empty [of old ?d st] unfolding c by (simp add: n_def [symmetric])
  qed
qed

text \<open>The header recovery finds after a crash is empty or the committed one.\<close>

lemma crash_header:
  assumes g: "log_geom sz l" and empty: "lh_n (dec_head old (d (lg_start l))) = 0"
  defines "st \<equiv> lg_start l" and "h \<equiv> lg_lh l"
  shows "lh_n (dec_head old (crash k (commit_writes st h v) d st)) = 0 \<or>
     crash k (commit_writes st h v) d st = head_bytes h (v st)"
proof -
  define n where "n = nat (lh_n h)"
  let ?f = "\<lambda>k. st + k + 1" let ?W1 = "writes ?f (\<lambda>k. v (lh_block h k)) n"
  let ?H = "head_bytes h (v st)" let ?w2 = "writes (lh_block h) (\<lambda>k. v (lh_block h k))"
  have W: "commit_writes st h v = ?W1 @ [(st, ?H)] @ ?w2 n @ [(st, put32 0 0 ?H)]"
    by (simp add: commit_writes_def n_def)
  have hn: "\<And>j. j < n \<Longrightarrow> lh_block h j \<noteq> st"
    using g by (auto simp: n_def h_def st_def log_geom_def log_area_def)
  consider "k \<le> n" | j where "k = n + 1 + j" "j \<le> n" | "2 * n + 2 \<le> k" by atomize_elim presburger
  then show ?thesis
  proof cases
    case 1
    then have "crash k (commit_writes st h v) d st = d st"
      using apply_writes_other [of k ?f st] by (simp add: crash_def W take_writes)
    then show ?thesis using empty by (simp add: st_def)
  next
    case (2 j)
    then have "crash k (commit_writes st h v) d st = ?H"
      using hn apply_writes_other [of j "lh_block h" st] by (simp add: crash_def W take_writes)
    then show ?thesis by simp
  next
    case 3
    then have "crash k (commit_writes st h v) d st = put32 0 0 ?H" by (simp add: crash_def W)
    then show ?thesis by (simp add: dec_head_def enc)
  qed
qed

section \<open>Recording a block in the log\<close>

lemma log_scan_spec:
  "i \<le> log_scan blk b m i \<and> log_scan blk b m i \<le> i + m \<and>
   (log_scan blk b m i < i + m \<longrightarrow> blk (log_scan blk b m i) = b) \<and>
   (\<forall>k. i \<le> k \<longrightarrow> k < log_scan blk b m i \<longrightarrow> blk k \<noteq> b)"
proof (induction m arbitrary: i)
  case 0
  then show ?case by simp
next
  case (Suc m)
  show ?case
  proof (cases "blk i = b")
    case False
    then have "blk k \<noteq> b" if "i \<le> k" "k < log_scan blk b m (i + 1)" for k
      using Suc [of "i + 1"] that by (cases "k = i") auto
    then show ?thesis using Suc [of "i + 1"] False by auto
  qed simp
qed

text \<open>The header after a block has been recorded.\<close>

definition record_block :: "nat \<Rightarrow> logheader \<Rightarrow> logheader" where
  "record_block b h =
     (let i = log_scan (lh_block h) b (nat (lh_n h)) 0
      in if int i = lh_n h then h\<lparr>lh_block := (lh_block h)(i := b), lh_n := lh_n h + 1\<rparr>
         else h\<lparr>lh_block := (lh_block h)(i := b)\<rparr>)"

lemma record_block_spec:
  assumes "0 \<le> lh_n h"
  shows "lh_block (record_block b h) ` {..< nat (lh_n (record_block b h))} = insert b (lh_block h ` {..< nat (lh_n h)})"
    and "lh_n (record_block b h) = lh_n h + (if b \<in> lh_block h ` {..< nat (lh_n h)} then 0 else 1)"
    and "inj_on (lh_block h) {..< nat (lh_n h)} \<Longrightarrow>
         inj_on (lh_block (record_block b h)) {..< nat (lh_n (record_block b h))}"
proof -
  define i where "i = log_scan (lh_block h) b (nat (lh_n h)) 0"
  define n where "n = nat (lh_n h)"
  have i: "i \<le> n" "i < n \<longrightarrow> lh_block h i = b" "\<forall>k < i. lh_block h k \<noteq> b"
    using log_scan_spec [of 0 "lh_block h" b "nat (lh_n h)"] by (auto simp: i_def n_def)
  have r: "record_block b h = (if i = n then h\<lparr>lh_block := (lh_block h)(i := b), lh_n := lh_n h + 1\<rparr>
      else h\<lparr>lh_block := (lh_block h)(i := b)\<rparr>)"
    using assms by (auto simp: record_block_def Let_def i_def n_def)
  have "(lh_block (record_block b h) ` {..< nat (lh_n (record_block b h))} = insert b (lh_block h ` {..< n})) \<and>
    lh_n (record_block b h) = lh_n h + (if b \<in> lh_block h ` {..< n} then 0 else 1) \<and>
    (inj_on (lh_block h) {..< n} \<longrightarrow> inj_on (lh_block (record_block b h)) {..< nat (lh_n (record_block b h))})"
  proof (cases "i = n")
    case True
    have nb: "b \<notin> lh_block h ` {..< n}" using True i(3) by auto
    have "nat (lh_n (record_block b h)) = Suc n" using r True assms by (simp add: n_def nat_add_distrib)
    then show ?thesis using r True nb by (auto simp: lessThan_Suc inj_on_def)
  next
    case False
    then have "(lh_block h)(i := b) = lh_block h" "b \<in> lh_block h ` {..< n}" using i by auto
    then show ?thesis using r False by (auto simp: n_def)
  qed
  then show "lh_block (record_block b h) ` {..< nat (lh_n (record_block b h))} = insert b (lh_block h ` {..< nat (lh_n h)})"
    "lh_n (record_block b h) = lh_n h + (if b \<in> lh_block h ` {..< nat (lh_n h)} then 0 else 1)"
    "inj_on (lh_block h) {..< nat (lh_n h)} \<Longrightarrow>
         inj_on (lh_block (record_block b h)) {..< nat (lh_n (record_block b h))}"
    unfolding n_def [symmetric] by blast+
qed

definition logged :: "log \<Rightarrow> nat set" where
  "logged l = lh_block (lg_lh l) ` {..< nat (lh_n (lg_lh l))}"

text \<open>
  The log invariant: the geometry holds, and the pinned buffers are exactly the blocks
  recorded in the log.
\<close>

definition log_inv :: "kstate \<Rightarrow> bool" where
  "log_inv s \<longleftrightarrow> log_geom (disksize s) (klog s) \<and> pinned s = logged (klog s)"

definition log_write_post :: "kstate \<Rightarrow> nat \<Rightarrow> kstate \<Rightarrow> bool" where
  "log_write_post s b t \<longleftrightarrow> bio_ok t \<and> same_rest s t \<and> bview t = bview s \<and> disk t = disk s \<and> dtrace t = dtrace s \<and>
     pinned t = insert b (pinned s) \<and> busy_block t = busy_block s \<and> hold t = hold s \<and> spare t = spare s \<and>
     klog t = (klog s)\<lparr>lg_lh := record_block b (lg_lh (klog s))\<rparr>"

lemma log_write_twp:
  assumes ok: "bio_ok s" and h: "hold s i b" and out: "1 \<le> lg_outstanding (klog s)"
    and n: "lh_n (lg_lh (klog s)) < int LOGSIZE" "lh_n (lg_lh (klog s)) < int (lg_size (klog s)) - 1"
  shows "twp (log_write i) (\<lambda>_. log_write_post s b) s"
proof -
  have inv: "bc_inv s" "quiet s" using ok by (simp_all add: bio_ok_def)
  have bn: "b_blockno (bufs s ! i) = b" using hold_fields [OF h] by simp
  let ?l = "(klog s)\<lparr>lg_lh := record_block b (lg_lh (klog s))\<rparr>"
  let ?c = "upd_buf i (\<lambda>x. x\<lparr>b_dirty := True\<rparr>) (kbcache s)"
  let ?t = "(cs s)\<lparr>klog := ?l, kbcache := ?c\<rparr>"
  have rel: "release LogLock ((acquired LogLock s)\<lparr>klog := ?l, kbcache := ?c\<rparr>) = Done () ?t"
    using inv(2) by (simp add: release_eq quiet_def released_def acquired_def cs_def free_lock_def fun_upd_idem_iff)
  have "log_write i s = Done () ?t"
    using n out inv(2) rel bn
    by (cases "int (log_scan (lh_block (lg_lh (klog s))) b (nat (lh_n (lg_lh (klog s)))) 0) = lh_n (lg_lh (klog s))")
       (simp_all add: log_write_def bnd_def sq_def gets_def acquire_eq getb_eq setb_eq modlh_eq Let_def whenk_def ret_def
        record_block_def)
  moreover have kb: "kbcache ?t = upd_buf i (\<lambda>_. (bufs s ! i)\<lparr>b_data := bview s b, b_dirty := True\<rparr>) (kbcache s)"
    using hold_fields [OF h] bio_ok_len [OF ok] hold_data [OF ok h] by (simp, intro upd_buf_eqI) simp_all
  have dk: "disk ?t c = disk s c" for c by simp
  note u = held_upd [OF inv(1) h kb dk]
  have "busy_block ?t = busy_block s" "hold ?t = hold s" "bview ?t = bview s" using u(2,4,5) by (auto simp: fun_eq_iff)
  moreover have "bio_ok ?t" "same_rest s ?t" using u(1) ok by (simp_all add: bio_ok_def ptable_ok_def same_rest_def)
  ultimately show ?thesis using u by (simp add: twp_def log_write_post_def)
qed

lemma log_write_inv:
  assumes li: "log_inv s" and p: "log_write_post s b t" and b: "b < disksize s" "b < 4294967296" "b \<notin> log_area (klog s)"
    and n: "lh_n (lg_lh (klog s)) < int LOGSIZE"
  shows "log_inv t" "logged (klog t) = insert b (logged (klog s))"
    "lh_n (lg_lh (klog t)) = lh_n (lg_lh (klog s)) + (if b \<in> logged (klog s) then 0 else 1)"
proof -
  let ?h = "lg_lh (klog s)" let ?r = "record_block b ?h"
  have g: "log_geom (disksize s) (klog s)" "pinned s = logged (klog s)" using li by (simp_all add: log_inv_def)
  have kt: "klog t = (klog s)\<lparr>lg_lh := ?r\<rparr>" "pinned t = insert b (pinned s)" "disksize t = disksize s"
    using p by (auto simp: log_write_post_def same_rest_def)
  have n0: "0 \<le> lh_n ?h" using g(1) by (simp add: log_geom_def)
  note r = record_block_spec [OF n0, of b]
  show lt: "logged (klog t) = insert b (logged (klog s))" using r(1) kt(1) by (simp add: logged_def)
  show "lh_n (lg_lh (klog t)) = lh_n ?h + (if b \<in> logged (klog s) then 0 else 1)" using r(2) kt(1) by (simp add: logged_def)
  have "x < disksize s \<and> x \<notin> log_area (klog s) \<and> x < 4294967296" if "x \<in> logged (klog t)" for x
    using that lt b g(1) by (auto simp: log_geom_def logged_def)
  moreover have "lh_block ?r k \<in> logged (klog t)" if "k < nat (lh_n ?r)" for k
    using that kt(1) by (simp add: logged_def)
  moreover have "0 \<le> lh_n ?r" "lh_n ?r \<le> int LOGSIZE" using r(2) n n0 by auto
  moreover have "inj_on (lh_block ?r) {..< nat (lh_n ?r)}" using r(3) g(1) by (simp add: log_geom_def)
  moreover have "log_area (klog t) = log_area (klog s)" using kt(1) by (simp add: log_area_def)
  ultimately have "log_geom (disksize t) (klog t)"
    using g(1) kt(1,3) unfolding log_geom_def by simp
  then show "log_inv t" using kt(2) lt g(2) by (simp add: log_inv_def)
qed

section \<open>Transactions\<close>

lemma release_cs_klog:
  "quiet s \<Longrightarrow> release lk ((acquired lk s)\<lparr>klog := l\<rparr>) = Done () ((cs s)\<lparr>klog := l\<rparr>)"
  "quiet s \<Longrightarrow> release lk ((acquired lk s)\<lparr>klog := l, ptable := ps\<rparr>) = Done () ((cs s)\<lparr>klog := l, ptable := ps\<rparr>)"
  by (simp_all add: release_eq quiet_def released_def acquired_def cs_def free_lock_def fun_upd_idem_iff)

lemma bio_cs [simp]:
  "bview (cs s) = bview s" "pinned (cs s) = pinned s" "busy_block (cs s) = busy_block s" "spare (cs s) = spare s"
  by (rule bio_cong, simp, simp)+

lemma bio_ptable [simp]:
  "bview (s\<lparr>ptable := ps\<rparr>) = bview s" "pinned (s\<lparr>ptable := ps\<rparr>) = pinned s"
  "busy_block (s\<lparr>ptable := ps\<rparr>) = busy_block s" "spare (s\<lparr>ptable := ps\<rparr>) = spare s"
  by (rule bio_cong, simp, simp)+

lemma idle_cs [simp]: "idle s \<Longrightarrow> idle (cs s)"
  using bio_cong(6) [of "cs s" s] by (simp add: idle_def bio_ok_def ptable_ok_def)

lemma idle_ptable: "idle s \<Longrightarrow> length ps = length (ptable s) \<Longrightarrow> idle (s\<lparr>ptable := ps\<rparr>)"
  using bio_cong(6) [of "s\<lparr>ptable := ps\<rparr>" s] by (simp add: idle_def bio_ok_def ptable_ok_def)

lemma commit_durable:
  assumes id: "idle s" and li: "log_inv s"
  shows "\<exists>t. commit s = Done () t \<and> idle t \<and> pinned t = {} \<and> same_rest s t \<and> log_inv t \<and>
    klog t = (klog s)\<lparr>lg_lh := lg_lh (klog t)\<rparr> \<and> lh_n (lg_lh (klog t)) = 0 \<and>
    (\<forall>b. b \<notin> log_area (klog s) \<longrightarrow> disk t b = bview s b \<and> bview t b = bview s b)"
proof (cases "lh_n (lg_lh (klog s)) = 0")
  case True
  then have "pinned s = {}" using li by (simp add: log_inv_def logged_def)
  moreover from this have "bview s = disk s" using bview_unpinned id by (auto simp: idle_def)
  ultimately show ?thesis using True id li by (simp add: commit_def bnd_def gets_def whenk_def ret_def)
next
  case False
  let ?l = "klog s" let ?h = "lg_lh ?l" let ?st = "lg_start ?l" let ?n = "nat (lh_n ?h)"
  have g: "log_geom (disksize s) ?l" and pin: "pinned s = lh_block ?h ` {..< ?n}"
    using li by (auto simp: log_inv_def logged_def)
  have n: "0 < lh_n ?h" "?n \<le> LOGSIZE" using False g by (auto simp: log_geom_def nat_le_iff)
  have "commit_ready s" using id g pin n by (simp add: commit_ready_def)
  then obtain t where t: "commit s = Done () t" "log_done s (commit_writes ?st ?h (bview s)) (pinned s) t" "pinned t = {}"
    using commit_twp by (auto simp: twp_iff)
  let ?W = "commit_writes ?st ?h (bview s)"
  have up: "apply_w ?W d b = updated ?h (bview s) d b" if "b \<notin> log_area ?l" for d b
  proof -
    have b: "?st \<noteq> b" "\<And>j. j < ?n \<Longrightarrow> ?st + j + 1 \<noteq> b" using that n(2) by (auto simp: log_area_def)
    have "apply_w ?W d b = apply_w (writes (lh_block ?h) (\<lambda>k. bview s (lh_block ?h k)) ?n)
        (apply_w (writes (\<lambda>k. ?st + k + 1) (\<lambda>k. bview s (lh_block ?h k)) ?n @ [(?st, head_bytes ?h (bview s ?st))]) d) b"
      using b(1) by (simp add: commit_writes_def)
    also have "\<dots> = updated ?h (bview s) d b"
      using home_apply [OF b(2,1)] g by (subst apply_writes_own) (auto simp: updated_def log_geom_def)
    finally show ?thesis .
  qed
  have "bview s b = disk s b" if "b \<notin> lh_block ?h ` {..< ?n}" for b
    using that bview_unpinned [of s b] id pin by (simp add: idle_def)
  then have v: "disk t b = bview s b \<and> bview t b = bview s b" if "b \<notin> log_area ?l" for b
    using t(2) up [OF that] by (auto simp: log_done_def updated_def)
  have kt: "klog t = ?l\<lparr>lg_lh := lg_lh (klog t)\<rparr>" "lh_n (lg_lh (klog t)) = 0" "disksize t = disksize s"
    using t(2) by (auto simp: log_done_def same_rest_def)
  have "log_inv t"
    using g kt(2,3) t(2,3) by (simp add: log_inv_def logged_def log_geom_def log_done_def)
  then show ?thesis using t kt(1,2) v unfolding log_done_def by blast
qed

section \<open>Properties\<close>

text \<open>A machine restarted on the disk \<open>d\<close>: empty cache, the log located, nothing recovered yet.\<close>

definition rebooted :: "kstate \<Rightarrow> (nat \<Rightarrow> bytes) \<Rightarrow> kstate \<Rightarrow> bool" where
  "rebooted s d r \<longleftrightarrow> idle r \<and> pinned r = {} \<and> disksize r = disksize s \<and> disk r = d \<and>
     lg_start (klog r) = lg_start (klog s) \<and> lg_dev (klog r) = ROOTDEV"

text \<open>
  C5: Crash atomicity of the log.  Let \<open>commit\<close> run on a transaction of \<open>n\<close> blocks whose
  log was empty on disk, and let the machine stop after any number \<open>k\<close> of the block
  writes the commit makes.  Then recovery on the restarted machine returns, leaves an
  empty log on disk, and gives every block outside the log area the contents it had
  before the transaction if \<open>k \<le> n\<close>, and after the complete commit if \<open>n < k\<close>: never
  a mixture, and a commit that returned is never lost.
\<close>

theorem log_commit_crash_atomic:
  assumes "commit_ready s" and "get32 (disk s (lg_start (klog s))) 0 = 0"
    and "rebooted s (crash k (commit_writes (lg_start (klog s)) (lg_lh (klog s)) (bview s)) (disk s)) r"
  shows "\<exists>t r'. commit s = Done () t \<and>
    dtrace t = dtrace s @ commit_writes (lg_start (klog s)) (lg_lh (klog s)) (bview s) \<and>
    recover_from_log r = Done () r' \<and> get32 (disk r' (lg_start (klog s))) 0 = 0 \<and>
    (\<forall>b. b \<notin> log_area (klog s) \<longrightarrow>
       disk r' b = (if k \<le> nat (lh_n (lg_lh (klog s))) then disk s b else disk t b) \<and> disk t b = bview s b)"
proof -
  let ?l = "klog s" let ?h = "lg_lh ?l" let ?st = "lg_start ?l" let ?V = "bview s"
  let ?W = "commit_writes ?st ?h ?V" let ?old = "lg_lh (klog r)"
  have g: "log_geom (disksize s) ?l" and id: "idle s" and pin: "pinned s = logged ?l"
    using assms(1) by (simp_all add: commit_ready_def logged_def)
  obtain t where t: "commit s = Done () t" "log_done s ?W (pinned s) t"
    using commit_twp [OF assms(1)] by (auto simp: twp_iff)
  have fin: "disk t b = ?V b" if "b \<notin> log_area ?l" for b
    using commit_durable [OF id] g pin t(1) that by (auto simp: log_inv_def)
  have empty: "lh_n (dec_head ?old (disk s ?st)) = 0" using assms(2) by (simp add: dec_head_def sint32_def)
  have hh: "0 \<le> lh_n ?h" "lh_n ?h \<le> int LOGSIZE" "\<And>k. k < nat (lh_n ?h) \<Longrightarrow> lh_block ?h k < 4294967296"
    using g by (auto simp: log_geom_def)
  have r: "idle r" "pinned r = {}" "disksize r = disksize s" "disk r = crash k ?W (disk s)"
    "lg_start (klog r) = ?st" "lg_dev (klog r) = ROOTDEV" using assms(3) by (simp_all add: rebooted_def)
  have vr: "bview r = disk r" using bview_unpinned r(1,2) by (auto simp: idle_def)
  let ?hr = "dec_head ?old (disk r ?st)"
  have "log_geom (disksize r) ((klog r)\<lparr>lg_lh := ?hr\<rparr>)"
  proof (cases "lh_n ?hr = 0")
    case True
    then show ?thesis using g r by (simp add: log_geom_def)
  next
    case False
    then have "disk r ?st = head_bytes ?h (?V ?st)"
      using crash_header [where old = ?old and d = "disk s", OF g empty] r(4) by auto
    then have "lh_n ?hr = lh_n ?h" "\<And>k. k < nat (lh_n ?h) \<Longrightarrow> lh_block ?hr k = lh_block ?h k"
      using dec_head_bytes [OF hh] by auto
    then show ?thesis using g r(3,5,6) by (auto simp: log_geom_def log_area_def inj_on_def)
  qed
  then have "log_geom (disksize r) (klog (after_head r))" using vr r(5) by (simp add: after_head_def)
  then obtain r' where r': "recover_from_log r = Done () r'"
    "log_done r (recover_writes ?st ?hr (disk r)) {} r'"
    using recover_twp [OF r(1,2)] r(5) by (auto simp: twp_iff)
  have dr: "disk r' = recovered ?st ?old (crash k ?W (disk s))"
    using r'(2) r(4) by (simp add: log_done_def recovered_def)
  have "disk r' ?st = put32 0 0 (disk r ?st)"
    using r'(2) by (simp add: log_done_def recover_writes_def)
  then have "get32 (disk r' ?st) 0 = 0" by (simp add: enc)
  moreover have "disk r' b = (if k \<le> nat (lh_n ?h) then disk s b else disk t b)" if "b \<notin> log_area ?l" for b
  proof -
    have "updated ?h ?V (disk s) b = ?V b"
      using bview_unpinned [of s b] id pin by (auto simp: updated_def idle_def logged_def)
    then show ?thesis
      using crash_commit [where old = ?old and d = "disk s" and k = k and v = ?V, OF g empty that] dr fin [OF that] by simp
  qed
  moreover have "dtrace t = dtrace s @ ?W" using t(2) by (simp add: log_done_def)
  ultimately show ?thesis using t(1) r'(1) fin by blast
qed

text \<open>A transaction that has recorded block 100 on a disk of 2000 zero blocks with the log at block 2.\<close>

definition example_log :: log where
  "example_log = \<lparr>lg_start = 2, lg_size = 31, lg_outstanding = 1, lg_committing = False, lg_dev = ROOTDEV,
     lg_lh = \<lparr>lh_n = 0, lh_block = (\<lambda>_. 0)\<rparr>\<rparr>"

lemma log_example:
  "\<exists>s. commit_ready s \<and> log_inv s \<and> disk s = (\<lambda>_. zeros) \<and> disksize s = 2000 \<and> lg_start (klog s) = 2 \<and>
     lg_outstanding (klog s) = 1 \<and> \<not> lg_committing (klog s) \<and> logged (klog s) = {100} \<and>
     lh_n (lg_lh (klog s)) = 1 \<and> ptable_ok s"
proof -
  obtain a where a: "bio_ok a" "disksize a = 2000" "\<forall>b. \<not> busy_block a b" "card (spare a) = NBUF" "pinned a = {}"
    "bview a = (\<lambda>_. zeros)" using boot_example [where d = "\<lambda>_. zeros" and n = 2000] by blast
  let ?s = "a\<lparr>klog := example_log\<rparr>"
  have "disk a = (\<lambda>_. zeros)" using bview_unpinned [OF a(1)] a(3,5,6) by (auto simp: fun_eq_iff)
  then have da: "disk ?s = (\<lambda>_. zeros)" by simp
  have "spare a \<noteq> {}" using a(4) by auto
  then obtain i t where t: "bread_post ?s 100 i t"
    using bread_twp [of ?s 100] a by (auto simp: twp_iff)
  have bt: "bio_ok t" "hold t i 100" "klog t = example_log" "pinned t = {}" "disk t = (\<lambda>_. zeros)" "disksize t = 2000"
    using t a da by (auto simp: bread_post_def same_rest_def)
  obtain u where u: "log_write_post t 100 u"
    using log_write_twp [OF bt(1,2)] bt(3) by (auto simp: twp_iff example_log_def)
  have lt: "log_inv t" using bt by (simp add: log_inv_def logged_def log_geom_def example_log_def)
  have ar: "100 \<notin> log_area (klog t)" using bt(3) by (simp add: log_area_def example_log_def)
  have n: "lh_n (lg_lh (klog t)) < int LOGSIZE" using bt(3) by (simp add: example_log_def)
  have lu: "log_inv u" "logged (klog u) = {100}" "lh_n (lg_lh (klog u)) = 1"
    using log_write_inv [OF lt u _ _ ar n] bt(3,6) by (auto simp: logged_def example_log_def)
  have bu: "bio_ok u" "hold u i 100" "100 \<in> pinned u" "disk u = (\<lambda>_. zeros)" "spare u = spare t" "disksize u = 2000"
    "pinned u = {100}" "busy_block u = busy_block t"
    "klog u = example_log\<lparr>lg_lh := record_block 100 (lg_lh example_log)\<rparr>"
    using u bt by (auto simp: log_write_post_def same_rest_def)
  obtain v where v: "let_go u i 100 v" using brelse_twp [OF bu(1,2)] bu(3) by (auto simp: twp_iff)
  have "card (spare v) = 29" using v bu t a(4,5) by (simp add: let_go_def bread_post_def)
  moreover have "\<not> busy_block v b" for b using v bu(8) t a(3) by (auto simp: let_go_def bread_post_def)
  moreover have kv: "klog v = klog u" "disk v = (\<lambda>_. zeros)" "disksize v = 2000" "pinned v = {100}" "bio_ok v"
    using v bu by (auto simp: let_go_def same_rest_def)
  ultimately have "idle v" by (simp add: idle_def)
  moreover have "log_inv v" using lu(1) kv bu by (simp add: log_inv_def)
  ultimately show ?thesis
    using kv bu(9) lu(2,3) by (intro exI [of _ v]) (auto simp: commit_ready_def log_inv_def logged_def example_log_def bio_ok_def)
qed

lemma reboot_example:
  "lg_start (klog s) = 2 \<Longrightarrow> \<exists>r. rebooted s d r"
proof -
  assume st: "lg_start (klog s) = 2"
  obtain a where a: "bio_ok a" "disksize a = disksize s" "\<forall>b. \<not> busy_block a b" "card (spare a) = NBUF" "pinned a = {}"
    "bview a = d" using boot_example [where d = d and n = "disksize s"] by blast
  have "disk a = d" using bview_unpinned [OF a(1)] a(3,5,6) by (auto simp: fun_eq_iff)
  then have "rebooted s d (a\<lparr>klog := example_log\<rparr>)"
    using a st by (simp add: rebooted_def idle_def example_log_def)
  then show ?thesis by blast
qed

theorem log_commit_crash_atomic_witness:
  "\<exists>s r t r'. commit_ready s \<and> logged (klog s) = {100} \<and> commit s = Done () t \<and>
     rebooted s (crash 2 (commit_writes (lg_start (klog s)) (lg_lh (klog s)) (bview s)) (disk s)) r \<and>
     recover_from_log r = Done () r' \<and> disk r' 100 = bview s 100 \<and> get32 (disk r' 2) 0 = 0"
proof -
  obtain s where s: "commit_ready s" "disk s = (\<lambda>_. zeros)" "lg_start (klog s) = 2" "logged (klog s) = {100}"
    "lh_n (lg_lh (klog s)) = 1" using log_example by blast
  obtain r where r: "rebooted s (crash 2 (commit_writes (lg_start (klog s)) (lg_lh (klog s)) (bview s)) (disk s)) r"
    using reboot_example [OF s(3)] by blast
  have z: "get32 (disk s (lg_start (klog s))) 0 = 0" using s(2) by (simp add: enc)
  have "100 \<notin> log_area (klog s)" "\<not> 2 \<le> nat (lh_n (lg_lh (klog s)))" using s(3,5) by (simp_all add: log_area_def)
  then show ?thesis using log_commit_crash_atomic [OF s(1) z r] s(1,3,4) r by metis
qed

text \<open>
  C6: The last \<open>end_op\<close> makes the transaction durable.  When the only outstanding
  operation ends, \<open>end_op\<close> returns with every block outside the log area on disk as the
  kernel saw it, no buffer pinned, the log empty and open for new operations, and every
  process that waited for the log runnable.
\<close>

theorem end_op_durable:
  assumes "idle s" and "log_inv s" and "lg_outstanding (klog s) = 1" and "\<not> lg_committing (klog s)"
  shows "\<exists>t. end_op s = Done () t \<and> idle t \<and> log_inv t \<and> pinned t = {} \<and> lh_n (lg_lh (klog t)) = 0 \<and>
    lg_outstanding (klog t) = 0 \<and> \<not> lg_committing (klog t) \<and>
    (\<forall>b. b \<notin> log_area (klog s) \<longrightarrow> disk t b = bview s b \<and> bview t b = bview s b) \<and>
    (\<forall>p \<in> set (ptable t). \<not> (p_state p = SLEEPING \<and> p_chan p = Some ChanLog))"
proof -
  have q: "quiet s" "ptable_ok s" using assms(1) by (simp_all add: idle_def bio_ok_def)
  let ?l = "(klog s)\<lparr>lg_outstanding := 0, lg_committing := True\<rparr>"
  let ?s = "(cs s)\<lparr>klog := ?l\<rparr>"
  have ar: "log_area ?l = log_area (klog s)" "log_geom n ?l = log_geom n (klog s)" "logged ?l = logged (klog s)" for n
    by (simp_all add: log_area_def log_geom_def logged_def)
  have id: "idle ?s" using assms(1) by simp
  have li: "log_inv ?s" using assms(2) by (simp add: log_inv_def ar)
  obtain t where t: "commit ?s = Done () t" "idle t" "pinned t = {}" "same_rest ?s t" "log_inv t"
    "klog t = ?l\<lparr>lg_lh := lg_lh (klog t)\<rparr>" "lh_n (lg_lh (klog t)) = 0"
    "\<forall>b. b \<notin> log_area ?l \<longrightarrow> disk t b = bview ?s b \<and> bview t b = bview ?s b"
    using commit_durable [OF id li] by auto
  let ?m = "(klog t)\<lparr>lg_committing := False\<rparr>"
  let ?ps = "map (wake ChanLog) (ptable t)"
  let ?r = "(cs t)\<lparr>klog := ?m, ptable := ?ps\<rparr>"
  have qt: "quiet t" "ptable_ok t" using t(2) by (simp_all add: idle_def bio_ok_def)
  have w: "wakeup ChanLog ((acquired LogLock t)\<lparr>klog := ?m\<rparr>) = Done () ((acquired LogLock t)\<lparr>klog := ?m, ptable := ?ps\<rparr>)"
    using qt by (subst wakeup_inside) (simp_all add: quiet_def free_lock_def ptable_ok_def)
  have e: "end_op s = Done () ?r"
    using q qt t(1) w assms(3,4)
    by (simp add: end_op_def sq_def bnd_def gets_def acquire_eq modlog_def modify_def whenk_def ret_def release_cs_klog)
  have "idle ?r" using idle_ptable [of "cs t\<lparr>klog := ?m\<rparr>" ?ps] t(2) by simp
  moreover have "log_inv ?r" using t(5) by (simp add: log_inv_def log_geom_def log_area_def logged_def)
  moreover have "lg_outstanding (klog t) = 0" using arg_cong [OF t(6), of lg_outstanding] by simp
  moreover have "\<forall>p \<in> set ?ps. \<not> (p_state p = SLEEPING \<and> p_chan p = Some ChanLog)" by (auto simp: wake_def)
  ultimately show ?thesis using e t(3,7,8) by (simp add: ar)
qed

theorem end_op_durable_witness:
  "\<exists>s t. idle s \<and> log_inv s \<and> lg_outstanding (klog s) = 1 \<and> \<not> lg_committing (klog s) \<and> logged (klog s) = {100} \<and>
     end_op s = Done () t \<and> disk t 100 = bview s 100 \<and> lg_outstanding (klog t) = 0"
proof -
  obtain s where s: "commit_ready s" "log_inv s" "lg_start (klog s) = 2" "logged (klog s) = {100}"
    "lg_outstanding (klog s) = 1" "\<not> lg_committing (klog s)" using log_example by blast
  have id: "idle s" using s(1) by (simp add: commit_ready_def)
  have "100 \<notin> log_area (klog s)" using s(3) by (simp add: log_area_def)
  then show ?thesis using end_op_durable [OF id s(2,5,6)] s(2,4,5,6) id by blast
qed

text \<open>
  C7: Admission to the log.  A running process that calls \<open>begin_op\<close> while a commit is in
  progress, or while the blocks already recorded plus \<open>MAXOPBLOCKS\<close> for every
  outstanding operation and itself exceed \<open>LOGSIZE\<close>, goes to sleep on the log with the
  log lock released and nothing reserved.  Otherwise \<open>begin_op\<close> returns with one more
  operation outstanding, and the space of all outstanding operations still fits.
\<close>

theorem begin_op_admission:
  assumes "quiet s" and "ptable_ok s" and "curproc s = Some p" and "p < NPROC"
  shows "if lg_committing (klog s) \<or>
           int LOGSIZE < lh_n (lg_lh (klog s)) + (lg_outstanding (klog s) + 1) * int MAXOPBLOCKS
         then \<exists>t. begin_op s = Switch t \<and> klog t = klog s \<and> \<not> lk_locked (locks t LogLock) \<and>
                p_state (ptable t ! p) = SLEEPING \<and> p_chan (ptable t ! p) = Some ChanLog
         else \<exists>t. begin_op s = Done () t \<and> quiet t \<and>
                lg_outstanding (klog t) = lg_outstanding (klog s) + 1 \<and> lg_lh (klog t) = lg_lh (klog s) \<and>
                lh_n (lg_lh (klog t)) + lg_outstanding (klog t) * int MAXOPBLOCKS \<le> int LOGSIZE"
proof -
  have p: "p < length (ptable s)" using assms(2,4) by (simp add: ptable_ok_def)
  let ?f = "\<lambda>x. x\<lparr>p_chan := Some ChanLog, p_state := SLEEPING\<rparr>"
  let ?t = "(released LogLock (acquired PtableLock (acquired LogLock s)))
    \<lparr>ptable := upd_nth p (\<lambda>x. x\<lparr>p_state := SLEEPING\<rparr>) (upd_nth p (\<lambda>x. x\<lparr>p_chan := Some ChanLog\<rparr>) (ptable s))\<rparr>"
  have c: "\<not> eflags_if (popped (pushed (pushed (kcpu s))))" "ncli (kcpu s) = 0"
    using assms(1) by (simp_all add: popped_def pushed_def quiet_def)
  have "sleep ChanLog (Some LogLock) (acquired LogLock s) = (Switch ?t :: (kstate, unit) outcome)"
    using assms p c
    by (simp add: sleep_def bnd_def sq_def gets_def acquire_eq release_eq whenk_def setp_def getp_def modify_def
        sched_def holding_def myproc_def ret_def switch_away_def quiet_def free_lock_def)
  moreover have "klog ?t = klog s" "\<not> lk_locked (locks ?t LogLock)" "p_state (ptable ?t ! p) = SLEEPING"
    "p_chan (ptable ?t ! p) = Some ChanLog" using p by simp_all
  moreover have "begin_op s = begin_op_loop (acquired LogLock s)"
    using assms(1) by (simp add: begin_op_def sq_def bnd_def acquire_eq)
  moreover have "release LogLock ((acquired LogLock s)\<lparr>klog := l\<rparr>) = Done () ((cs s)\<lparr>klog := l\<rparr>)" for l
    using assms(1) by (rule release_cs_klog)
  ultimately show ?thesis
    using assms(1) by (auto simp: begin_op_loop_def bnd_def sq_def gets_def modlog_def modify_def algebra_simps)
qed

theorem begin_op_admission_witness:
  "(let s = kzero\<lparr>curproc := Some 0\<rparr> in quiet s \<and> ptable_ok s \<and> curproc s = Some 0 \<and> (0 :: nat) < NPROC \<and>
     (\<exists>t. begin_op s = Done () t \<and> lg_outstanding (klog t) = 1))"
proof -
  let ?s = "kzero\<lparr>curproc := Some 0\<rparr>"
  have h: "quiet ?s" "ptable_ok ?s" "curproc ?s = Some 0" "(0 :: nat) < NPROC"
    by (simp_all add: kzero_def zero_cpu_def quiet_def free_lock_def ptable_ok_def)
  have "\<not> (lg_committing (klog ?s) \<or> int LOGSIZE < lh_n (lg_lh (klog ?s)) + (lg_outstanding (klog ?s) + 1) * int MAXOPBLOCKS)"
    "lg_outstanding (klog ?s) = 0" by (simp_all add: kzero_def zero_log_def)
  then show ?thesis using begin_op_admission [OF h] h by auto
qed

text \<open>
  C8: \<open>log_write\<close> keeps the log invariant and absorbs repeated writes.  Inside a
  transaction with space left, \<open>log_write\<close> of a held buffer returns, pins the block in
  the cache, records it once (a block already in the log takes no new slot), and keeps
  the pinned buffers equal to the recorded blocks, which stay distinct.
\<close>

theorem log_write_absorbs:
  assumes "bio_ok s" and "hold s i b" and "log_inv s" and "1 \<le> lg_outstanding (klog s)"
    and "lh_n (lg_lh (klog s)) < int LOGSIZE" and "lh_n (lg_lh (klog s)) < int (lg_size (klog s)) - 1"
    and "b < disksize s" and "b < 2 ^ 32" and "b \<notin> log_area (klog s)"
  shows "\<exists>t. log_write i s = Done () t \<and> log_inv t \<and> logged (klog t) = insert b (logged (klog s)) \<and>
    b \<in> pinned t \<and> bview t = bview s \<and> disk t = disk s \<and>
    lh_n (lg_lh (klog t)) = lh_n (lg_lh (klog s)) + (if b \<in> logged (klog s) then 0 else 1)"
proof -
  obtain t where t: "log_write i s = Done () t" "log_write_post s b t"
    using log_write_twp [OF assms(1,2,4,5,6)] by (auto simp: twp_iff)
  have b: "b < 4294967296" using assms(8) by simp
  show ?thesis
    using t log_write_inv [OF assms(3) t(2) assms(7) b assms(9,5)] by (auto simp: log_write_post_def)
qed

theorem log_write_absorbs_witness:
  "\<exists>s i t. bio_ok s \<and> hold s i 100 \<and> log_inv s \<and> logged (klog s) = {} \<and> log_write i s = Done () t \<and>
     logged (klog t) = {100} \<and> 100 \<in> pinned t"
proof -
  obtain a where a: "bio_ok a" "disksize a = 2000" "\<forall>b. \<not> busy_block a b" "card (spare a) = NBUF" "pinned a = {}"
    using boot_example [where d = "\<lambda>_. zeros" and n = 2000] by blast
  let ?s = "a\<lparr>klog := example_log\<rparr>"
  have "spare a \<noteq> {}" using a(4) by auto
  then obtain i t where t: "bread_post ?s 100 i t" using bread_twp [of ?s 100] a by (auto simp: twp_iff)
  have h: "bio_ok t" "hold t i 100" "klog t = example_log" "pinned t = {}" "disksize t = 2000"
    using t a by (auto simp: bread_post_def same_rest_def)
  have li: "log_inv t" "logged (klog t) = {}"
    using h by (simp_all add: log_inv_def logged_def log_geom_def example_log_def)
  have "\<exists>u. log_write i t = Done () u \<and> logged (klog u) = {100} \<and> 100 \<in> pinned u"
    using log_write_absorbs [OF h(1,2) li(1)] h li by (auto simp: example_log_def log_area_def)
  then show ?thesis using h(1,2) li by blast
qed

end
