(* ===== verification/Console.thy ===== *)
theory Console
  imports Sched
begin

text \<open>
  Console output: \<open>printint\<close>, \<open>cprintf\<close>, \<open>cgaputc\<close> and \<open>consputc\<close> of
  \<open>console.c\<close> over \<open>uartputc\<close> of \<open>uart.c\<close>.  A character is C's \<open>int\<close>; a
  variable argument of \<open>cprintf\<close> is an integer or a string (\<open>None\<close> is a null
  pointer).

  \<open>printint\<close> is shown to print a numeral that reads back as its argument and fits its
  16-byte buffer; \<open>cgaputc\<close> keeps the cursor on the screen and never panics.
\<close>

section \<open>Numbers\<close>

text \<open>
  The \<open>do ... while\<close> of \<open>printint\<close>: the digits of \<open>x\<close>, least significant first.  The
  code calls it with base 10 or 16; for a base below 2 the C loop would not end.
\<close>

function print_digits :: "nat \<Rightarrow> nat \<Rightarrow> nat list" where
  "print_digits base x =
     x mod base # (if x div base \<noteq> 0 \<and> 2 \<le> base then print_digits base (x div base) else [])"
  by pat_completeness auto
termination
proof (relation "measure (\<lambda>(base, x). x)")
  fix base x :: nat
  assume "x div base \<noteq> 0 \<and> 2 \<le> base"
  then show "((base, x div base), base, x) \<in> measure (\<lambda>(base, x). x)" by (cases "x = 0") auto
qed simp

declare print_digits.simps [simp del]

text \<open>\<open>digits[d]\<close> of the string \<open>"0123456789abcdef"\<close>.\<close>

definition digit_char :: "nat \<Rightarrow> int" where
  "digit_char d = (if d < 10 then 48 + int d else 87 + int d)"

definition print_buf :: "(nat \<Rightarrow> int) \<Rightarrow> 32 word \<Rightarrow> nat \<Rightarrow> bool \<Rightarrow> int list" where
  "print_buf dig xx base sign =
     (let neg = sign \<and> xx <s 0;
          x = (if neg then - xx else xx)
      in map dig (print_digits base (unat x)) @ (if neg then [45] else []))"

definition printint :: "32 word \<Rightarrow> nat \<Rightarrow> bool \<Rightarrow> int list" where
  "printint xx base sign = rev (print_buf digit_char xx base sign)"

section \<open>The screen and the serial port\<close>

definition modcons :: "(console \<Rightarrow> console) \<Rightarrow> unit kfun" where
  "modcons f = modify (\<lambda>s. s\<lparr>cons := f (cons s)\<rparr>)"

text \<open>The wait of \<open>uartputc\<close> for the transmitter is bounded and changes nothing.\<close>

definition uartputc :: "int \<Rightarrow> unit kfun" where
  "uartputc c =
     bnd (gets (\<lambda>s. cn_uart_on (cons s))) (\<lambda>on.
     if \<not> on then ret () else modcons (\<lambda>k. k\<lparr>cn_uart := cn_uart k @ [c]\<rparr>))"

abbreviation (input) BACKSPACE :: int where "BACKSPACE \<equiv> 0x100"

definition cga_cell :: "int \<Rightarrow> 16 word" where
  "cga_cell c = (word_of_int c AND 0xff) OR 0x0700"

definition crt_scroll :: "(nat \<Rightarrow> 16 word) \<Rightarrow> int \<Rightarrow> nat \<Rightarrow> 16 word" where
  "crt_scroll crt pos =
     (\<lambda>i. if pos \<le> int i \<and> int i < 24 * 80 then 0
          else if i < 23 * 80 then crt (i + 80) else crt i)"

definition cgaputc :: "int \<Rightarrow> unit kfun" where
  "cgaputc c =
     bnd (gets cons) (\<lambda>k.
     let pos = cn_pos k;
         pos' = (if c = 10 then pos + (80 - pos mod 80)
                 else if c = BACKSPACE then (if 0 < pos then pos - 1 else pos)
                 else pos + 1);
         crt' = (if c = 10 \<or> c = BACKSPACE then cn_crt k else (cn_crt k)(nat pos := cga_cell c))
     in if pos' < 0 \<or> 25 * 80 < pos' then panic ''pos under/overflow''
        else let pos'' = (if 24 \<le> pos' div 80 then pos' - 80 else pos');
                 crt'' = (if 24 \<le> pos' div 80 then crt_scroll crt' pos'' else crt')
             in modcons (\<lambda>k. k\<lparr>cn_pos := pos'', cn_crt := crt''(nat pos'' := cga_cell 32)\<rparr>))"

definition consputc :: "int \<Rightarrow> unit kfun" where
  "consputc c =
     sq (if c = BACKSPACE then sq (uartputc 8) (sq (uartputc 32) (uartputc 8)) else uartputc c)
        (cgaputc c)"

definition consputs :: "int list \<Rightarrow> unit kfun" where
  "consputs xs = forM xs consputc"

section \<open>cprintf\<close>

datatype carg = IntA "32 word" | StrA "int list option"

definition str :: "string \<Rightarrow> int list" where
  "str = map of_char"

text \<open>
  The characters one call prints; \<open>None\<close> where the arguments do not fit the format,
  which C leaves undefined.
\<close>

fun cfmt :: "int list \<Rightarrow> carg list \<Rightarrow> int list option" where
  "cfmt [] as = Some []"
| "cfmt (c # fmt) as =
     (if c = 0 then Some []
      else if c \<noteq> 37 then map_option (Cons c) (cfmt fmt as)
      else case fmt of
        [] \<Rightarrow> Some []
      | d # fmt' \<Rightarrow>
          if d = 0 then Some []
          else if d = 100 then
            (case as of IntA n # as' \<Rightarrow> map_option (\<lambda>o'. printint n 10 True @ o') (cfmt fmt' as') | _ \<Rightarrow> None)
          else if d = 120 \<or> d = 112 then
            (case as of IntA n # as' \<Rightarrow> map_option (\<lambda>o'. printint n 16 False @ o') (cfmt fmt' as') | _ \<Rightarrow> None)
          else if d = 115 then
            (case as of StrA s # as' \<Rightarrow>
               map_option (\<lambda>o'. (case s of None \<Rightarrow> str ''(null)'' | Some x \<Rightarrow> x) @ o') (cfmt fmt' as') | _ \<Rightarrow> None)
          else if d = 37 then map_option (Cons 37) (cfmt fmt' as)
          else map_option (\<lambda>o'. 37 # d # o') (cfmt fmt' as))"

definition cprintf :: "string \<Rightarrow> carg list \<Rightarrow> unit kfun" where
  "cprintf fmt as =
     bnd (gets (\<lambda>s. cn_locking (cons s))) (\<lambda>locking.
     sq (whenk locking (acquire ConsLock))
     (sq (case cfmt (str fmt) as of None \<Rightarrow> panic ''cprintf arguments'' | Some xs \<Rightarrow> consputs xs)
     (whenk locking (release ConsLock))))"

section \<open>Numerals read back\<close>

text \<open>The value of a digit character, and of a numeral with its most significant digit first.\<close>

definition char_digit :: "int \<Rightarrow> int" where
  "char_digit c = (if c < 58 then c - 48 else c - 87)"

definition read_num :: "int \<Rightarrow> int list \<Rightarrow> int" where
  "read_num base xs = foldl (\<lambda>v c. base * v + char_digit c) 0 xs"

definition read_int :: "int \<Rightarrow> int list \<Rightarrow> int" where
  "read_int base xs = (case xs of [] \<Rightarrow> 0 | c # ds \<Rightarrow> if c = 45 then - read_num base ds else read_num base xs)"

lemma char_digit_char [simp]: "char_digit (digit_char d) = int d"
  by (simp add: char_digit_def digit_char_def)

lemma digit_char_minus [simp]: "digit_char d \<noteq> 45"
  by (simp add: digit_char_def)

lemma read_num_digits:
  "2 \<le> base \<Longrightarrow> read_num (int base) (rev (map digit_char (print_digits base x))) = int x"
proof (induction base x rule: print_digits.induct)
  case (1 base x)
  have "int x = int base * int (x div base) + int (x mod base)"
    by (metis mult_div_mod_eq of_nat_add of_nat_mult)
  with 1 show ?case
    by (subst print_digits.simps) (auto simp: read_num_def)
qed

lemma length_print_digits: "2 \<le> base \<Longrightarrow> x < base ^ Suc n \<Longrightarrow> length (print_digits base x) \<le> Suc n"
proof (induction n arbitrary: x)
  case 0
  then show ?case by (subst print_digits.simps) simp
next
  case (Suc n)
  have "x div base < base ^ Suc n"
    using Suc.prems by (intro less_mult_imp_div_less) (simp add: mult.commute)
  then show ?case using Suc.IH [of "x div base"] Suc.prems by (subst print_digits.simps) simp
qed

text \<open>
  C12: \<open>printint\<close> prints what it is given: a signed decimal numeral reads back as the
  argument's \<open>int\<close> value, the most negative one included, an unsigned one in base 16
  as its \<open>uint\<close> value, and neither needs more than 11 of the 16 bytes of \<open>buf\<close>.
\<close>

theorem printint_reads_back:
  "read_int 10 (printint xx 10 True) = sint xx \<and> length (printint xx 10 True) \<le> 11 \<and>
   read_int 16 (printint xx 16 False) = uint xx \<and> length (printint xx 16 False) \<le> 8"
proof (intro conjI)
  have len: "length (print_digits 10 (unat x)) \<le> 10" for x :: "32 word"
    using length_print_digits [of 10 "unat x" 9] unat_32 [of x] by simp
  show "length (printint xx 10 True) \<le> 11"
    using len [of xx] len [of "- xx"] by (auto simp: printint_def print_buf_def Let_def)
  show "length (printint xx 16 False) \<le> 8"
    using length_print_digits [of 16 "unat xx" 7] unat_32 [of xx] by (simp add: printint_def print_buf_def)
  have ne: "rev (map digit_char (print_digits b x)) = c # ds \<Longrightarrow> c \<noteq> 45" for b x c ds
    by (metis digit_char_minus ex_map_conv list.set_intros(1) set_rev)
  have rd: "2 \<le> b \<Longrightarrow> read_int (int b) (rev (map digit_char (print_digits b x))) = int x" for b x
    using read_num_digits [of b x] ne [of b x]
    by (cases "rev (map digit_char (print_digits b x))") (auto simp: read_int_def read_num_def)
  show "read_int 16 (printint xx 16 False) = uint xx"
    using rd [of 16] by (simp add: printint_def print_buf_def)
  show "read_int 10 (printint xx 10 True) = sint xx"
  proof (cases "xx <s 0")
    case True
    then show ?thesis
      using read_num_digits [of 10 "unat (- xx)"]
      by (simp add: printint_def print_buf_def read_int_def uint_uminus_neg)
  next
    case False
    then have "0 \<le> sint xx" by (simp add: word_sless_alt)
    then show ?thesis using False rd [of 10 "unat xx"] uint_32 [of xx] by (auto simp: printint_def print_buf_def sint_32 split: if_splits)
  qed
qed

section \<open>The cursor\<close>

definition screen_ok :: "console \<Rightarrow> bool" where
  "screen_ok k \<longleftrightarrow> 0 \<le> cn_pos k \<and> cn_pos k < 24 * 80"

lemma wp_modcons [wp]:
  "twp (modcons f) Q s = Q () (s\<lparr>cons := f (cons s)\<rparr>)" "wp (modcons f) Q s = Q () (s\<lparr>cons := f (cons s)\<rparr>)"
  by (simp_all add: modcons_def wp)

lemma cgaputc_eq:
  assumes "screen_ok (cons s)"
  shows "\<exists>pos crt. cgaputc c s = Done () (s\<lparr>cons := (cons s)\<lparr>cn_pos := pos, cn_crt := crt\<rparr>\<rparr>) \<and>
    0 \<le> pos \<and> pos < 24 * 80 \<and> (\<forall>i \<ge> 25 * 80. crt i = cn_crt (cons s) i)"
proof -
  let ?k = "cons s"
  define pos where "pos = cn_pos ?k"
  define pos' where "pos' = (if c = 10 then pos + (80 - pos mod 80)
    else if c = BACKSPACE then (if 0 < pos then pos - 1 else pos) else pos + 1)"
  define crt' where "crt' = (if c = 10 \<or> c = BACKSPACE then cn_crt ?k else (cn_crt ?k)(nat pos := cga_cell c))"
  define pos'' where "pos'' = (if 24 \<le> pos' div 80 then pos' - 80 else pos')"
  define crt'' where "crt'' = (if 24 \<le> pos' div 80 then crt_scroll crt' pos'' else crt')"
  have p: "0 \<le> pos" "pos < 1920" using assms by (simp_all add: pos_def screen_ok_def)
  obtain m where m: "pos mod 80 = m" "0 \<le> m" "m < 80" by simp
  have p': "0 \<le> pos'" "pos' < 2000" using p m(2,3) by (simp_all add: pos'_def m(1))
  have "24 \<le> x div 80 \<longleftrightarrow> 1920 \<le> x" for x :: int by presburger
  then have p'': "0 \<le> pos''" "pos'' < 1920" using p' by (auto simp: pos''_def)
  have c': "crt' i = cn_crt ?k i" if "2000 \<le> i" for i using p that by (auto simp: crt'_def)
  have c'': "crt'' i = cn_crt ?k i" if "2000 \<le> i" for i using c' that by (auto simp: crt''_def crt_scroll_def)
  have "cgaputc c s = Done () (s\<lparr>cons := ?k\<lparr>cn_pos := pos'', cn_crt := crt''(nat pos'' := cga_cell 32)\<rparr>\<rparr>)"
    using p' unfolding cgaputc_def bnd_def gets_def Let_def outcome.case
      pos_def [symmetric] pos'_def [symmetric] crt'_def [symmetric] pos''_def [symmetric] crt''_def [symmetric]
    by (simp add: modcons_def modify_def)
  moreover have "(crt''(nat pos'' := cga_cell 32)) i = cn_crt ?k i" if "2000 \<le> i" for i
    using c'' [OF that] p'' that by auto
  ultimately show ?thesis
    using p'' by (intro exI [of _ pos''] exI [of _ "crt''(nat pos'' := cga_cell 32)"]) simp
qed

text \<open>
  C13: the CGA cursor stays on the screen.  From a cursor in the first 24 rows,
  \<open>cgaputc\<close> of any character, newlines, backspaces and scrolling included, returns
  without the panic, leaves the cursor in the first 24 rows and writes no cell beyond
  the 25 rows of the screen.
\<close>

theorem cgaputc_on_screen:
  assumes "screen_ok (cons s)"
  shows "\<exists>k. cgaputc c s = Done () (s\<lparr>cons := k\<rparr>) \<and> screen_ok k \<and>
    (\<forall>i \<ge> 25 * 80. cn_crt k i = cn_crt (cons s) i)"
  using cgaputc_eq [OF assms, of c] by (auto simp: screen_ok_def)

theorem cgaputc_on_screen_witness:
  "screen_ok (cons kzero) \<and> (\<exists>k. cgaputc 10 kzero = Done () (kzero\<lparr>cons := k\<rparr>) \<and> screen_ok k)"
proof -
  have "screen_ok (cons kzero)" by (simp add: screen_ok_def kzero_def)
  then show ?thesis using cgaputc_on_screen [of kzero 10] by blast
qed

text \<open>What printing leaves alone: everything but the devices behind the console.\<close>

definition printed :: "console \<Rightarrow> console \<Rightarrow> bool" where
  "printed k k' \<longleftrightarrow> screen_ok k' \<and> (\<exists>u pos crt. k' = k\<lparr>cn_uart := u, cn_pos := pos, cn_crt := crt\<rparr>)"

lemma printed_trans: "printed k k' \<Longrightarrow> printed k' k'' \<Longrightarrow> printed k k''"
  unfolding printed_def by fastforce

lemma printed_fields:
  "printed k k' \<Longrightarrow> cn_locking k' = cn_locking k \<and> cn_buf k' = cn_buf k \<and> cn_r k' = cn_r k \<and> cn_w k' = cn_w k \<and>
     cn_e k' = cn_e k \<and> cn_shift k' = cn_shift k \<and> cn_uart_on k' = cn_uart_on k \<and> screen_ok k'"
  unfolding printed_def by auto

lemma uartputc_printed:
  "screen_ok (cons s) \<Longrightarrow> \<exists>k. uartputc c s = Done () (s\<lparr>cons := k\<rparr>) \<and> printed (cons s) k"
proof -
  assume "screen_ok (cons s)"
  then have "printed (cons s) ((cons s)\<lparr>cn_uart := u\<rparr>)" for u
    unfolding printed_def screen_ok_def
    by (intro conjI exI [of _ u] exI [of _ "cn_pos (cons s)"] exI [of _ "cn_crt (cons s)"]) simp_all
  from this [of "cn_uart (cons s)"] this [of "cn_uart (cons s) @ [c]"] show ?thesis
    by (cases "cn_uart_on (cons s)")
      (auto simp: uartputc_def bnd_def gets_def modcons_def modify_def ret_def intro: exI [of _ "cons s"])
qed

lemma cgaputc_printed:
  "screen_ok (cons s) \<Longrightarrow> \<exists>k. cgaputc c s = Done () (s\<lparr>cons := k\<rparr>) \<and> printed (cons s) k"
proof -
  assume "screen_ok (cons s)"
  then obtain pos crt where "cgaputc c s = Done () (s\<lparr>cons := (cons s)\<lparr>cn_pos := pos, cn_crt := crt\<rparr>\<rparr>)"
    "0 \<le> pos" "pos < 24 * 80" using cgaputc_eq by blast
  moreover from this have "printed (cons s) ((cons s)\<lparr>cn_pos := pos, cn_crt := crt\<rparr>)"
    unfolding printed_def screen_ok_def
    by (intro conjI exI [of _ "cn_uart (cons s)"] exI [of _ pos] exI [of _ crt]) simp_all
  ultimately show ?thesis by blast
qed

lemma then_printed:
  assumes m: "\<exists>k. m s = Done () (s\<lparr>cons := k\<rparr>) \<and> printed (cons s) k"
    and n: "\<And>s. screen_ok (cons s) \<Longrightarrow> \<exists>k. n s = Done () (s\<lparr>cons := k\<rparr>) \<and> printed (cons s) k"
  shows "\<exists>k. sq m n s = Done () (s\<lparr>cons := k\<rparr>) \<and> printed (cons s) k"
proof -
  obtain k where k: "m s = Done () (s\<lparr>cons := k\<rparr>)" "printed (cons s) k" using m by blast
  then obtain l where "n (s\<lparr>cons := k\<rparr>) = Done () (s\<lparr>cons := l\<rparr>)" "printed k l"
    using n [of "s\<lparr>cons := k\<rparr>"] printed_fields [OF k(2)] by auto
  then show ?thesis using k printed_trans by (auto simp: sq_def bnd_def)
qed

lemma consputc_printed:
  "screen_ok (cons s) \<Longrightarrow> \<exists>k. consputc c s = Done () (s\<lparr>cons := k\<rparr>) \<and> printed (cons s) k"
  unfolding consputc_def
  by (rule then_printed) (auto intro!: then_printed uartputc_printed cgaputc_printed)

lemma consputs_printed:
  "screen_ok (cons s) \<Longrightarrow> \<exists>k. consputs xs s = Done () (s\<lparr>cons := k\<rparr>) \<and> printed (cons s) k"
proof (induction xs arbitrary: s)
  case Nil
  have "printed (cons s) (cons s)"
    using Nil unfolding printed_def by (intro conjI exI [of _ "cn_uart (cons s)"] exI [of _ "cn_pos (cons s)"] exI [of _ "cn_crt (cons s)"]) simp_all
  then show ?case by (intro exI [of _ "cons s"]) (simp add: consputs_def ret_def)
next
  case (Cons x xs)
  have "\<exists>k. sq (consputc x) (consputs xs) s = Done () (s\<lparr>cons := k\<rparr>) \<and> printed (cons s) k"
    by (rule then_printed) (use consputc_printed Cons in auto)
  then show ?case by (simp add: consputs_def)
qed

end
