(* ===== verification/Inode.thy ===== *)
theory Inode
  imports Log Cstring Console
begin

text \<open>
  The lower layers of \<open>fs.c\<close>: the block allocator (\<open>bzero\<close>, \<open>balloc\<close>, \<open>bfree\<close>),
  the inode table on disk (\<open>ialloc\<close>, \<open>iupdate\<close>), the inode cache (\<open>iget\<close>,
  \<open>idup\<close>, \<open>ilock\<close>, \<open>iunlock\<close>, \<open>iput\<close>) and the block map of a file (\<open>bmap\<close>,
  \<open>itrunc\<close>, \<open>stati\<close>).

  A \<open>struct dinode\<close> inside a block is read by \<open>dec_dinode\<close> and written by
  \<open>enc_dinode\<close>, field by field at the offsets gcc gives the structure.
\<close>

section \<open>Blocks\<close>

definition bzero :: "nat \<Rightarrow> nat \<Rightarrow> unit kfun" where
  "bzero dev bno =
     bnd (bread dev bno) (\<lambda>bp.
     bnd (bdata bp) (\<lambda>d.
     sq (set_bdata bp (memset d 0 0 BSIZE))
     (sq (log_write bp)
     (brelse bp))))"

definition BBLOCK :: "nat \<Rightarrow> superblock \<Rightarrow> nat" where
  "BBLOCK b k = b div BPB + sb_bmapstart k"

definition IBLOCK :: "nat \<Rightarrow> superblock \<Rightarrow> nat" where
  "IBLOCK i k = i div IPB + sb_inodestart k"

text \<open>The bit of the free map, and the assignments \<open>|= m\<close> and \<open>&= ~m\<close> on it.\<close>

definition bit_used :: "bytes \<Rightarrow> nat \<Rightarrow> bool" where
  "bit_used d bi = (d (bi div 8) AND push_bit (bi mod 8) 1 \<noteq> 0)"

definition mark_used :: "nat \<Rightarrow> bytes \<Rightarrow> bytes" where
  "mark_used bi d = d(bi div 8 := d (bi div 8) OR push_bit (bi mod 8) 1)"

definition mark_free :: "nat \<Rightarrow> bytes \<Rightarrow> bytes" where
  "mark_free bi d = d(bi div 8 := d (bi div 8) AND NOT (push_bit (bi mod 8) 1))"

text \<open>The inner loop of \<open>balloc\<close>: the first clear bit of a map block, from \<open>bi\<close> on.\<close>

function free_bit :: "bytes \<Rightarrow> nat \<Rightarrow> nat \<Rightarrow> nat \<Rightarrow> nat option" where
  "free_bit d b sz bi =
     (if bi < BPB \<and> b + bi < sz
      then if \<not> bit_used d bi then Some bi else free_bit d b sz (bi + 1)
      else None)"
  by pat_completeness auto
termination by (relation "measure (\<lambda>(d, b, sz, bi). BPB - bi)") auto

declare free_bit.simps [simp del]

text \<open>The outer loop; \<open>n\<close> bounds the map blocks that remain.\<close>

fun balloc_loop :: "nat \<Rightarrow> nat \<Rightarrow> nat \<Rightarrow> nat kfun" where
  "balloc_loop dev b 0 = panic ''balloc: out of blocks''"
| "balloc_loop dev b (Suc n) =
     bnd (gets sb) (\<lambda>k.
     if \<not> b < sb_size k then panic ''balloc: out of blocks''
     else
     bnd (bread dev (BBLOCK b k)) (\<lambda>bp.
     bnd (bdata bp) (\<lambda>d.
     case free_bit d b (sb_size k) 0 of
       Some bi \<Rightarrow>
         sq (set_bdata bp (mark_used bi d))
         (sq (log_write bp)
         (sq (brelse bp)
         (sq (bzero dev (b + bi))
         (ret (b + bi)))))
     | None \<Rightarrow> sq (brelse bp) (balloc_loop dev (b + BPB) n))))"

definition balloc :: "nat \<Rightarrow> nat kfun" where
  "balloc dev = bnd (gets sb) (\<lambda>k. balloc_loop dev 0 (Suc (sb_size k div BPB)))"

definition bfree :: "nat \<Rightarrow> nat \<Rightarrow> unit kfun" where
  "bfree dev b =
     bnd (readsb dev) (\<lambda>k.
     sq (modify (\<lambda>s. s\<lparr>sb := k\<rparr>))
     (bnd (bread dev (BBLOCK b k)) (\<lambda>bp.
     bnd (bdata bp) (\<lambda>d.
     if \<not> bit_used d (b mod BPB) then panic ''freeing free block''
     else sq (set_bdata bp (mark_free (b mod BPB) d))
       (sq (log_write bp)
       (brelse bp))))))"

section \<open>Inodes on disk\<close>

definition dec_dinode :: "bytes \<Rightarrow> nat \<Rightarrow> dinode" where
  "dec_dinode d p =
     \<lparr>di_type = sint16 (get16 d p), di_major = sint16 (get16 d (p + 2)), di_minor = sint16 (get16 d (p + 4)),
      di_nlink = sint16 (get16 d (p + 6)), di_uid = get16 d (p + 8), di_gid = get16 d (p + 10),
      di_mode = get32 d (p + 12), di_size = get32 d (p + 16), di_addrs = (\<lambda>k. get32 d (p + 20 + 4 * k))\<rparr>"

definition put_addrs :: "nat \<Rightarrow> (nat \<Rightarrow> nat) \<Rightarrow> bytes \<Rightarrow> bytes" where
  "put_addrs p a d = fold (\<lambda>k. put32 (p + 4 * k) (a k)) [0 ..< NDIRECT + 1] d"

definition enc_dinode :: "nat \<Rightarrow> dinode \<Rightarrow> bytes \<Rightarrow> bytes" where
  "enc_dinode p di d =
     put_addrs (p + 20) (di_addrs di)
     (put32 (p + 12) (di_mode di)
     (put16 (p + 10) (di_gid di)
     (put16 (p + 8) (di_uid di)
     (put32 (p + 16) (di_size di)
     (put16 (p + 6) (nat16 (di_nlink di))
     (put16 (p + 4) (nat16 (di_minor di))
     (put16 (p + 2) (nat16 (di_major di))
     (put16 p (nat16 (di_type di)) d))))))))"

definition dinode_off :: "nat \<Rightarrow> nat" where
  "dinode_off inum = 64 * (inum mod IPB)"

text \<open>\<open>iinit\<close>; the superblock is announced on the console.\<close>

definition iinit :: "nat \<Rightarrow> unit kfun" where
  "iinit dev =
     sq (initlock IcacheLock)
     (bnd (readsb dev) (\<lambda>k.
     sq (modify (\<lambda>s. s\<lparr>sb := k\<rparr>))
     (cprintf (''sb: size %d nblocks %d ninodes %d nlog %d logstart %d inodestart %d bmap start %d'' @ [CHR 0x0A])
        (map (\<lambda>n. IntA (of_nat n)) [sb_size k, sb_nblocks k, sb_ninodes k, sb_nlog k, sb_logstart k,
           sb_inodestart k, sb_bmapstart k]))))"

section \<open>The inode cache\<close>

definition iget :: "nat \<Rightarrow> nat \<Rightarrow> nat kfun" where
  "iget dev inum =
     sq (acquire IcacheLock)
     (bnd (gets icache) (\<lambda>ic.
     case find_index (\<lambda>ip. 0 < i_ref ip \<and> i_dev ip = dev \<and> i_inum ip = inum) ic of
       Some i \<Rightarrow> sq (seti i (\<lambda>ip. ip\<lparr>i_ref := i_ref ip + 1\<rparr>)) (sq (release IcacheLock) (ret i))
     | None \<Rightarrow>
         (case find_index (\<lambda>ip. i_ref ip = 0) ic of
            None \<Rightarrow> panic ''iget: no inodes''
          | Some i \<Rightarrow>
              sq (seti i (\<lambda>ip. ip\<lparr>i_dev := dev, i_inum := inum, i_ref := 1, i_busy := False, i_valid := False\<rparr>))
              (sq (release IcacheLock) (ret i)))))"

definition idup :: "nat \<Rightarrow> nat kfun" where
  "idup i =
     sq (acquire IcacheLock)
     (sq (seti i (\<lambda>ip. ip\<lparr>i_ref := i_ref ip + 1\<rparr>))
     (sq (release IcacheLock)
     (ret i)))"

fun ialloc_loop :: "nat \<Rightarrow> int \<Rightarrow> nat \<Rightarrow> nat \<Rightarrow> nat kfun" where
  "ialloc_loop dev type inum 0 = panic ''ialloc: no inodes''"
| "ialloc_loop dev type inum (Suc n) =
     bnd (gets sb) (\<lambda>k.
     if \<not> inum < sb_ninodes k then panic ''ialloc: no inodes''
     else
     bnd (bread dev (IBLOCK inum k)) (\<lambda>bp.
     bnd (bdata bp) (\<lambda>d.
     if di_type (dec_dinode d (dinode_off inum)) = 0
     then sq (set_bdata bp (put16 (dinode_off inum) (nat16 type) (memset d (dinode_off inum) 0 64)))
       (sq (log_write bp)
       (sq (brelse bp)
       (iget dev inum)))
     else sq (brelse bp) (ialloc_loop dev type (inum + 1) n))))"

definition ialloc :: "nat \<Rightarrow> int \<Rightarrow> nat kfun" where
  "ialloc dev type = bnd (gets sb) (\<lambda>k. ialloc_loop dev type 1 (sb_ninodes k))"

definition dinode_of :: "inode \<Rightarrow> dinode" where
  "dinode_of ip =
     \<lparr>di_type = i_type ip, di_major = i_major ip, di_minor = i_minor ip, di_nlink = i_nlink ip,
      di_uid = i_uid ip, di_gid = i_gid ip, di_mode = i_mode ip, di_size = i_size ip, di_addrs = i_addrs ip\<rparr>"

definition iupdate :: "nat \<Rightarrow> unit kfun" where
  "iupdate i =
     bnd (geti i) (\<lambda>ip.
     bnd (gets sb) (\<lambda>k.
     bnd (bread (i_dev ip) (IBLOCK (i_inum ip) k)) (\<lambda>bp.
     bnd (bdata bp) (\<lambda>d.
     sq (set_bdata bp (enc_dinode (dinode_off (i_inum ip)) (dinode_of ip) d))
     (sq (log_write bp)
     (brelse bp))))))"

text \<open>
  \<open>ilock\<close>: the wait for \<open>I_BUSY\<close> is \<open>ilock_loop\<close>, which a woken process runs again,
  and the rest reads the inode from disk when it is not valid.
\<close>

definition load_dinode :: "dinode \<Rightarrow> inode \<Rightarrow> inode" where
  "load_dinode di ip =
     ip\<lparr>i_type := di_type di, i_major := di_major di, i_minor := di_minor di, i_nlink := di_nlink di,
        i_size := di_size di, i_uid := di_uid di, i_gid := di_gid di, i_mode := di_mode di,
        i_addrs := (\<lambda>k. if k < NDIRECT + 1 then di_addrs di k else i_addrs ip k)\<rparr>"

definition ilock_read :: "nat \<Rightarrow> unit kfun" where
  "ilock_read i =
     bnd (geti i) (\<lambda>ip.
     if i_valid ip then ret ()
     else
     bnd (gets sb) (\<lambda>k.
     bnd (bread (i_dev ip) (IBLOCK (i_inum ip) k)) (\<lambda>bp.
     bnd (bdata bp) (\<lambda>d.
     let di = dec_dinode d (dinode_off (i_inum ip)) in
     sq (seti i (load_dinode di))
     (sq (brelse bp)
     (sq (seti i (\<lambda>ip. ip\<lparr>i_valid := True\<rparr>))
     (if di_type di = 0 then panic ''ilock: no type'' else ret ())))))))"

definition ilock_loop :: "nat \<Rightarrow> unit kfun" where
  "ilock_loop i =
     bnd (geti i) (\<lambda>ip.
     if i_busy ip then sleep (ChanInode i) (Some IcacheLock)
     else
     sq (seti i (\<lambda>ip. ip\<lparr>i_busy := True\<rparr>))
     (sq (release IcacheLock)
     (ilock_read i)))"

definition ilock :: "nat \<Rightarrow> unit kfun" where
  "ilock i =
     bnd (geti i) (\<lambda>ip.
     if i_ref ip < 1 then panic ''ilock''
     else sq (acquire IcacheLock) (ilock_loop i))"

definition ilock_resume :: "bool \<Rightarrow> nat \<Rightarrow> unit kfun" where
  "ilock_resume en i = sq (sleep_resume en (Some IcacheLock)) (ilock_loop i)"

definition iunlock :: "nat \<Rightarrow> unit kfun" where
  "iunlock i =
     bnd (geti i) (\<lambda>ip.
     if \<not> i_busy ip \<or> i_ref ip < 1 then panic ''iunlock''
     else
     sq (acquire IcacheLock)
     (sq (seti i (\<lambda>ip. ip\<lparr>i_busy := False\<rparr>))
     (sq (wakeup (ChanInode i))
     (release IcacheLock))))"

section \<open>The block map of a file\<close>

definition set_addr :: "nat \<Rightarrow> nat \<Rightarrow> nat \<Rightarrow> unit kfun" where
  "set_addr i k v = seti i (\<lambda>ip. ip\<lparr>i_addrs := (i_addrs ip)(k := v)\<rparr>)"

text \<open>\<open>if((addr = ip->addrs[k]) == 0) ip->addrs[k] = addr = balloc(ip->dev)\<close>\<close>

definition addr_or_alloc :: "nat \<Rightarrow> nat \<Rightarrow> nat kfun" where
  "addr_or_alloc i k =
     bnd (geti i) (\<lambda>ip.
     if i_addrs ip k = 0
     then bnd (balloc (i_dev ip)) (\<lambda>a. sq (set_addr i k a) (ret a))
     else ret (i_addrs ip k))"

definition bmap :: "nat \<Rightarrow> nat \<Rightarrow> nat kfun" where
  "bmap i bn =
     (if bn < NDIRECT then addr_or_alloc i bn
      else if bn - NDIRECT < NINDIRECT then
        bnd (addr_or_alloc i NDIRECT) (\<lambda>addr.
        bnd (geti i) (\<lambda>ip.
        bnd (bread (i_dev ip) addr) (\<lambda>bp.
        bnd (bdata bp) (\<lambda>d.
        let n = bn - NDIRECT in
        if get32 d (4 * n) = 0
        then bnd (balloc (i_dev ip)) (\<lambda>a.
          bnd (bdata bp) (\<lambda>d.
          sq (set_bdata bp (put32 (4 * n) a d))
          (sq (log_write bp)
          (sq (brelse bp)
          (ret a)))))
        else sq (brelse bp) (ret (get32 d (4 * n)))))))
      else panic ''bmap: out of range'')"

definition itrunc :: "nat \<Rightarrow> unit kfun" where
  "itrunc i =
     sq (forM [0 ..< NDIRECT] (\<lambda>k.
          bnd (geti i) (\<lambda>ip.
          whenk (i_addrs ip k \<noteq> 0)
            (sq (bfree (i_dev ip) (i_addrs ip k)) (set_addr i k 0)))))
     (sq (bnd (geti i) (\<lambda>ip.
          whenk (i_addrs ip NDIRECT \<noteq> 0)
            (bnd (bread (i_dev ip) (i_addrs ip NDIRECT)) (\<lambda>bp.
            sq (forM [0 ..< NINDIRECT] (\<lambda>j.
                 bnd (bdata bp) (\<lambda>d.
                 whenk (get32 d (4 * j) \<noteq> 0) (bfree (i_dev ip) (get32 d (4 * j))))))
            (sq (brelse bp)
            (sq (bfree (i_dev ip) (i_addrs ip NDIRECT))
            (set_addr i NDIRECT 0)))))))
     (sq (seti i (\<lambda>ip. ip\<lparr>i_size := 0\<rparr>))
     (iupdate i)))"

definition iput :: "nat \<Rightarrow> unit kfun" where
  "iput i =
     sq (acquire IcacheLock)
     (bnd (geti i) (\<lambda>ip.
     sq (whenk (i_ref ip = 1 \<and> i_valid ip \<and> i_nlink ip = 0)
          (if i_busy ip then panic ''iput busy''
           else
           sq (seti i (\<lambda>ip. ip\<lparr>i_busy := True\<rparr>))
           (sq (release IcacheLock)
           (sq (itrunc i)
           (sq (seti i (\<lambda>ip. ip\<lparr>i_type := 0\<rparr>))
           (sq (iupdate i)
           (sq (acquire IcacheLock)
           (sq (seti i (\<lambda>ip. ip\<lparr>i_busy := False, i_valid := False\<rparr>))
           (wakeup (ChanInode i))))))))))
     (sq (seti i (\<lambda>ip. ip\<lparr>i_ref := i_ref ip - 1\<rparr>))
     (release IcacheLock))))"

definition iunlockput :: "nat \<Rightarrow> unit kfun" where
  "iunlockput i = sq (iunlock i) (iput i)"

definition stati :: "nat \<Rightarrow> stat kfun" where
  "stati i =
     bnd (geti i) (\<lambda>ip.
     ret \<lparr>st_type = i_type ip, st_dev = i_dev ip, st_ino = i_inum ip, st_nlink = i_nlink ip,
          st_size = i_size ip, st_mode = i_mode ip, st_uid = i_uid ip, st_gid = i_gid ip\<rparr>)"

end
