(* ===== verification/Procdump.thy ===== *)
theory Procdump
  imports Console Cstring
begin

text \<open>
  The listings of \<open>proc.c\<close>: \<open>procdump\<close>, which Control-P prints on the console, and
  \<open>getprocs\<close>, which copies the process table for user programs.  The saved kernel
  stacks that \<open>procdump\<close> walks are not part of the state: their words are the argument
  \<open>ld\<close> of the walk.
\<close>

section \<open>Definitions\<close>

definition states :: "procstate \<Rightarrow> string" where
  "states st =
     (case st of UNUSED \<Rightarrow> ''unused'' | EMBRYO \<Rightarrow> ''embryo'' | SLEEPING \<Rightarrow> ''sleep ''
      | RUNNABLE \<Rightarrow> ''runble'' | RUNNING \<Rightarrow> ''run   '' | ZOMBIE \<Rightarrow> ''zombie'')"

abbreviation (input) TAB :: string where "TAB \<equiv> [CHR 0x09]"
abbreviation (input) NL :: string where "NL \<equiv> [CHR 0x0A]"

definition chars :: "byte list \<Rightarrow> int list" where
  "chars = map uint"

text \<open>A number of milliseconds below 1000, printed with three digits.\<close>

definition pad3 :: "32 word \<Rightarrow> unit kfun" where
  "pad3 i =
     sq (whenk (i <s 100) (cprintf ''0'' []))
        (whenk (i <s 10) (cprintf ''0'' []))"

text \<open>Division and remainder of a C \<open>int\<close> by a positive constant, which round towards zero.\<close>

definition sdiv32 :: "32 word \<Rightarrow> 32 word \<Rightarrow> 32 word" where
  "sdiv32 a n = (if a <s 0 then - ((- a) div n) else a div n)"

definition smod32 :: "32 word \<Rightarrow> 32 word \<Rightarrow> 32 word" where
  "smod32 a n = (if a <s 0 then - ((- a) mod n) else a mod n)"

text \<open>
  One line of the listing.  A process other than the first without a parent makes the C
  code read through a null pointer; the model panics.
\<close>

definition procdump_line :: "(32 word \<Rightarrow> 32 word) \<Rightarrow> nat \<Rightarrow> unit kfun" where
  "procdump_line ld j =
     bnd (getp j) (\<lambda>p.
     if p_state p = UNUSED then ret ()
     else
     bnd (gets ticks) (\<lambda>now.
     let i = (now - p_start_ticks p) mod 1000 in
     sq (cprintf (''%d'' @ TAB @ ''%s'' @ TAB @ ''%d'' @ TAB @ ''%d'')
          [IntA (p_pid p), StrA (Some (chars (p_name p))), IntA (p_uid p), IntA (p_gid p)])
     (sq (if p_pid p = 1 then cprintf (TAB @ ''%d'') [IntA (p_pid p)]
          else case p_parent p of None \<Rightarrow> panic ''null parent''
            | Some q \<Rightarrow> bnd (getp q) (\<lambda>pp. cprintf (TAB @ ''%d'') [IntA (p_pid pp)]))
     (sq (cprintf (TAB @ ''%d.'') [IntA ((now - p_start_ticks p) div 1000)])
     (sq (pad3 i)
     (sq (cprintf ''%d'' [IntA i])
     (let t = p_cpu_ticks_total p; q = sdiv32 t 1000; r = smod32 t 1000 in
     sq (cprintf (TAB @ ''%d.'') [IntA q])
     (sq (pad3 r)
     (sq (cprintf (''%d'' @ TAB @ ''%s'' @ TAB @ ''%d'' @ TAB)
          [IntA r, StrA (Some (str (states (p_state p)))), IntA (p_sz p)])
     (sq (whenk (p_state p = SLEEPING)
          (forM (takeWhile (\<lambda>pc. pc \<noteq> 0) (getcallerpcs ld (ld (p_context p + 12) + 8)))
             (\<lambda>pc. cprintf '' %p'' [IntA pc])))
     (cprintf NL [])))))))))))"

definition procdump :: "(32 word \<Rightarrow> 32 word) \<Rightarrow> unit kfun" where
  "procdump ld =
     sq (cprintf (NL @ ''PID'' @ TAB @ ''Name'' @ TAB @ ''UID'' @ TAB @ ''GID'' @ TAB @ ''PPID'' @ TAB @
          ''Elapsed'' @ TAB @ ''CPU'' @ TAB @ ''State'' @ TAB @ ''Size'' @ TAB @ '' PCs'' @ NL) [])
     (forM [0 ..< NPROC] (procdump_line ld))"

text \<open>\<open>struct uproc\<close>, with its two strings as the characters before the terminating zero.\<close>

record uproc =
  u_pid :: "32 word"
  u_uid :: "32 word"
  u_gid :: "32 word"
  u_ppid :: "32 word"
  u_elapsed_ticks :: "32 word"
  u_CPU_total_ticks :: "32 word"
  u_state :: "byte list"
  u_size :: "32 word"
  u_name :: "byte list"
  u_priority :: "32 word"

text \<open>The string \<open>safestrcpy\<close> leaves in a field of \<open>n\<close> bytes.\<close>

definition safestr :: "nat \<Rightarrow> byte list \<Rightarrow> byte list" where
  "safestr n xs = take (n - 1) (takeWhile (\<lambda>c. c \<noteq> 0) xs)"

definition bytestr :: "string \<Rightarrow> byte list" where
  "bytestr = map of_char"

definition uproc_of :: "kstate \<Rightarrow> proc \<Rightarrow> uproc" where
  "uproc_of s p =
     \<lparr>u_pid = p_pid p, u_uid = p_uid p, u_gid = p_gid p,
      u_ppid = (case p_parent p of Some q \<Rightarrow> p_pid (ptable s ! q) | None \<Rightarrow> p_pid p),
      u_elapsed_ticks = ticks s - p_start_ticks p, u_CPU_total_ticks = p_cpu_ticks_total p,
      u_state = safestr 32 (bytestr (states (p_state p))), u_size = p_sz p,
      u_name = safestr 16 (p_name p), u_priority = p_priority p\<rparr>"

text \<open>The loop of \<open>getprocs\<close>: \<open>i\<close> entries are filled and \<open>js\<close> are the slots to visit.\<close>

fun getprocs_loop :: "kstate \<Rightarrow> int \<Rightarrow> int \<Rightarrow> nat list \<Rightarrow> uproc list" where
  "getprocs_loop s mx i [] = []"
| "getprocs_loop s mx i (j # js) =
     (if i < mx
      then let p = ptable s ! j in
        if p_state p \<noteq> UNUSED \<and> p_state p \<noteq> EMBRYO
        then uproc_of s p # getprocs_loop s mx (i + 1) js
        else getprocs_loop s mx i js
      else [])"

text \<open>The entries written to \<open>proctable\<close>; the C function returns their number.\<close>

definition getprocs :: "int \<Rightarrow> uproc list kfun" where
  "getprocs mx =
     sq (acquire PtableLock)
     (bnd (gets (\<lambda>s. getprocs_loop s mx 0 [0 ..< NPROC])) (\<lambda>us.
     sq (release PtableLock)
     (ret us)))"

section \<open>What getprocs returns\<close>

lemma uproc_of_acquired [simp]: "uproc_of (acquired lk s) = uproc_of s"
  by (auto simp: uproc_of_def split: option.split)

lemma getprocs_loop_eq:
  "getprocs_loop s mx i js =
     take (nat (mx - i)) (map (\<lambda>j. uproc_of s (ptable s ! j))
       (filter (\<lambda>j. p_state (ptable s ! j) \<notin> {UNUSED, EMBRYO}) js))"
proof (induction js arbitrary: i)
  case (Cons j js)
  show ?case
  proof (cases "i < mx")
    case True
    then have "nat (mx - i) = Suc (nat (mx - (i + 1)))" by simp
    with True Cons.IH show ?thesis by (simp add: Let_def)
  qed simp
qed simp

text \<open>
  C14: \<open>getprocs\<close> reports the first \<open>max\<close> processes in use, in table order: entry by
  entry the snapshot of the slots that are neither free nor being created, never more
  than \<open>max\<close> of them and none for a \<open>max\<close> that is zero or negative.  The process
  table is not changed.
\<close>

theorem getprocs_snapshot:
  assumes "quiet s" and "ptable_ok s"
  shows "\<exists>t. getprocs mx s =
      Done (take (nat mx) (map (uproc_of s) (filter (\<lambda>p. p_state p \<notin> {UNUSED, EMBRYO}) (ptable s)))) t \<and>
    ptable t = ptable s \<and> quiet t"
proof -
  have "map (\<lambda>j. uproc_of s (ptable s ! j)) (filter (\<lambda>j. p_state (ptable s ! j) \<notin> {UNUSED, EMBRYO}) [0 ..< NPROC]) =
    map (uproc_of s) (filter (\<lambda>p. p_state p \<notin> {UNUSED, EMBRYO}) (map ((!) (ptable s)) [0 ..< NPROC]))"
    by (simp add: filter_map comp_def del: upt_rec_numeral)
  also have "map ((!) (ptable s)) [0 ..< NPROC] = ptable s"
    using assms(2) map_nth [of "ptable s"] unfolding ptable_ok_def by simp
  finally have l: "getprocs_loop (acquired PtableLock s) mx 0 [0 ..< NPROC] =
     take (nat mx) (map (uproc_of s) (filter (\<lambda>p. p_state p \<notin> {UNUSED, EMBRYO}) (ptable s)))"
    by (simp add: getprocs_loop_eq del: upt_rec_numeral)
  have "ncli (kcpu s) = 0" using assms(1) by (simp add: quiet_def)
  then show ?thesis
    using assms(1) l by (simp add: getprocs_def sq_def bnd_def gets_def acquire_eq release_eq ret_def quiet_released)
qed

theorem getprocs_snapshot_witness:
  "(let s = kzero\<lparr>ptable := upd_nth 3 (\<lambda>p. p\<lparr>p_state := RUNNABLE, p_pid := 7\<rparr>) (ptable kzero)\<rparr> in
     quiet s \<and> ptable_ok s \<and> (\<exists>t us. getprocs 5 s = Done us t \<and> map u_pid us = [7]))"
proof -
  let ?s = "kzero\<lparr>ptable := upd_nth 3 (\<lambda>p. p\<lparr>p_state := RUNNABLE, p_pid := 7\<rparr>) (ptable kzero)\<rparr>"
  have h: "quiet ?s" "ptable_ok ?s"
    by (simp_all add: quiet_def free_lock_def kzero_def zero_cpu_def ptable_ok_def)
  have "ptable ?s = replicate 3 zero_proc @ zero_proc\<lparr>p_state := RUNNABLE, p_pid := 7\<rparr> # replicate 60 zero_proc"
    by (simp add: kzero_def upd_nth_def numeral_eq_Suc)
  then have "filter (\<lambda>p. p_state p \<notin> {UNUSED, EMBRYO}) (ptable ?s) = [zero_proc\<lparr>p_state := RUNNABLE, p_pid := 7\<rparr>]"
    by (simp add: zero_proc_def)
  then show ?thesis using getprocs_snapshot [OF h, of 5] h by (auto simp: uproc_of_def Let_def)
qed

end
