(* ===== verification/Consdev.thy ===== *)
theory Consdev
  imports Ring Inode Procdump
begin

text \<open>
  Console input and the console device: \<open>consoleintr\<close>, \<open>consoleread\<close>, \<open>consolewrite\<close>
  and \<open>consoleinit\<close> of \<open>console.c\<close>, the keyboard of \<open>kbd.c\<close> with its tables of
  \<open>kbd.h\<close>, and the serial port's input of \<open>uart.c\<close>.

  The device behind a \<open>getc\<close> function is a list of what its ports hold at each call.
  The line discipline is refined to an abstract editor: a queue of committed
  characters and the line being edited.
\<close>

section \<open>Interrupts\<close>

abbreviation (input) INPUT_BUF :: nat where "INPUT_BUF \<equiv> 128"

definition backspace :: "unit kfun" where
  "backspace = sq (modcons (\<lambda>k. k\<lparr>cn_e := cn_e k - 1\<rparr>)) (consputc BACKSPACE)"

text \<open>Control-U; \<open>n\<close> is the number of characters between the two indices.\<close>

fun kill_line :: "nat \<Rightarrow> unit kfun" where
  "kill_line 0 = ret ()"
| "kill_line (Suc n) =
     bnd (gets cons) (\<lambda>k.
     if cn_e k \<noteq> cn_w k \<and> cn_buf k (unat (cn_e k - 1) mod INPUT_BUF) \<noteq> 10
     then sq backspace (kill_line n)
     else ret ())"

text \<open>The \<open>switch\<close> of \<open>consoleintr\<close>; the result tells whether \<open>doprocdump\<close> is set.\<close>

definition cons_key :: "int \<Rightarrow> bool kfun" where
  "cons_key c =
     (if c = 16 then ret True
      else if c = 21 then
        bnd (gets cons) (\<lambda>k. sq (kill_line (unat (cn_e k - cn_w k))) (ret False))
      else if c = 8 \<or> c = 127 then
        bnd (gets cons) (\<lambda>k. sq (whenk (cn_e k \<noteq> cn_w k) backspace) (ret False))
      else
        bnd (gets cons) (\<lambda>k.
        if c \<noteq> 0 \<and> cn_e k - cn_r k < 128 then
          let c' = (if c = 13 then 10 else c) in
          sq (modcons (\<lambda>k. k\<lparr>cn_buf := (cn_buf k)(unat (cn_e k) mod INPUT_BUF := word_of_int c'), cn_e := cn_e k + 1\<rparr>))
          (sq (consputc c')
          (bnd (gets cons) (\<lambda>k.
          if c' = 10 \<or> c' = 4 \<or> cn_e k = cn_r k + 128
          then sq (modcons (\<lambda>k. k\<lparr>cn_w := cn_e k\<rparr>)) (sq (wakeup ChanInput) (ret False))
          else ret False)))
        else ret False))"

fun consoleintr_loop :: "int kfun list \<Rightarrow> bool \<Rightarrow> bool kfun" where
  "consoleintr_loop [] d = ret d"
| "consoleintr_loop (getc # gs) d =
     bnd getc (\<lambda>c.
     if c < 0 then ret d
     else bnd (cons_key c) (\<lambda>p. consoleintr_loop gs (d \<or> p)))"

definition consoleintr :: "(32 word \<Rightarrow> 32 word) \<Rightarrow> int kfun list \<Rightarrow> unit kfun" where
  "consoleintr ld gs =
     sq (acquire ConsLock)
     (bnd (consoleintr_loop gs False) (\<lambda>doprocdump.
     sq (release ConsLock)
     (whenk doprocdump (procdump ld))))"

section \<open>The console device\<close>

text \<open>
  \<open>consoleread\<close>: the characters for \<open>dst\<close>, or \<open>None\<close> for the result \<open>-1\<close>.  A woken
  process continues with \<open>consoleread_loop\<close>.
\<close>

definition consoleread_done :: "nat \<Rightarrow> byte list \<Rightarrow> byte list option kfun" where
  "consoleread_done i acc = sq (release ConsLock) (sq (ilock i) (ret (Some acc)))"

fun consoleread_loop :: "nat \<Rightarrow> nat \<Rightarrow> nat \<Rightarrow> byte list \<Rightarrow> byte list option kfun" where
  "consoleread_loop i target 0 acc = consoleread_done i acc"
| "consoleread_loop i target (Suc n) acc =
     bnd (gets cons) (\<lambda>k.
     if cn_r k = cn_w k then
       bnd myproc (\<lambda>j. bnd (getp j) (\<lambda>p.
       if p_killed p then sq (release ConsLock) (sq (ilock i) (ret None))
       else sleep ChanInput (Some ConsLock)))
     else
       let c = cn_buf k (unat (cn_r k) mod INPUT_BUF) in
       sq (modcons (\<lambda>k. k\<lparr>cn_r := cn_r k + 1\<rparr>))
       (if c = 4 then
          sq (whenk (Suc n < target) (modcons (\<lambda>k. k\<lparr>cn_r := cn_r k - 1\<rparr>)))
             (consoleread_done i acc)
        else if c = 10 then consoleread_done i (acc @ [c])
        else consoleread_loop i target n (acc @ [c])))"

definition consoleread :: "nat \<Rightarrow> nat \<Rightarrow> byte list option kfun" where
  "consoleread i n = sq (iunlock i) (sq (acquire ConsLock) (consoleread_loop i n n []))"

definition consolewrite :: "nat \<Rightarrow> byte list \<Rightarrow> int kfun" where
  "consolewrite i src =
     sq (iunlock i)
     (sq (acquire ConsLock)
     (sq (forM src (\<lambda>c. consputc (uint c)))
     (sq (release ConsLock)
     (sq (ilock i)
     (ret (int (length src)))))))"

abbreviation (input) CONSOLE :: int where "CONSOLE \<equiv> 1"

text \<open>\<open>consoleinit\<close>; the interrupt controllers it programs are not part of the state.\<close>

definition consoleinit :: "unit kfun" where
  "consoleinit =
     sq (initlock ConsLock)
     (sq (modify (\<lambda>s. s\<lparr>devsw := (devsw s)(CONSOLE := True)\<rparr>))
     (modcons (\<lambda>k. k\<lparr>cn_locking := True\<rparr>)))"

section \<open>The line discipline\<close>

interpretation cons_ring: ring 128
  by unfold_locales auto

text \<open>The characters that can be read, and the line being edited.\<close>

definition committed :: "console \<Rightarrow> byte list" where
  "committed k = queued INPUT_BUF (cn_buf k) (cn_r k) (cn_w k)"

definition editing :: "console \<Rightarrow> byte list" where
  "editing k = queued INPUT_BUF (cn_buf k) (cn_w k) (cn_e k)"

definition input_ok :: "console \<Rightarrow> bool" where
  "input_ok k \<longleftrightarrow> unat (cn_w k - cn_r k) \<le> unat (cn_e k - cn_r k) \<and> unat (cn_e k - cn_r k) \<le> INPUT_BUF"

text \<open>The editor a terminal promises, on the two lists.\<close>

definition erase_line :: "byte list \<Rightarrow> byte list" where
  "erase_line l = rev (dropWhile (\<lambda>c. c \<noteq> 10) (rev l))"

fun edit :: "byte list \<times> byte list \<Rightarrow> int \<Rightarrow> byte list \<times> byte list" where
  "edit (q, l) c =
     (if c = 16 then (q, l)
      else if c = 21 then (q, erase_line l)
      else if c = 8 \<or> c = 127 then (q, butlast l)
      else if c \<noteq> 0 \<and> length q + length l < INPUT_BUF then
        let c' = (if c = 13 then 10 else c); l' = l @ [word_of_int c'] in
        if c' = 10 \<or> c' = 4 \<or> length q + length l' = INPUT_BUF then (q @ l', []) else (q, l')
      else (q, l))"

declare edit.simps [simp del]

lemma input_split:
  "input_ok k \<Longrightarrow> queued INPUT_BUF (cn_buf k) (cn_r k) (cn_e k) = committed k @ editing k"
  unfolding input_ok_def committed_def editing_def by (intro cons_ring.queued_split) simp

lemma input_length: "input_ok k \<Longrightarrow> unat (cn_e k - cn_r k) = length (committed k) + length (editing k)"
  using arg_cong [OF input_split, of k length] by simp

lemma editing_empty: "cn_e k = cn_w k \<longleftrightarrow> editing k = []"
  by (auto simp: editing_def queued_Nil)

text \<open>The two changes of the indices: one character off, one character on.\<close>

definition rub :: "console \<Rightarrow> console" where
  "rub k = k\<lparr>cn_e := cn_e k - 1\<rparr>"

definition typed :: "byte \<Rightarrow> console \<Rightarrow> console" where
  "typed b k = k\<lparr>cn_buf := (cn_buf k)(unat (cn_e k) mod INPUT_BUF := b), cn_e := cn_e k + 1\<rparr>"

lemma rub_spec:
  assumes "input_ok k" and "editing k \<noteq> []"
  shows "input_ok (rub k)" "committed (rub k) = committed k" "editing (rub k) = butlast (editing k)"
proof -
  have ne: "cn_e k \<noteq> cn_w k" using assms(2) editing_empty by blast
  show q: "committed (rub k) = committed k" by (simp add: committed_def rub_def)
  show e: "editing (rub k) = butlast (editing k)"
    using cons_ring.queued_unput [OF ne, of "cn_buf k"] by (simp add: editing_def rub_def)
  have "0 < unat (cn_e k - cn_r k)" using input_length [OF assms(1)] assms(2) by simp
  then have "cn_e k \<noteq> cn_r k" by auto
  then have "unat (cn_e k - cn_r k) = Suc (unat (cn_e k - 1 - cn_r k))"
    using unat_minus_Suc [of "cn_e k" "cn_r k"] by (simp add: algebra_simps)
  moreover have "length (committed k) < unat (cn_e k - cn_r k)"
    using input_length [OF assms(1)] assms(2) by simp
  ultimately show "input_ok (rub k)"
    using assms(1) by (simp add: input_ok_def rub_def committed_def)
qed

lemma typed_spec:
  assumes "input_ok k" and "length (committed k) + length (editing k) < INPUT_BUF"
  shows "input_ok (typed b k)" "committed (typed b k) = committed k" "editing (typed b k) = editing k @ [b]"
proof -
  have n: "unat (cn_e k - cn_r k) < 128" using input_length [OF assms(1)] assms(2) by simp
  have S: "unat (cn_e k + 1 - cn_r k) = Suc (unat (cn_e k - cn_r k))"
    using n by (intro unat_plus_one) simp
  then show ok: "input_ok (typed b k)" using assms(1) n by (simp add: input_ok_def typed_def)
  have "queued 128 (cn_buf (typed b k)) (cn_r k) (cn_e k + 1) = committed k @ editing k @ [b]"
    using cons_ring.queued_put [OF n, of "cn_buf k" b] input_split [OF assms(1)] by (simp add: typed_def)
  moreover have "queued 128 (cn_buf (typed b k)) (cn_r k) (cn_e k + 1) = committed (typed b k) @ editing (typed b k)"
    using input_split [OF ok] by (simp add: typed_def)
  moreover have "length (committed (typed b k)) = length (committed k)" by (simp add: committed_def typed_def)
  ultimately show "committed (typed b k) = committed k" "editing (typed b k) = editing k @ [b]" by simp_all
qed

definition commit_line :: "console \<Rightarrow> console" where
  "commit_line k = k\<lparr>cn_w := cn_e k\<rparr>"

lemma commit_line_spec:
  assumes "input_ok k"
  shows "input_ok (commit_line k)" "committed (commit_line k) = committed k @ editing k" "editing (commit_line k) = []"
  using assms input_split [OF assms] by (simp_all add: input_ok_def commit_line_def committed_def editing_def)

lemma input_cong:
  assumes "printed k k'"
  shows "committed k' = committed k" "editing k' = editing k" "input_ok k' = input_ok k"
  using printed_fields [OF assms] by (simp_all add: committed_def editing_def input_ok_def)

lemma erase_line_simps:
  "erase_line [] = []" "l \<noteq> [] \<Longrightarrow> last l = 10 \<Longrightarrow> erase_line l = l"
  "l \<noteq> [] \<Longrightarrow> last l \<noteq> 10 \<Longrightarrow> erase_line l = erase_line (butlast l)"
proof -
  show "erase_line [] = []" by (simp add: erase_line_def)
  assume "l \<noteq> []"
  then obtain m c where l: "l = m @ [c]" by (meson rev_exhaust)
  show "last l = 10 \<Longrightarrow> erase_line l = l" "last l \<noteq> 10 \<Longrightarrow> erase_line l = erase_line (butlast l)"
    by (simp_all add: l erase_line_def)
qed

lemma backspace_eq:
  assumes "screen_ok (cons u)"
  shows "\<exists>k. backspace u = Done () (u\<lparr>cons := k\<rparr>) \<and> printed (rub (cons u)) k"
proof -
  have "screen_ok (rub (cons u))" using assms by (simp add: rub_def screen_ok_def)
  then obtain k where "consputc BACKSPACE (u\<lparr>cons := rub (cons u)\<rparr>) = Done () (u\<lparr>cons := k\<rparr>)" "printed (rub (cons u)) k"
    using consputc_printed [of "u\<lparr>cons := rub (cons u)\<rparr>" BACKSPACE] by auto
  then show ?thesis by (auto simp: backspace_def modcons_def modify_def sq_def bnd_def rub_def)
qed

definition input_is :: "console \<Rightarrow> byte list \<Rightarrow> byte list \<Rightarrow> bool" where
  "input_is k q l \<longleftrightarrow> screen_ok k \<and> input_ok k \<and> committed k = q \<and> editing k = l"

lemma input_is_printed: "printed k k' \<Longrightarrow> input_is k q l \<Longrightarrow> input_is k' q l"
  using input_cong [of k k'] printed_fields [of k k'] by (simp add: input_is_def)

lemma screen_ok_upd [simp]: "screen_ok (rub k) = screen_ok k" "screen_ok (typed b k) = screen_ok k"
    "screen_ok (commit_line k) = screen_ok k"
  by (simp_all add: rub_def typed_def commit_line_def screen_ok_def)

lemma input_is_rub: "input_is k q l \<Longrightarrow> l \<noteq> [] \<Longrightarrow> input_is (rub k) q (butlast l)"
  using rub_spec [of k] by (auto simp: input_is_def)

lemma backspace_is:
  assumes "input_is (cons u) q l" and "l \<noteq> []"
  shows "\<exists>k. backspace u = Done () (u\<lparr>cons := k\<rparr>) \<and> input_is k q (butlast l)"
  using backspace_eq [of u] input_is_rub [OF assms] input_is_printed assms(1) by (auto simp: input_is_def)

lemma kill_line_is:
  "input_is (cons u) q l \<Longrightarrow> length l \<le> n \<Longrightarrow>
     \<exists>k. kill_line n u = Done () (u\<lparr>cons := k\<rparr>) \<and> input_is k q (erase_line l)"
proof (induction n arbitrary: u l)
  case 0
  then show ?case by (intro exI [of _ "cons u"]) (simp add: ret_def erase_line_simps)
next
  case (Suc n)
  have l: "editing (cons u) = l" using Suc.prems(1) by (simp add: input_is_def)
  let ?go = "cn_e (cons u) \<noteq> cn_w (cons u) \<and> cn_buf (cons u) (unat (cn_e (cons u) - 1) mod INPUT_BUF) \<noteq> 10"
  have go: "?go \<longleftrightarrow> l \<noteq> [] \<and> last l \<noteq> 10"
    using editing_empty [of "cons u"] cons_ring.queued_last [of "cn_e (cons u)" "cn_w (cons u)" "cn_buf (cons u)"] l
    by (auto simp: editing_def)
  show ?case
  proof (cases "l \<noteq> [] \<and> last l \<noteq> 10")
    case True
    then obtain k where k: "backspace u = Done () (u\<lparr>cons := k\<rparr>)" "input_is k q (butlast l)"
      using backspace_is [OF Suc.prems(1)] by auto
    have le: "length (butlast l) \<le> n" using Suc.prems(2) by simp
    from k obtain k' where "kill_line n (u\<lparr>cons := k\<rparr>) = Done () (u\<lparr>cons := k'\<rparr>)" "input_is k' q (erase_line (butlast l))"
      using Suc.IH [of "u\<lparr>cons := k\<rparr>" "butlast l"] le by auto
    then show ?thesis using True go k erase_line_simps(3) by (auto simp: bnd_def gets_def sq_def)
  next
    case False
    then have "erase_line l = l" using erase_line_simps by (cases "l = []") auto
    then show ?thesis using False go Suc.prems(1) by (intro exI [of _ "cons u"]) (auto simp: bnd_def gets_def ret_def)
  qed
qed

text \<open>One key, inside the console's critical section.\<close>

definition key_post :: "kstate \<Rightarrow> byte list \<times> byte list \<Rightarrow> kstate \<Rightarrow> bool" where
  "key_post u ql t \<longleftrightarrow> (\<exists>k ps. t = u\<lparr>cons := k, ptable := ps\<rparr> \<and> input_is k (fst ql) (snd ql) \<and>
     ps = (if fst ql = committed (cons u) then ptable u else map (wake ChanInput) (ptable u)))"

lemma key_postI:
  "input_is k q l \<Longrightarrow> q = committed (cons u) \<Longrightarrow> key_post u (q, l) (u\<lparr>cons := k\<rparr>)"
  unfolding key_post_def by (intro exI [of _ k] exI [of _ "ptable u"]) simp

lemma word_less_128: "input_ok k \<Longrightarrow> cn_e k - cn_r k < 128 \<longleftrightarrow> length (committed k) + length (editing k) < 128"
  using input_length [of k] by (simp add: word_less_nat_alt)

lemma full_iff:
  assumes "input_ok k"
  shows "cn_e k = cn_r k + 128 \<longleftrightarrow> length (committed k) + length (editing k) = 128"
proof -
  have "w = 128" if "unat w = 128" for w :: "32 word"
    using arg_cong [OF that, of "of_nat :: nat \<Rightarrow> 32 word"] by simp
  then have "unat (cn_e k - cn_r k) = 128 \<longleftrightarrow> cn_e k - cn_r k = 128" by auto
  also have "\<dots> \<longleftrightarrow> cn_e k = cn_r k + 128" by (auto simp: algebra_simps)
  finally show ?thesis using input_length [OF assms] by simp
qed

lemma type_char:
  assumes inp: "input_is (cons u) q l" and room: "length q + length l < 128"
    and wk: "\<And>v. locks v = locks u \<Longrightarrow> kcpu v = kcpu u \<Longrightarrow> ptable v = ptable u \<Longrightarrow>
               wakeup ChanInput v = Done () (v\<lparr>ptable := map (wake ChanInput) (ptable u)\<rparr>)"
  shows "\<exists>t. sq (modcons (typed (word_of_int c)))
          (sq (consputc c)
          (bnd (gets cons) (\<lambda>k.
          if c = 10 \<or> c = 4 \<or> cn_e k = cn_r k + 128
          then sq (modcons commit_line) (sq (wakeup ChanInput) (ret False))
          else ret False))) u = Done False t \<and>
      key_post u (let l' = l @ [word_of_int c] in
        if c = 10 \<or> c = 4 \<or> length q + length l' = 128 then (q @ l', []) else (q, l')) t"
proof -
  let ?l = "l @ [word_of_int c]" and ?k = "typed (word_of_int c) (cons u)"
  have ok: "input_ok (cons u)" "committed (cons u) = q" "editing (cons u) = l" "screen_ok (cons u)"
    using inp by (simp_all add: input_is_def)
  have k: "input_is ?k q ?l" using typed_spec [OF ok(1), of "word_of_int c"] ok room by (simp add: input_is_def)
  then obtain k' where k': "consputc c (u\<lparr>cons := ?k\<rparr>) = Done () (u\<lparr>cons := k'\<rparr>)" "input_is k' q ?l"
    using consputc_printed [of "u\<lparr>cons := ?k\<rparr>" c] input_is_printed by (auto simp: input_is_def)
  have full: "cn_e k' = cn_r k' + 128 \<longleftrightarrow> length q + length ?l = 128"
    using full_iff [of k'] k'(2) by (simp add: input_is_def)
  show ?thesis
  proof (cases "c = 10 \<or> c = 4 \<or> length q + length ?l = 128")
    case True
    let ?c = "commit_line k'"
    have w: "wakeup ChanInput (u\<lparr>cons := ?c\<rparr>) = Done () (u\<lparr>cons := ?c, ptable := map (wake ChanInput) (ptable u)\<rparr>)"
      using wk [of "u\<lparr>cons := ?c\<rparr>"] by simp
    have "input_is ?c (q @ ?l) []" using commit_line_spec [of k'] k'(2) by (simp add: input_is_def)
    then have "key_post u (q @ ?l, []) (u\<lparr>cons := ?c, ptable := map (wake ChanInput) (ptable u)\<rparr>)"
      unfolding key_post_def using ok by (intro exI [of _ ?c] exI [of _ "map (wake ChanInput) (ptable u)"]) auto
    then show ?thesis
      using True full k'(1) w by (auto simp: Let_def sq_def bnd_def gets_def modcons_def modify_def ret_def)
  next
    case False
    then show ?thesis
      using full k' ok key_postI [OF k'(2), of u] by (auto simp: Let_def sq_def bnd_def gets_def modcons_def modify_def ret_def)
  qed
qed

lemma cons_key_typed:
  assumes "c \<notin> {16, 21, 8, 127}"
  shows "cons_key c =
     bnd (gets cons) (\<lambda>k.
     if c \<noteq> 0 \<and> cn_e k - cn_r k < 128 then
       let c' = (if c = 13 then 10 else c) in
       sq (modcons (typed (word_of_int c')))
       (sq (consputc c')
       (bnd (gets cons) (\<lambda>k.
       if c' = 10 \<or> c' = 4 \<or> cn_e k = cn_r k + 128
       then sq (modcons commit_line) (sq (wakeup ChanInput) (ret False))
       else ret False)))
     else ret False)"
proof -
  have t: "typed b = (\<lambda>k. k\<lparr>cn_buf := (cn_buf k)(unat (cn_e k) mod INPUT_BUF := b), cn_e := cn_e k + 1\<rparr>)"
    and l: "commit_line = (\<lambda>k. k\<lparr>cn_w := cn_e k\<rparr>)" for b
    by (auto simp: typed_def commit_line_def)
  have n: "(c = 16) = False" "(c = 21) = False" "(c = 8) = False" "(c = 127) = False" using assms by auto
  show ?thesis unfolding cons_key_def t l n by (simp only: if_False simp_thms)
qed

lemma cons_key_is:
  assumes inp: "input_is (cons u) q l"
    and wk: "\<And>v. locks v = locks u \<Longrightarrow> kcpu v = kcpu u \<Longrightarrow> ptable v = ptable u \<Longrightarrow>
               wakeup ChanInput v = Done () (v\<lparr>ptable := map (wake ChanInput) (ptable u)\<rparr>)"
  shows "\<exists>t. cons_key c u = Done (c = 16) t \<and> key_post u (edit (q, l) c) t"
proof -
  have ok: "input_ok (cons u)" "committed (cons u) = q" "editing (cons u) = l" using inp by (simp_all add: input_is_def)
  have same: "key_post u (q, l) u" using key_postI [OF inp, of u] ok by simp
  consider "c = 16" | "c = 21" | "c = 8 \<or> c = 127" | "c \<notin> {16, 21, 8, 127}" by auto
  then show ?thesis
  proof cases
    case 1
    then show ?thesis using same by (simp add: cons_key_def ret_def edit.simps)
  next
    case 2
    have "length l = unat (cn_e (cons u) - cn_w (cons u))" using ok(3) by (auto simp: editing_def)
    then obtain k where "kill_line (unat (cn_e (cons u) - cn_w (cons u))) u = Done () (u\<lparr>cons := k\<rparr>)" and k: "input_is k q (erase_line l)"
      using kill_line_is [OF inp] by auto
    then have "cons_key 21 u = Done False (u\<lparr>cons := k\<rparr>)"
      by (simp add: cons_key_def bnd_def gets_def sq_def ret_def)
    moreover have "key_post u (q, erase_line l) (u\<lparr>cons := k\<rparr>)"
      by (rule key_postI) (use k ok(2) in simp_all)
    ultimately show ?thesis unfolding 2 by (simp add: edit.simps)
  next
    case 3
    show ?thesis
    proof (cases "l = []")
      case True
      then show ?thesis using 3 same editing_empty [of "cons u"] ok
        by (auto simp: cons_key_def bnd_def gets_def sq_def whenk_def ret_def edit.simps)
    next
      case False
      then obtain k where k: "backspace u = Done () (u\<lparr>cons := k\<rparr>)" "input_is k q (butlast l)"
        using backspace_is [OF inp] by blast
      have "cn_e (cons u) \<noteq> cn_w (cons u)" using False editing_empty ok(3) by blast
      then show ?thesis using 3 k key_postI [OF k(2), of u] ok(2)
        by (auto simp: cons_key_def bnd_def gets_def sq_def whenk_def ret_def edit.simps)
    qed
  next
    case 4
    let ?c = "if c = 13 then 10 else c"
    show ?thesis
    proof (cases "c \<noteq> 0 \<and> length q + length l < 128")
      case True
      have lt: "cn_e (cons u) - cn_r (cons u) < 128" using True word_less_128 [OF ok(1)] ok by simp
      have key: "cons_key c u = sq (modcons (typed (word_of_int ?c)))
          (sq (consputc ?c)
          (bnd (gets cons) (\<lambda>k.
          if ?c = 10 \<or> ?c = 4 \<or> cn_e k = cn_r k + 128
          then sq (modcons commit_line) (sq (wakeup ChanInput) (ret False))
          else ret False))) u"
        unfolding cons_key_typed [OF 4] using True lt by (simp add: bnd_def gets_def Let_def)
      have ed: "edit (q, l) c = (let l' = l @ [word_of_int ?c] in
        if ?c = 10 \<or> ?c = 4 \<or> length q + length l' = 128 then (q @ l', []) else (q, l'))"
        using 4 True by (auto simp: edit.simps Let_def)
      have n: "(c = 16) = False" using 4 by simp
      show ?thesis unfolding key ed n
        by (rule type_char) (use inp True in simp, use True in simp, rule wk)
    next
      case False
      then have "\<not> (c \<noteq> 0 \<and> cn_e (cons u) - cn_r (cons u) < 128)" using word_less_128 [OF ok(1)] ok by auto
      moreover have "edit (q, l) c = (q, l)" using 4 False by (auto simp: edit.simps)
      ultimately show ?thesis using 4 same by (auto simp: cons_key_typed bnd_def gets_def ret_def)
    qed
  qed
qed

lemma edit_grows: "\<exists>x. fst (edit ql c) = fst ql @ x"
  by (cases ql) (auto simp: edit.simps Let_def)

lemma foldl_edit_grows: "\<exists>x. fst (foldl edit ql xs) = fst ql @ x"
proof (induction xs arbitrary: ql)
  case (Cons c xs)
  then show ?case using edit_grows [of ql c] by (metis append_assoc foldl_Cons)
qed simp

lemma wake_twice: "map (wake ch) (map (wake ch) ps) = map (wake ch) ps"
  by (simp add: wake_def)

text \<open>Inside the section: the processor holds the console's lock and nothing else.\<close>

definition in_console :: "kstate \<Rightarrow> kstate \<Rightarrow> bool" where
  "in_console s u \<longleftrightarrow> quiet s \<and> ptable_ok u \<and> locks u = locks (acquired ConsLock s) \<and> kcpu u = kcpu (acquired ConsLock s)"

lemma in_console_wakes:
  assumes "in_console s u" and "locks v = locks u" and "kcpu v = kcpu u" and "ptable v = ptable u"
  shows "wakeup ch v = Done () (v\<lparr>ptable := map (wake ch) (ptable u)\<rparr>)"
proof -
  have "wakeup ch v = Done () (v\<lparr>ptable := map (wake ch) (ptable v)\<rparr>)"
    using assms by (intro wakeup_inside) (auto simp: in_console_def quiet_def ptable_ok_def)
  then show ?thesis using assms(4) by simp
qed

lemma in_console_key: "in_console s u \<Longrightarrow> key_post u ql t \<Longrightarrow> in_console s t"
  by (auto simp: in_console_def key_post_def ptable_ok_def)

lemma key_post_trans:
  assumes "key_post u ql t" and "key_post t ql' v" and "\<exists>x. fst ql = committed (cons u) @ x" and "\<exists>x. fst ql' = fst ql @ x"
  shows "key_post u ql' v"
proof -
  obtain k ps where t: "t = u\<lparr>cons := k, ptable := ps\<rparr>" "input_is k (fst ql) (snd ql)"
      "ps = (if fst ql = committed (cons u) then ptable u else map (wake ChanInput) (ptable u))"
    using assms(1) by (auto simp: key_post_def)
  obtain k' ps' where v: "v = t\<lparr>cons := k', ptable := ps'\<rparr>" "input_is k' (fst ql') (snd ql')"
      "ps' = (if fst ql' = committed (cons t) then ptable t else map (wake ChanInput) (ptable t))"
    using assms(2) by (auto simp: key_post_def)
  have c: "committed (cons t) = fst ql" using t by (simp add: input_is_def)
  have "v = u\<lparr>cons := k', ptable := ps'\<rparr>" using t(1) v(1) by simp
  moreover have "ps' = (if fst ql' = committed (cons u) then ptable u else map (wake ChanInput) (ptable u))"
    using assms(3,4) c t(1,3) v(3) wake_twice by auto
  ultimately show ?thesis unfolding key_post_def using v(2) by blast
qed

lemma input_is_edit: "key_post u ql t \<Longrightarrow> input_is (cons t) (fst ql) (snd ql)"
  by (auto simp: key_post_def)

lemma consoleintr_loop_is:
  "in_console s u \<Longrightarrow> input_is (cons u) q l \<Longrightarrow> list_all (\<lambda>c. 0 \<le> c) xs \<Longrightarrow>
     \<exists>t. consoleintr_loop (map ret xs) d u = Done (d \<or> 16 \<in> set xs) t \<and> in_console s t \<and>
       key_post u (foldl edit (q, l) xs) t"
proof (induction xs arbitrary: u q l d)
  case Nil
  then have "key_post u (q, l) (u\<lparr>cons := cons u\<rparr>)" by (intro key_postI) (auto simp: input_is_def)
  then show ?case using Nil by (simp add: ret_def)
next
  case (Cons c xs)
  obtain v where v: "cons_key c u = Done (c = 16) v" "key_post u (edit (q, l) c) v"
    using cons_key_is [OF Cons.prems(2)] in_console_wakes [OF Cons.prems(1)] by blast
  obtain q' l' where e: "edit (q, l) c = (q', l')" by fastforce
  have in_v: "in_console s v" using in_console_key [OF Cons.prems(1) v(2)] .
  have is_v: "input_is (cons v) q' l'" using input_is_edit [OF v(2)] e by simp
  obtain t where t: "consoleintr_loop (map ret xs) (d \<or> c = 16) v = Done ((d \<or> c = 16) \<or> 16 \<in> set xs) t"
      "in_console s t" "key_post v (foldl edit (q', l') xs) t"
    using Cons.IH [OF in_v is_v] Cons.prems(3) by fastforce
  have "key_post u (foldl edit (q', l') xs) t"
    using key_post_trans [OF v(2) t(3)] edit_grows [of "(q, l)" c] foldl_edit_grows [of "(q', l')" xs] e Cons.prems(2)
    by (simp add: input_is_def)
  moreover have "consoleintr_loop (map ret (c # xs)) d u = consoleintr_loop (map ret xs) (d \<or> c = 16) v"
    using v(1) Cons.prems(3) by (simp add: bnd_def ret_def [of c])
  ultimately show ?case using t(1,2) e by auto
qed

text \<open>
  C19: the line discipline.  Whatever the values of the three wrapping indices, handling a
  batch of characters turns the committed characters and the line being edited into what
  the abstract editor makes of them: Control-H and delete rub out the last character of
  the line and never a committed one, Control-U rubs out the line, carriage return counts
  as newline, and newline, Control-D or a full buffer commits the line.  Characters
  beyond 128 are dropped.  Readers are woken exactly when there is more to read, and the
  processor leaves with the lock released.
\<close>

theorem consoleintr_refines_editor:
  assumes "quiet s" and "ptable_ok s" and "screen_ok (cons s)" and "input_ok (cons s)"
    and "list_all (\<lambda>c. 0 \<le> c \<and> c \<noteq> 16) xs"
  shows "\<exists>t. consoleintr ld (map ret xs) s = Done () t \<and> quiet t \<and> ptable_ok t \<and>
    screen_ok (cons t) \<and> input_ok (cons t) \<and>
    (committed (cons t), editing (cons t)) = foldl edit (committed (cons s), editing (cons s)) xs \<and>
    ptable t = (if committed (cons t) = committed (cons s) then ptable s else map (wake ChanInput) (ptable s))"
proof -
  let ?u = "acquired ConsLock s" and ?e = "foldl edit (committed (cons s), editing (cons s)) xs"
  have acq: "acquire ConsLock s = Done () ?u"
    using assms(1) by (simp add: acquire_eq quiet_def free_lock_def)
  have "in_console s ?u" "input_is (cons ?u) (committed (cons s)) (editing (cons s))"
    using assms by (simp_all add: in_console_def input_is_def)
  moreover have "list_all (\<lambda>c. 0 \<le> c) xs" "16 \<notin> set xs" using assms(5) by (auto simp: list_all_iff)
  ultimately obtain t where t: "consoleintr_loop (map ret xs) False ?u = Done False t" "in_console s t" "key_post ?u ?e t"
    using consoleintr_loop_is [of s ?u _ _ xs False] by force
  have rel: "release ConsLock t = Done () (t\<lparr>locks := locks s, kcpu := kcpu (cs s)\<rparr>)" (is "_ = Done () ?t")
    using t(2) by (intro release_quiet) (auto simp: in_console_def)
  have "consoleintr ld (map ret xs) s = Done () ?t"
    using acq t(1) rel by (simp add: consoleintr_def sq_def bnd_def whenk_def ret_def)
  moreover have "quiet ?t" using quiet_cs [OF assms(1)] by (simp add: quiet_def)
  moreover have "ptable_ok ?t" using t(2) by (simp add: in_console_def ptable_ok_def)
  moreover have "input_is (cons t) (fst ?e) (snd ?e)"
    "ptable t = (if fst ?e = committed (cons s) then ptable s else map (wake ChanInput) (ptable s))"
    using t(3) by (auto simp: key_post_def)
  ultimately show ?thesis by (intro exI [of _ ?t]) (simp add: input_is_def)
qed

theorem consoleintr_refines_editor_witness:
  "quiet kzero \<and> ptable_ok kzero \<and> screen_ok (cons kzero) \<and> input_ok (cons kzero) \<and>
   (\<exists>t. consoleintr (\<lambda>_. 0) (map ret [0x6C, 0x74, 8, 0x73, 13, 0x61]) kzero = Done () t \<and>
      committed (cons t) = [0x6C, 0x73, 10] \<and> editing (cons t) = [0x61])"
proof -
  have pre: "quiet kzero" "ptable_ok kzero" "screen_ok (cons kzero)" "input_ok (cons kzero)"
    "committed (cons kzero) = []" "editing (cons kzero) = []"
    by (simp_all add: kzero_def zero_cpu_def quiet_def free_lock_def ptable_ok_def screen_ok_def input_ok_def
        committed_def editing_def queued_def)
  have "foldl edit ([], []) [0x6C, 0x74, 8, 0x73, 13, 0x61] = ([0x6C, 0x73, 10], [0x61])"
    by (simp add: edit.simps)
  then show ?thesis
    using pre consoleintr_refines_editor [OF pre(1-4), of "[0x6C, 0x74, 8, 0x73, 13, 0x61]" "\<lambda>_. 0"] by auto
qed

end
