(* ===== verification/Dir.thy ===== *)
theory Dir
  imports Consdev
begin

text \<open>
  The upper layers of \<open>fs.c\<close>: file contents (\<open>readi\<close>, \<open>writei\<close>), directories
  (\<open>dirlookup\<close>, \<open>dirlink\<close>) and path names (\<open>skipelem\<close>, \<open>namex\<close>, \<open>namei\<close>,
  \<open>nameiparent\<close>).

  A transfer's memory side is a list of bytes: \<open>readi\<close> gives the bytes it would store
  at \<open>dst\<close> (\<open>None\<close> for the result \<open>-1\<close>; the C result is their number), \<open>writei\<close>
  takes the bytes at \<open>src\<close>.  The only entry of \<open>devsw\<close> the kernel ever fills is the
  console, so that is the function behind a device that is set.  A path is the
  characters before the terminating zero; a name is a buffer of \<open>DIRSIZ\<close> bytes.
\<close>

section \<open>Contents\<close>

definition chunk :: "nat \<Rightarrow> nat \<Rightarrow> nat" where
  "chunk off n = min n (BSIZE - off mod BSIZE)"

lemma chunk_pos: "0 < n \<Longrightarrow> 0 < chunk off n"
  by (simp add: chunk_def)

lemma chunk_le: "chunk off n \<le> n"
  by (simp add: chunk_def)

function readi_loop :: "nat \<Rightarrow> nat \<Rightarrow> nat \<Rightarrow> byte list kfun" where
  "readi_loop i off n =
     (if n = 0 then ret []
      else
        bnd (bmap i (off div BSIZE)) (\<lambda>a.
        bnd (geti i) (\<lambda>ip.
        bnd (bread (i_dev ip) a) (\<lambda>bp.
        bnd (bdata bp) (\<lambda>d.
        sq (brelse bp)
        (bnd (readi_loop i (off + chunk off n) (n - chunk off n)) (\<lambda>rest.
        ret (slice d (off mod BSIZE) (chunk off n) @ rest))))))))"
  by pat_completeness auto
termination
  by (relation "measure (\<lambda>(i, off, n). n)") (simp_all add: chunk_pos)

declare readi_loop.simps [simp del]

definition dev_set :: "int \<Rightarrow> bool kfun" where
  "dev_set major = gets (\<lambda>s. \<not> (major < 0 \<or> int NDEV \<le> major \<or> \<not> devsw s major))"

definition readi :: "nat \<Rightarrow> nat \<Rightarrow> nat \<Rightarrow> byte list option kfun" where
  "readi i off n =
     bnd (geti i) (\<lambda>ip.
     if i_type ip = T_DEV then
       bnd (dev_set (i_major ip)) (\<lambda>ok. if \<not> ok then ret None else consoleread i (nat (sint32 n)))
     else if i_size ip < off \<or> 2 ^ 32 \<le> off + n then ret None
     else
       let n = (if i_size ip < off + n then i_size ip - off else n) in
       bnd (readi_loop i off n) (\<lambda>bs. ret (Some bs)))"

function writei_loop :: "nat \<Rightarrow> nat \<Rightarrow> byte list \<Rightarrow> unit kfun" where
  "writei_loop i off src =
     (if src = [] then ret ()
      else
        bnd (bmap i (off div BSIZE)) (\<lambda>a.
        bnd (geti i) (\<lambda>ip.
        bnd (bread (i_dev ip) a) (\<lambda>bp.
        bnd (bdata bp) (\<lambda>d.
        let m = chunk off (length src) in
        sq (set_bdata bp (blit m (off mod BSIZE) (bytes_of src) 0 d))
        (sq (log_write bp)
        (sq (brelse bp)
        (writei_loop i (off + chunk off (length src)) (drop (chunk off (length src)) src)))))))))"
  by pat_completeness auto
termination
  by (relation "measure (\<lambda>(i, off, src). length src)") (simp_all add: chunk_pos)

declare writei_loop.simps [simp del]

definition writei :: "nat \<Rightarrow> nat \<Rightarrow> byte list \<Rightarrow> int kfun" where
  "writei i off src =
     bnd (geti i) (\<lambda>ip.
     let n = length src in
     if i_type ip = T_DEV then
       bnd (dev_set (i_major ip)) (\<lambda>ok. if \<not> ok then ret (- 1) else consolewrite i src)
     else if i_size ip < off \<or> 2 ^ 32 \<le> off + n then ret (- 1)
     else if MAXFILE * BSIZE < off + n then ret (- 1)
     else
       sq (writei_loop i off src)
       (bnd (geti i) (\<lambda>ip.
       sq (whenk (0 < n \<and> i_size ip < off + n)
            (sq (seti i (\<lambda>ip. ip\<lparr>i_size := off + n\<rparr>)) (iupdate i)))
       (ret (int n)))))"

section \<open>Directories\<close>

text \<open>Two \<open>DIRSIZ\<close>-byte objects side by side in one memory, for the routines of \<open>string.c\<close>.\<close>

definition two :: "bytes \<Rightarrow> bytes \<Rightarrow> bytes" where
  "two x y = (\<lambda>k. if k < DIRSIZ then x k else y (k - DIRSIZ))"

definition namecmp :: "bytes \<Rightarrow> bytes \<Rightarrow> int" where
  "namecmp x y = strncmp (two x y) 0 DIRSIZ DIRSIZ"

definition dec_dirent :: "byte list \<Rightarrow> dirent" where
  "dec_dirent bs = \<lparr>de_inum = get16 (bytes_of bs) 0, de_name = drop 2 bs\<rparr>"

definition enc_dirent :: "dirent \<Rightarrow> byte list" where
  "enc_dirent de = slice (put16 0 (de_inum de) zeros) 0 2 @ de_name de"

definition read_dirent :: "nat \<Rightarrow> nat \<Rightarrow> dirent kfun" where
  "read_dirent i off =
     bnd (readi i off 16) (\<lambda>r.
     case r of None \<Rightarrow> panic ''dirlink read''
     | Some bs \<Rightarrow> if length bs \<noteq> 16 then panic ''dirlink read'' else ret (dec_dirent bs))"

text \<open>
  The loop of \<open>dirlookup\<close> over the entries, with the offset of the entry found; \<open>n\<close>
  bounds the entries that remain.
\<close>

fun dirlookup_loop :: "nat \<Rightarrow> bytes \<Rightarrow> nat \<Rightarrow> nat \<Rightarrow> (nat \<times> nat) option kfun" where
  "dirlookup_loop i name off 0 = spin"
| "dirlookup_loop i name off (Suc n) =
     bnd (geti i) (\<lambda>dp.
     if \<not> off < i_size dp then ret None
     else
     bnd (read_dirent i off) (\<lambda>de.
     if de_inum de = 0 then dirlookup_loop i name (off + 16) n
     else if namecmp name (bytes_of (de_name de)) = 0
     then bnd (iget (i_dev dp) (de_inum de)) (\<lambda>ip. ret (Some (ip, off)))
     else dirlookup_loop i name (off + 16) n))"

definition dirlookup :: "nat \<Rightarrow> bytes \<Rightarrow> (nat \<times> nat) option kfun" where
  "dirlookup i name =
     bnd (geti i) (\<lambda>dp.
     if i_type dp \<noteq> T_DIR then panic ''dirlookup not DIR''
     else dirlookup_loop i name 0 (Suc (Suc (i_size dp div 16))))"

text \<open>The search of \<open>dirlink\<close> for an unused entry, or the end of the directory.\<close>

fun dirlink_loop :: "nat \<Rightarrow> nat \<Rightarrow> nat \<Rightarrow> nat kfun" where
  "dirlink_loop i off 0 = spin"
| "dirlink_loop i off (Suc n) =
     bnd (geti i) (\<lambda>dp.
     if \<not> off < i_size dp then ret off
     else
     bnd (read_dirent i off) (\<lambda>de.
     if de_inum de = 0 then ret off else dirlink_loop i (off + 16) n))"

text \<open>\<open>strncpy(de.name, name, DIRSIZ)\<close> overwrites all of \<open>de.name\<close>.\<close>

definition name_field :: "bytes \<Rightarrow> byte list" where
  "name_field name = slice (strncpy (two zeros name) 0 DIRSIZ DIRSIZ) 0 DIRSIZ"

definition dirlink :: "nat \<Rightarrow> bytes \<Rightarrow> nat \<Rightarrow> int kfun" where
  "dirlink i name inum =
     bnd (dirlookup i name) (\<lambda>r.
     case r of
       Some (ip, _) \<Rightarrow> sq (iput ip) (ret (- 1))
     | None \<Rightarrow>
         bnd (geti i) (\<lambda>dp.
         bnd (dirlink_loop i 0 (Suc (Suc (i_size dp div 16)))) (\<lambda>off.
         bnd (writei i off (enc_dirent \<lparr>de_inum = inum, de_name = name_field name\<rparr>)) (\<lambda>r.
         if r \<noteq> 16 then panic ''dirlink'' else ret 0))))"

section \<open>Paths\<close>

abbreviation (input) SLASH :: byte where "SLASH \<equiv> 47"

definition skipelem :: "byte list \<Rightarrow> bytes \<Rightarrow> (byte list \<times> bytes) option" where
  "skipelem path name =
     (let path = dropWhile (\<lambda>c. c = SLASH) path in
      if path = [] then None
      else
        let el = takeWhile (\<lambda>c. c \<noteq> SLASH) path;
            path = dropWhile (\<lambda>c. c \<noteq> SLASH) path;
            len = length el;
            name = (if DIRSIZ \<le> len then blit DIRSIZ 0 (bytes_of el) 0 name
                    else (blit len 0 (bytes_of el) 0 name)(len := 0))
        in Some (dropWhile (\<lambda>c. c = SLASH) path, name))"

lemma skipelem_shorter: "skipelem path name = Some (path', name') \<Longrightarrow> length path' < length path"
proof -
  assume h: "skipelem path name = Some (path', name')"
  let ?p = "dropWhile (\<lambda>c. c = SLASH) path"
  have ne: "?p \<noteq> []" and p': "path' = dropWhile (\<lambda>c. c = SLASH) (dropWhile (\<lambda>c. c \<noteq> SLASH) ?p)"
    using h by (auto simp: skipelem_def Let_def split: if_splits)
  then obtain c q where c: "?p = c # q" "c \<noteq> SLASH"
    using hd_dropWhile [OF ne] by (cases ?p) simp_all
  have "length path' \<le> length (dropWhile (\<lambda>c. c \<noteq> SLASH) ?p)"
    unfolding p' by (rule length_dropWhile_le)
  also have "\<dots> \<le> length q" using c by (simp add: length_dropWhile_le)
  also have "length q < length ?p" using c by simp
  also have "\<dots> \<le> length path" by (rule length_dropWhile_le)
  finally show ?thesis .
qed

function namex_loop :: "nat \<Rightarrow> byte list \<Rightarrow> bool \<Rightarrow> bytes \<Rightarrow> (nat \<times> bytes) option kfun" where
  "namex_loop i path parent name =
     (case skipelem path name of
        None \<Rightarrow>
          if parent then sq (iput i) (ret None) else ret (Some (i, name))
      | Some (path', name') \<Rightarrow>
          sq (ilock i)
          (bnd (geti i) (\<lambda>ip.
          if i_type ip \<noteq> T_DIR then sq (iunlockput i) (ret None)
          else if parent \<and> path' = [] then sq (iunlock i) (ret (Some (i, name')))
          else
          bnd (dirlookup i name') (\<lambda>r.
          case r of
            None \<Rightarrow> sq (iunlockput i) (ret None)
          | Some (nxt, _) \<Rightarrow> sq (iunlockput i) (namex_loop nxt path' parent name')))))"
  by pat_completeness auto
termination
  by (relation "measure (\<lambda>(i, path, parent, name). length path)") (auto dest: skipelem_shorter)

declare namex_loop.simps [simp del]

definition namex :: "byte list \<Rightarrow> bool \<Rightarrow> bytes \<Rightarrow> (nat \<times> bytes) option kfun" where
  "namex path parent name =
     bnd (if path \<noteq> [] \<and> hd path = SLASH then iget ROOTDEV ROOTINO
          else bnd myproc (\<lambda>j. bnd (getp j) (\<lambda>p.
            case p_cwd p of None \<Rightarrow> panic ''null cwd'' | Some c \<Rightarrow> idup c)))
     (\<lambda>i. namex_loop i path parent name)"

definition namei :: "byte list \<Rightarrow> nat option kfun" where
  "namei path = bnd (namex path False zeros) (\<lambda>r. ret (map_option fst r))"

definition nameiparent :: "byte list \<Rightarrow> bytes \<Rightarrow> (nat \<times> bytes) option kfun" where
  "nameiparent path name = namex path True name"

end
