(* ===== verification/Vm.thy ===== *)
theory Vm
  imports Kalloc Dir
begin

text \<open>
  Page tables and address spaces, \<open>vm.c\<close>.  A page directory and its page tables are
  pages whose words are the entries; a pointer to an entry is the page and the index.
  Segment descriptors and the task state segment are not part of the state: of
  \<open>switchuvm\<close> the check and the load of \<open>cr3\<close> remain.

  The last part gives the view the processor has of memory through \<open>cr3\<close>, which is how
  the kernel reads and writes user memory during a system call.
\<close>

section \<open>Page tables\<close>

definition entry :: "32 word \<Rightarrow> nat \<Rightarrow> 32 word kfun" where
  "entry p k = gets (\<lambda>s. of_nat (get32 (pg s p) (4 * k)))"

definition set_entry :: "32 word \<Rightarrow> nat \<Rightarrow> 32 word \<Rightarrow> unit kfun" where
  "set_entry p k v = modify (\<lambda>s. s\<lparr>pg := (pg s)(p := put32 (4 * k) (unat v) (pg s p))\<rparr>)"

definition fill_page :: "32 word \<Rightarrow> byte \<Rightarrow> unit kfun" where
  "fill_page p c = modify (\<lambda>s. s\<lparr>pg := (pg s)(p := memset (pg s p) 0 c 4096)\<rparr>)"

definition walkpgdir :: "32 word \<Rightarrow> 32 word \<Rightarrow> bool \<Rightarrow> (32 word \<times> nat) option kfun" where
  "walkpgdir pgdir va alloc =
     bnd (entry pgdir (PDX va)) (\<lambda>pde.
     if pde AND PTE_P \<noteq> 0 then ret (Some (p2v (PTE_ADDR pde), PTX va))
     else if \<not> alloc then ret None
     else
     bnd kalloc (\<lambda>pgtab.
     if pgtab = 0 then ret None
     else
     sq (fill_page pgtab 0)
     (sq (set_entry pgdir (PDX va) (v2p pgtab OR PTE_P OR PTE_W OR PTE_U))
     (ret (Some (pgtab, PTX va))))))"

text \<open>\<open>mappages\<close>; \<open>n\<close> bounds the pages left after the first.\<close>

fun mappages_loop :: "nat \<Rightarrow> 32 word \<Rightarrow> 32 word \<Rightarrow> 32 word \<Rightarrow> 32 word \<Rightarrow> 32 word \<Rightarrow> int kfun" where
  "mappages_loop n pgdir a lst pa perm =
     bnd (walkpgdir pgdir a True) (\<lambda>r.
     case r of None \<Rightarrow> ret (- 1)
     | Some (p, k) \<Rightarrow>
         bnd (entry p k) (\<lambda>pte.
         if pte AND PTE_P \<noteq> 0 then panic ''remap''
         else
         sq (set_entry p k (pa OR perm OR PTE_P))
         (if a = lst then ret 0
          else case n of 0 \<Rightarrow> spin
            | Suc m \<Rightarrow> mappages_loop m pgdir (a + PGSIZE) lst (pa + PGSIZE) perm)))"

declare mappages_loop.simps [simp del]

definition mappages :: "32 word \<Rightarrow> 32 word \<Rightarrow> 32 word \<Rightarrow> 32 word \<Rightarrow> 32 word \<Rightarrow> int kfun" where
  "mappages pgdir va sz pa perm =
     (let a = PGROUNDDOWN va; lst = PGROUNDDOWN (va + sz - 1)
      in mappages_loop (unat (lst - a) div 4096) pgdir a lst pa perm)"

text \<open>The rows of \<open>kmap\<close>: virtual start, physical start and end, permissions.\<close>

definition kmap :: "kstate \<Rightarrow> (32 word \<times> 32 word \<times> 32 word \<times> 32 word) list" where
  "kmap s =
     [(KERNBASE, 0, EXTMEM, PTE_W),
      (KERNLINK, v2p KERNLINK, v2p (kdata s), 0),
      (kdata s, v2p (kdata s), PHYSTOP, PTE_W),
      (DEVSPACE, DEVSPACE, 0, PTE_W)]"

fun kmap_loop :: "32 word \<Rightarrow> (32 word \<times> 32 word \<times> 32 word \<times> 32 word) list \<Rightarrow> 32 word kfun" where
  "kmap_loop pgdir [] = ret pgdir"
| "kmap_loop pgdir ((virt, ps, pe, perm) # ks) =
     bnd (mappages pgdir virt (pe - ps) ps perm) (\<lambda>r.
     if r < 0 then ret 0 else kmap_loop pgdir ks)"

definition setupkvm :: "32 word kfun" where
  "setupkvm =
     bnd kalloc (\<lambda>pgdir.
     if pgdir = 0 then ret 0
     else
     sq (fill_page pgdir 0)
     (if DEVSPACE < p2v PHYSTOP then panic ''PHYSTOP too high''
      else bnd (gets kmap) (\<lambda>ks. kmap_loop pgdir ks)))"

definition switchkvm :: "unit kfun" where
  "switchkvm = modify (\<lambda>s. s\<lparr>cr3 := v2p (kpgdir s)\<rparr>)"

definition kvmalloc :: "unit kfun" where
  "kvmalloc = bnd setupkvm (\<lambda>d. sq (modify (\<lambda>s. s\<lparr>kpgdir := d\<rparr>)) switchkvm)"

definition switchuvm :: "nat \<Rightarrow> unit kfun" where
  "switchuvm i =
     sq pushcli
     (bnd (getp i) (\<lambda>p.
     if p_pgdir p = 0 then panic ''switchuvm: no pgdir''
     else
     sq (modify (\<lambda>s. s\<lparr>cr3 := v2p (p_pgdir p)\<rparr>))
     popcli))"

section \<open>User pages\<close>

definition copy_to_page :: "32 word \<Rightarrow> nat \<Rightarrow> byte list \<Rightarrow> unit kfun" where
  "copy_to_page p off bs =
     modify (\<lambda>s. s\<lparr>pg := (pg s)(p := blit (length bs) off (bytes_of bs) 0 (pg s p))\<rparr>)"

definition inituvm :: "32 word \<Rightarrow> byte list \<Rightarrow> unit kfun" where
  "inituvm pgdir ini =
     (if 4096 \<le> length ini then panic ''inituvm: more than a page''
      else
      bnd kalloc (\<lambda>mem.
      sq (fill_page mem 0)
      (bnd (mappages pgdir 0 PGSIZE (v2p mem) (PTE_W OR PTE_U)) (\<lambda>_.
      copy_to_page mem 0 ini))))"

text \<open>\<open>loaduvm\<close>: \<open>n\<close> pages are left, the next one at offset \<open>i\<close> of the segment.\<close>

fun loaduvm_loop :: "nat \<Rightarrow> 32 word \<Rightarrow> 32 word \<Rightarrow> nat \<Rightarrow> 32 word \<Rightarrow> 32 word \<Rightarrow> 32 word \<Rightarrow> int kfun" where
  "loaduvm_loop n pgdir addr ip offset sz i =
     (if \<not> i < sz then ret 0
      else case n of 0 \<Rightarrow> spin
      | Suc m \<Rightarrow>
          bnd (walkpgdir pgdir (addr + i) False) (\<lambda>r.
          case r of None \<Rightarrow> panic ''loaduvm: address should exist''
          | Some (p, k) \<Rightarrow>
              bnd (entry p k) (\<lambda>pte.
              let pa = PTE_ADDR pte; len = (if sz - i < PGSIZE then sz - i else PGSIZE) in
              bnd (readi ip (unat (offset + i)) (unat len)) (\<lambda>r.
              case r of None \<Rightarrow> ret (- 1)
              | Some bs \<Rightarrow>
                  sq (copy_to_page (p2v pa) 0 bs)
                  (if length bs \<noteq> unat len then ret (- 1)
                   else loaduvm_loop m pgdir addr ip offset sz (i + PGSIZE))))))"

declare loaduvm_loop.simps [simp del]

definition loaduvm :: "32 word \<Rightarrow> 32 word \<Rightarrow> nat \<Rightarrow> 32 word \<Rightarrow> 32 word \<Rightarrow> int kfun" where
  "loaduvm pgdir addr ip offset sz =
     (if addr mod PGSIZE \<noteq> 0 then panic ''loaduvm: addr must be page aligned''
      else loaduvm_loop (unat sz div 4096 + 1) pgdir addr ip offset sz 0)"

text \<open>\<open>deallocuvm\<close>; a missing page table skips the rest of its 1024 pages.\<close>

fun deallocuvm_loop :: "nat \<Rightarrow> 32 word \<Rightarrow> 32 word \<Rightarrow> 32 word \<Rightarrow> unit kfun" where
  "deallocuvm_loop n pgdir a oldsz =
     (if \<not> a < oldsz then ret ()
      else case n of 0 \<Rightarrow> spin
      | Suc m \<Rightarrow>
          bnd (walkpgdir pgdir a False) (\<lambda>r.
          case r of
            None \<Rightarrow> deallocuvm_loop m pgdir (a + 1023 * PGSIZE + PGSIZE) oldsz
          | Some (p, k) \<Rightarrow>
              bnd (entry p k) (\<lambda>pte.
              sq (whenk (pte AND PTE_P \<noteq> 0)
                   (if PTE_ADDR pte = 0 then panic ''kfree''
                    else sq (kfree (p2v (PTE_ADDR pte))) (set_entry p k 0)))
              (deallocuvm_loop m pgdir (a + PGSIZE) oldsz))))"

declare deallocuvm_loop.simps [simp del]

definition deallocuvm :: "32 word \<Rightarrow> 32 word \<Rightarrow> 32 word \<Rightarrow> 32 word kfun" where
  "deallocuvm pgdir oldsz newsz =
     (if oldsz \<le> newsz then ret oldsz
      else sq (deallocuvm_loop (unat oldsz div 4096 + 1) pgdir (PGROUNDUP newsz) oldsz) (ret newsz))"

text \<open>\<open>allocuvm\<close> does not look at the result of \<open>mappages\<close>.\<close>

fun allocuvm_loop :: "nat \<Rightarrow> 32 word \<Rightarrow> 32 word \<Rightarrow> 32 word \<Rightarrow> 32 word \<Rightarrow> 32 word kfun" where
  "allocuvm_loop n pgdir a oldsz newsz =
     (if \<not> a < newsz then ret newsz
      else case n of 0 \<Rightarrow> spin
      | Suc m \<Rightarrow>
          bnd kalloc (\<lambda>mem.
          if mem = 0 then
            sq (cprintf (''allocuvm out of memory'' @ NL) [])
            (bnd (deallocuvm pgdir newsz oldsz) (\<lambda>_. ret 0))
          else
            sq (fill_page mem 0)
            (bnd (mappages pgdir a PGSIZE (v2p mem) (PTE_W OR PTE_U)) (\<lambda>_.
            allocuvm_loop m pgdir (a + PGSIZE) oldsz newsz))))"

declare allocuvm_loop.simps [simp del]

definition allocuvm :: "32 word \<Rightarrow> 32 word \<Rightarrow> 32 word \<Rightarrow> 32 word kfun" where
  "allocuvm pgdir oldsz newsz =
     (if KERNBASE \<le> newsz then ret 0
      else if newsz < oldsz then ret oldsz
      else allocuvm_loop (unat newsz div 4096 + 1) pgdir (PGROUNDUP oldsz) oldsz newsz)"

definition freevm :: "32 word \<Rightarrow> unit kfun" where
  "freevm pgdir =
     (if pgdir = 0 then panic ''freevm: no pgdir''
      else
      bnd (deallocuvm pgdir KERNBASE 0) (\<lambda>_.
      sq (forM [0 ..< NPDENTRIES] (\<lambda>i.
           bnd (entry pgdir i) (\<lambda>pde.
           whenk (pde AND PTE_P \<noteq> 0) (kfree (p2v (PTE_ADDR pde))))))
      (kfree pgdir)))"

definition clearpteu :: "32 word \<Rightarrow> 32 word \<Rightarrow> unit kfun" where
  "clearpteu pgdir uva =
     bnd (walkpgdir pgdir uva False) (\<lambda>r.
     case r of None \<Rightarrow> panic ''clearpteu''
     | Some (p, k) \<Rightarrow> bnd (entry p k) (\<lambda>pte. set_entry p k (pte AND NOT PTE_U)))"

fun copyuvm_loop :: "nat \<Rightarrow> 32 word \<Rightarrow> 32 word \<Rightarrow> 32 word \<Rightarrow> 32 word \<Rightarrow> 32 word kfun" where
  "copyuvm_loop n d pgdir sz i =
     (if \<not> i < sz then ret d
      else case n of 0 \<Rightarrow> spin
      | Suc m \<Rightarrow>
          bnd (walkpgdir pgdir i False) (\<lambda>r.
          case r of None \<Rightarrow> panic ''copyuvm: pte should exist''
          | Some (p, k) \<Rightarrow>
              bnd (entry p k) (\<lambda>pte.
              if pte AND PTE_P = 0 then panic ''copyuvm: page not present''
              else
              bnd kalloc (\<lambda>mem.
              if mem = 0 then sq (freevm d) (ret 0)
              else
              sq (modify (\<lambda>s. s\<lparr>pg := (pg s)(mem := blit 4096 0 (pg s (p2v (PTE_ADDR pte))) 0 (pg s mem))\<rparr>))
              (bnd (mappages d i PGSIZE (v2p mem) (PTE_FLAGS pte)) (\<lambda>r.
              if r < 0 then sq (freevm d) (ret 0)
              else copyuvm_loop m d pgdir sz (i + PGSIZE)))))))"

declare copyuvm_loop.simps [simp del]

definition copyuvm :: "32 word \<Rightarrow> 32 word \<Rightarrow> 32 word kfun" where
  "copyuvm pgdir sz =
     bnd setupkvm (\<lambda>d.
     if d = 0 then ret 0 else copyuvm_loop (unat sz div 4096 + 1) d pgdir sz 0)"

text \<open>\<open>uva2ka\<close> dereferences the entry without a null check; the model panics there.\<close>

definition uva2ka :: "32 word \<Rightarrow> 32 word \<Rightarrow> 32 word kfun" where
  "uva2ka pgdir uva =
     bnd (walkpgdir pgdir uva False) (\<lambda>r.
     case r of None \<Rightarrow> panic ''null pte''
     | Some (p, k) \<Rightarrow>
         bnd (entry p k) (\<lambda>pte.
         ret (if pte AND PTE_P = 0 then 0 else if pte AND PTE_U = 0 then 0 else p2v (PTE_ADDR pte))))"

definition page_off :: "32 word \<Rightarrow> nat" where
  "page_off va = unat (va - PGROUNDDOWN va)"

fun copyout_loop :: "nat \<Rightarrow> 32 word \<Rightarrow> 32 word \<Rightarrow> byte list \<Rightarrow> int kfun" where
  "copyout_loop f pgdir va bs =
     (if bs = [] then ret 0
      else case f of 0 \<Rightarrow> spin
      | Suc f' \<Rightarrow>
          bnd (uva2ka pgdir (PGROUNDDOWN va)) (\<lambda>pa0.
          if pa0 = 0 then ret (- 1)
          else
          let n = min (4096 - page_off va) (length bs) in
          sq (copy_to_page pa0 (page_off va) (take n bs))
          (copyout_loop f' pgdir (PGROUNDDOWN va + PGSIZE) (drop n bs))))"

declare copyout_loop.simps [simp del]

definition copyout :: "32 word \<Rightarrow> 32 word \<Rightarrow> byte list \<Rightarrow> int kfun" where
  "copyout pgdir va bs = copyout_loop (length bs) pgdir va bs"

section \<open>Memory through cr3\<close>

text \<open>
  The page and offset behind a virtual address.  Access to a page that is not present,
  or a write to a read-only one, traps in the kernel, and \<open>trap\<close> panics there.
\<close>

definition mmu :: "kstate \<Rightarrow> bool \<Rightarrow> 32 word \<Rightarrow> (32 word \<times> nat) option" where
  "mmu s wr va =
     (let pde = of_nat (get32 (pg s (p2v (cr3 s))) (4 * PDX va)) :: 32 word;
          pte = of_nat (get32 (pg s (p2v (PTE_ADDR pde))) (4 * PTX va)) :: 32 word
      in if pde AND PTE_P = 0 \<or> pte AND PTE_P = 0 \<or> wr \<and> (pde AND PTE_W = 0 \<or> pte AND PTE_W = 0) then None
         else Some (p2v (PTE_ADDR pte), page_off va))"

definition uload :: "32 word \<Rightarrow> byte kfun" where
  "uload va = bnd (gets (\<lambda>s. mmu s False va)) (\<lambda>r.
     case r of None \<Rightarrow> panic ''trap'' | Some (p, k) \<Rightarrow> gets (\<lambda>s. pg s p k))"

definition ustore :: "32 word \<Rightarrow> byte \<Rightarrow> unit kfun" where
  "ustore va c = bnd (gets (\<lambda>s. mmu s True va)) (\<lambda>r.
     case r of None \<Rightarrow> panic ''trap''
     | Some (p, k) \<Rightarrow> modify (\<lambda>s. s\<lparr>pg := (pg s)(p := (pg s p)(k := c))\<rparr>))"

fun uload_n :: "nat \<Rightarrow> 32 word \<Rightarrow> byte list kfun" where
  "uload_n 0 va = ret []"
| "uload_n (Suc n) va = bnd (uload va) (\<lambda>c. bnd (uload_n n (va + 1)) (\<lambda>xs. ret (c # xs)))"

fun ustore_n :: "32 word \<Rightarrow> byte list \<Rightarrow> unit kfun" where
  "ustore_n va [] = ret ()"
| "ustore_n va (c # xs) = sq (ustore va c) (ustore_n (va + 1) xs)"

definition uload32 :: "32 word \<Rightarrow> 32 word kfun" where
  "uload32 va = bnd (uload_n 4 va) (\<lambda>bs. ret (of_nat (get32 (bytes_of bs) 0)))"

definition ustore32 :: "32 word \<Rightarrow> 32 word \<Rightarrow> unit kfun" where
  "ustore32 va v = ustore_n va (slice (put32 0 (unat v) zeros) 0 4)"

end
