(* ===== verification/Pipe.thy ===== *)
theory Pipe
  imports Ring Kalloc Dir
begin

text \<open>
  Open files and pipes: \<open>file.c\<close> and \<open>pipe.c\<close>.  A \<open>struct pipe\<close> is named by the page
  it lives in, and its fields are kept beside the page.  The memory side of a transfer
  is a list of bytes, as in \<open>readi\<close> and \<open>writei\<close>; a woken process continues with
  \<open>pipewrite_loop\<close> or \<open>piperead_loop\<close>.

  The byte stream of a pipe is refined to a queue through the ring-buffer locale.
\<close>

section \<open>Pipes\<close>

abbreviation (input) PIPESIZE :: nat where "PIPESIZE \<equiv> 512"

definition getpipe :: "32 word \<Rightarrow> pipe kfun" where
  "getpipe p = gets (\<lambda>s. pipes s p)"

definition setpipe :: "32 word \<Rightarrow> (pipe \<Rightarrow> pipe) \<Rightarrow> unit kfun" where
  "setpipe p f = modify (\<lambda>s. s\<lparr>pipes := (pipes s)(p := f (pipes s p))\<rparr>)"

definition pipeclose :: "32 word \<Rightarrow> bool \<Rightarrow> unit kfun" where
  "pipeclose p writable =
     sq (acquire (PipeLock p))
     (sq (if writable
          then sq (setpipe p (\<lambda>x. x\<lparr>pi_writeopen := False\<rparr>)) (wakeup (ChanPipeR p))
          else sq (setpipe p (\<lambda>x. x\<lparr>pi_readopen := False\<rparr>)) (wakeup (ChanPipeW p)))
     (bnd (getpipe p) (\<lambda>x.
     if \<not> pi_readopen x \<and> \<not> pi_writeopen x
     then sq (release (PipeLock p)) (kfree p)
     else release (PipeLock p))))"

definition killed :: "bool kfun" where
  "killed = bnd myproc (\<lambda>j. bnd (getp j) (\<lambda>q. ret (p_killed q)))"

text \<open>\<open>n\<close> is the count the call was made with, \<open>src\<close> the bytes still to write.\<close>

fun pipewrite_loop :: "32 word \<Rightarrow> int \<Rightarrow> byte list \<Rightarrow> int kfun" where
  "pipewrite_loop p n [] = sq (wakeup (ChanPipeR p)) (sq (release (PipeLock p)) (ret n))"
| "pipewrite_loop p n (c # src) =
     bnd (getpipe p) (\<lambda>x.
     if pi_nwrite x = pi_nread x + of_nat PIPESIZE then
       bnd killed (\<lambda>k.
       if \<not> pi_readopen x \<or> k then sq (release (PipeLock p)) (ret (- 1))
       else sq (wakeup (ChanPipeR p)) (sleep (ChanPipeW p) (Some (PipeLock p))))
     else
       sq (setpipe p (\<lambda>x. x\<lparr>pi_data := (pi_data x)(unat (pi_nwrite x) mod PIPESIZE := c),
                            pi_nwrite := pi_nwrite x + 1\<rparr>))
          (pipewrite_loop p n src))"

definition pipewrite :: "32 word \<Rightarrow> int \<Rightarrow> byte list \<Rightarrow> int kfun" where
  "pipewrite p n src = sq (acquire (PipeLock p)) (pipewrite_loop p n (take (nat n) src))"

text \<open>The copying loop of \<open>piperead\<close>: at most \<open>n\<close> further bytes.\<close>

fun piperead_copy :: "32 word \<Rightarrow> nat \<Rightarrow> byte list kfun" where
  "piperead_copy p 0 = ret []"
| "piperead_copy p (Suc n) =
     bnd (getpipe p) (\<lambda>x.
     if pi_nread x = pi_nwrite x then ret []
     else
       sq (setpipe p (\<lambda>x. x\<lparr>pi_nread := pi_nread x + 1\<rparr>))
       (bnd (piperead_copy p n) (\<lambda>bs.
       ret (pi_data x (unat (pi_nread x) mod PIPESIZE) # bs))))"

definition piperead_loop :: "32 word \<Rightarrow> int \<Rightarrow> byte list option kfun" where
  "piperead_loop p n =
     bnd (getpipe p) (\<lambda>x.
     if pi_nread x = pi_nwrite x \<and> pi_writeopen x then
       bnd killed (\<lambda>k.
       if k then sq (release (PipeLock p)) (ret None)
       else sleep (ChanPipeR p) (Some (PipeLock p)))
     else
       bnd (piperead_copy p (nat n)) (\<lambda>bs.
       sq (wakeup (ChanPipeW p))
       (sq (release (PipeLock p))
       (ret (Some bs)))))"

definition piperead :: "32 word \<Rightarrow> int \<Rightarrow> byte list option kfun" where
  "piperead p n = sq (acquire (PipeLock p)) (piperead_loop p n)"

section \<open>The file table\<close>

definition fileinit :: "unit kfun" where
  "fileinit = initlock FtableLock"

definition filealloc :: "nat option kfun" where
  "filealloc =
     sq (acquire FtableLock)
     (bnd (gets ftable) (\<lambda>ft.
     case find_index (\<lambda>f. f_ref f = 0) ft of
       Some i \<Rightarrow> sq (setf i (\<lambda>f. f\<lparr>f_ref := 1\<rparr>)) (sq (release FtableLock) (ret (Some i)))
     | None \<Rightarrow> sq (release FtableLock) (ret None)))"

definition filedup :: "nat \<Rightarrow> nat kfun" where
  "filedup i =
     sq (acquire FtableLock)
     (bnd (getf i) (\<lambda>f.
     if f_ref f < 1 then panic ''filedup''
     else sq (setf i (\<lambda>f. f\<lparr>f_ref := f_ref f + 1\<rparr>)) (sq (release FtableLock) (ret i))))"

definition fileclose :: "nat \<Rightarrow> unit kfun" where
  "fileclose i =
     sq (acquire FtableLock)
     (bnd (getf i) (\<lambda>f.
     if f_ref f < 1 then panic ''fileclose''
     else
     sq (setf i (\<lambda>f. f\<lparr>f_ref := f_ref f - 1\<rparr>))
     (if 0 < f_ref f - 1 then release FtableLock
      else
      sq (setf i (\<lambda>f. f\<lparr>f_ref := 0, f_type := FD_NONE\<rparr>))
      (sq (release FtableLock)
      (case f_type f of
         FD_PIPE \<Rightarrow> pipeclose (f_pipe f) (f_writable f)
       | FD_INODE \<Rightarrow> sq begin_op (sq (iput (f_ip f)) end_op)
       | FD_NONE \<Rightarrow> ret ())))))"

text \<open>\<open>None\<close> is the result \<open>-1\<close>.\<close>

definition filestat :: "nat \<Rightarrow> stat option kfun" where
  "filestat i =
     bnd (getf i) (\<lambda>f.
     if f_type f = FD_INODE
     then sq (ilock (f_ip f)) (bnd (stati (f_ip f)) (\<lambda>st. sq (iunlock (f_ip f)) (ret (Some st))))
     else ret None)"

definition fileread :: "nat \<Rightarrow> int \<Rightarrow> byte list option kfun" where
  "fileread i n =
     bnd (getf i) (\<lambda>f.
     if \<not> f_readable f then ret None
     else case f_type f of
       FD_PIPE \<Rightarrow> piperead (f_pipe f) n
     | FD_INODE \<Rightarrow>
         sq (ilock (f_ip f))
         (bnd (readi (f_ip f) (f_off f) (nat32 n)) (\<lambda>r.
         sq (case r of None \<Rightarrow> ret ()
             | Some bs \<Rightarrow> whenk (bs \<noteq> []) (setf i (\<lambda>f. f\<lparr>f_off := f_off f + length bs\<rparr>)))
         (sq (iunlock (f_ip f))
         (ret r))))
     | FD_NONE \<Rightarrow> panic ''fileread'')"

text \<open>The largest piece \<open>filewrite\<close> hands to \<open>writei\<close>: \<open>((LOGSIZE-1-1-2) / 2) * 512\<close>.\<close>

definition write_max :: nat where
  "write_max = ((LOGSIZE - 1 - 1 - 2) div 2) * 512"

lemma write_max_pos: "0 < write_max"
  by (simp add: write_max_def)

function filewrite_loop :: "nat \<Rightarrow> byte list \<Rightarrow> nat \<Rightarrow> int kfun" where
  "filewrite_loop i src k =
     (if \<not> k < length src then ret (int (length src))
      else
        let n1 = min (length src - k) write_max in
        bnd (getf i) (\<lambda>f.
        sq begin_op
        (sq (ilock (f_ip f))
        (bnd (writei (f_ip f) (f_off f) (take n1 (drop k src))) (\<lambda>r.
        sq (whenk (0 < r) (setf i (\<lambda>f. f\<lparr>f_off := f_off f + nat r\<rparr>)))
        (sq (iunlock (f_ip f))
        (sq end_op
        (if r < 0 then ret (- 1)
         else if r \<noteq> int n1 then panic ''short filewrite''
         else filewrite_loop i src (k + n1)))))))))"
  by pat_completeness auto
termination
  by (relation "measure (\<lambda>(i, src, k). length src - k)") (use write_max_pos in auto)

declare filewrite_loop.simps [simp del]

definition filewrite :: "nat \<Rightarrow> int \<Rightarrow> byte list \<Rightarrow> int kfun" where
  "filewrite i n src =
     bnd (getf i) (\<lambda>f.
     if \<not> f_writable f then ret (- 1)
     else case f_type f of
       FD_PIPE \<Rightarrow> pipewrite (f_pipe f) n src
     | FD_INODE \<Rightarrow> if n < 0 then ret (- 1) else filewrite_loop i (take (nat n) src) 0
     | FD_NONE \<Rightarrow> panic ''filewrite'')"

text \<open>\<open>pipealloc\<close>: the two files, or \<open>None\<close> for the result \<open>-1\<close>.\<close>

definition pipealloc :: "(nat \<times> nat) option kfun" where
  "pipealloc =
     bnd filealloc (\<lambda>r0.
     case r0 of None \<Rightarrow> ret None
     | Some f0 \<Rightarrow>
     bnd filealloc (\<lambda>r1.
     case r1 of None \<Rightarrow> sq (fileclose f0) (ret None)
     | Some f1 \<Rightarrow>
     bnd kalloc (\<lambda>p.
     if p = 0 then sq (fileclose f0) (sq (fileclose f1) (ret None))
     else
     sq (setpipe p (\<lambda>x. x\<lparr>pi_readopen := True, pi_writeopen := True, pi_nwrite := 0, pi_nread := 0\<rparr>))
     (sq (initlock (PipeLock p))
     (sq (setf f0 (\<lambda>f. f\<lparr>f_type := FD_PIPE, f_readable := True, f_writable := False, f_pipe := p\<rparr>))
     (sq (setf f1 (\<lambda>f. f\<lparr>f_type := FD_PIPE, f_readable := False, f_writable := True, f_pipe := p\<rparr>))
     (ret (Some (f0, f1)))))))))"

section \<open>A pipe is a queue\<close>

interpretation pipe_ring: ring 512
  by unfold_locales auto

definition pipe_queue :: "pipe \<Rightarrow> byte list" where
  "pipe_queue x = queued PIPESIZE (pi_data x) (pi_nread x) (pi_nwrite x)"

definition pipe_ok :: "pipe \<Rightarrow> bool" where
  "pipe_ok x \<longleftrightarrow> length (pipe_queue x) \<le> PIPESIZE"

definition put_byte :: "byte \<Rightarrow> pipe \<Rightarrow> pipe" where
  "put_byte c x = x\<lparr>pi_data := (pi_data x)(unat (pi_nwrite x) mod PIPESIZE := c), pi_nwrite := pi_nwrite x + 1\<rparr>"

lemma pipe_full_iff: "pipe_ok x \<Longrightarrow> pi_nwrite x = pi_nread x + 512 \<longleftrightarrow> length (pipe_queue x) = 512"
proof -
  have "w = 512" if "unat w = 512" for w :: "32 word"
    using arg_cong [OF that, of "of_nat :: nat \<Rightarrow> 32 word"] by simp
  then have "unat (pi_nwrite x - pi_nread x) = 512 \<longleftrightarrow> pi_nwrite x - pi_nread x = 512"
    by auto
  moreover have "pi_nwrite x - pi_nread x = 512 \<longleftrightarrow> pi_nwrite x = pi_nread x + 512"
    by (auto simp: algebra_simps)
  ultimately show ?thesis by (simp add: pipe_queue_def)
qed

lemma put_byte_queue:
  "length (pipe_queue x) < PIPESIZE \<Longrightarrow> pipe_queue (put_byte c x) = pipe_queue x @ [c]"
  using pipe_ring.queued_put [of "pi_nwrite x" "pi_nread x" "pi_data x" c] by (simp add: pipe_queue_def put_byte_def)

lemma put_byte_fields [simp]:
  "pi_readopen (put_byte c x) = pi_readopen x" "pi_writeopen (put_byte c x) = pi_writeopen x"
  by (simp_all add: put_byte_def)

lemma empty_iff: "pi_nread x = pi_nwrite x \<longleftrightarrow> pipe_queue x = []"
  by (auto simp: pipe_queue_def queued_Nil)

definition with_pipe :: "32 word \<Rightarrow> pipe \<Rightarrow> kstate \<Rightarrow> kstate" where
  "with_pipe p x s = s\<lparr>pipes := (pipes s)(p := x)\<rparr>"

lemma with_pipe_simps [simp]:
  "pipes (with_pipe p x s) p = x" "with_pipe p y (with_pipe p x s) = with_pipe p y s"
  "with_pipe p (pipes s p) s = s" "locks (with_pipe p x s) = locks s" "kcpu (with_pipe p x s) = kcpu s"
  "ptable (with_pipe p x s) = ptable s" "curproc (with_pipe p x s) = curproc s"
  "ptable_ok (with_pipe p x s) = ptable_ok s"
  by (simp_all add: with_pipe_def ptable_ok_def)

lemma wp_pipe [wp]:
  "twp (getpipe p) Q s = Q (pipes s p) s"
  "twp (setpipe p f) R s = R () (with_pipe p (f (pipes s p)) s)"
  by (simp_all add: getpipe_def setpipe_def wp with_pipe_def)

text \<open>The copying loops, inside the critical section.\<close>

lemma piperead_copy_eq:
  "\<exists>x'. piperead_copy p n s = Done (take n (pipe_queue (pipes s p))) (with_pipe p x' s) \<and>
     pipe_queue x' = drop n (pipe_queue (pipes s p)) \<and> x' = (pipes s p)\<lparr>pi_nread := pi_nread x'\<rparr>"
proof (induction n arbitrary: s)
  case 0
  show ?case by (rule exI [of _ "pipes s p"]) (simp add: ret_def)
next
  case (Suc n)
  let ?x = "pipes s p"
  show ?case
  proof (cases "pi_nread ?x = pi_nwrite ?x")
    case True
    then show ?thesis
      by (intro exI [of _ ?x]) (simp add: getpipe_def bnd_def gets_def ret_def empty_iff)
  next
    case False
    let ?y = "?x\<lparr>pi_nread := pi_nread ?x + 1\<rparr>"
    have q: "pipe_queue ?x = pi_data ?x (unat (pi_nread ?x) mod 512) # pipe_queue ?y"
      using pipe_ring.queued_get [OF False] by (simp add: pipe_queue_def)
    obtain x' where x': "piperead_copy p n (with_pipe p ?y s) = Done (take n (pipe_queue ?y)) (with_pipe p x' s)"
      "pipe_queue x' = drop n (pipe_queue ?y)" "x' = ?y\<lparr>pi_nread := pi_nread x'\<rparr>"
      using Suc.IH [of "with_pipe p ?y s"] by auto
    have "x' = ?x\<lparr>pi_nread := pi_nread x'\<rparr>" using x'(3) by simp
    moreover have "setpipe p (\<lambda>x. x\<lparr>pi_nread := pi_nread x + 1\<rparr>) s = Done () (with_pipe p ?y s)"
      by (simp add: setpipe_def modify_def with_pipe_def)
    ultimately show ?thesis
      using False q x'(1,2) by (intro exI [of _ x']) (simp add: getpipe_def bnd_def sq_def gets_def ret_def)
  qed
qed

fun put_bytes :: "byte list \<Rightarrow> pipe \<Rightarrow> pipe" where
  "put_bytes [] x = x"
| "put_bytes (c # xs) x = put_bytes xs (put_byte c x)"

lemma put_bytes_queue:
  "length (pipe_queue x) + length bs \<le> PIPESIZE \<Longrightarrow> pipe_queue (put_bytes bs x) = pipe_queue x @ bs"
  by (induction bs arbitrary: x) (simp_all add: put_byte_queue)

lemma put_bytes_fields [simp]:
  "pi_readopen (put_bytes bs x) = pi_readopen x" "pi_writeopen (put_bytes bs x) = pi_writeopen x"
  by (induction bs arbitrary: x) simp_all

lemma pipewrite_fill:
  "length (pipe_queue (pipes s p)) + length bs \<le> PIPESIZE \<Longrightarrow>
     pipewrite_loop p n (bs @ rest) s = pipewrite_loop p n rest (with_pipe p (put_bytes bs (pipes s p)) s)"
proof (induction bs arbitrary: s)
  case Nil
  then show ?case by simp
next
  case (Cons c bs)
  let ?x = "pipes s p"
  have "pipe_ok ?x" "length (pipe_queue ?x) \<noteq> 512" using Cons.prems by (simp_all add: pipe_ok_def)
  then have nf: "pi_nwrite ?x \<noteq> pi_nread ?x + 512" using pipe_full_iff by blast
  have "setpipe p (\<lambda>x. x\<lparr>pi_data := (pi_data x)(unat (pi_nwrite x) mod PIPESIZE := c), pi_nwrite := pi_nwrite x + 1\<rparr>) s =
     Done () (with_pipe p (put_byte c ?x) s)"
    by (simp add: setpipe_def modify_def with_pipe_def put_byte_def)
  then have "pipewrite_loop p n ((c # bs) @ rest) s = pipewrite_loop p n (bs @ rest) (with_pipe p (put_byte c ?x) s)"
    using nf by (simp add: getpipe_def bnd_def sq_def gets_def)
  also have "\<dots> = pipewrite_loop p n rest (with_pipe p (put_bytes (c # bs) ?x) s)"
    using Cons.IH [of "with_pipe p (put_byte c ?x) s"] Cons.prems by (simp add: put_byte_queue)
  finally show ?case .
qed

section \<open>The contracts of reading and writing\<close>

text \<open>A critical section of a pipe on a quiet processor, and the wakeup inside it.\<close>

definition pipe_cs :: "32 word \<Rightarrow> pipe \<Rightarrow> chan \<Rightarrow> kstate \<Rightarrow> kstate" where
  "pipe_cs p x ch s = (cs s)\<lparr>pipes := (pipes s)(p := x), ptable := map (wake ch) (ptable s)\<rparr>"

lemma pipe_cs_fields [simp]:
  "pipes (pipe_cs p x ch s) = (pipes s)(p := x)" "ptable (pipe_cs p x ch s) = map (wake ch) (ptable s)"
  "quiet s \<Longrightarrow> quiet (pipe_cs p x ch s)"
  by (simp_all add: pipe_cs_def)

lemma wake_then_release:
  assumes "quiet s" and "ptable_ok s"
  shows "sq (wakeup ch) (sq (release (PipeLock p)) (ret v)) (with_pipe p x (acquired (PipeLock p) s)) =
    Done v (pipe_cs p x ch s)"
proof -
  let ?u = "with_pipe p x (acquired (PipeLock p) s)"
  let ?v = "?u\<lparr>ptable := map (wake ch) (ptable s)\<rparr>"
  have "wakeup ch ?u = Done () ?v"
    using assms wakeup_inside [of ?u ch] by (simp add: quiet_def pushed_def)
  moreover have "release (PipeLock p) ?v = Done () (?v\<lparr>locks := locks s, kcpu := kcpu (cs s)\<rparr>)"
    using assms(1) by (intro release_quiet) simp_all
  moreover have "?v\<lparr>locks := locks s, kcpu := kcpu (cs s)\<rparr> = pipe_cs p x ch s"
    by (simp add: pipe_cs_def with_pipe_def acquired_def cs_def)
  ultimately show ?thesis by (simp add: sq_def bnd_def ret_def)
qed

lemma just_release:
  assumes "quiet s"
  shows "sq (release (PipeLock p)) (ret v) (with_pipe p x (acquired (PipeLock p) s)) =
    Done v ((cs s)\<lparr>pipes := (pipes s)(p := x)\<rparr>)"
proof -
  let ?u = "with_pipe p x (acquired (PipeLock p) s)"
  have "release (PipeLock p) ?u = Done () (?u\<lparr>locks := locks s, kcpu := kcpu (cs s)\<rparr>)"
    using assms by (intro release_quiet) simp_all
  then show ?thesis
    by (simp add: sq_def bnd_def ret_def with_pipe_def acquired_def cs_def)
qed

text \<open>Going to sleep on a pipe: the lock is free again and the process sleeps on the channel.\<close>

lemma sleep_on_pipe:
  assumes "quiet s" and "ptable_ok s" and "curproc s = Some i" and "i < NPROC" and "length ps = NPROC"
  shows "\<exists>t. sleep ch (Some (PipeLock p)) ((with_pipe p x (acquired (PipeLock p) s))\<lparr>ptable := ps\<rparr>) =
      (Switch t :: (kstate, 'a) outcome) \<and>
    pipes t = (pipes s)(p := x) \<and> locks t (PipeLock p) = free_lock \<and>
    ptable t = upd_nth i (\<lambda>q. q\<lparr>p_chan := Some ch, p_state := SLEEPING\<rparr>) ps"
proof -
  let ?u = "(with_pipe p x (acquired (PipeLock p) s))\<lparr>ptable := ps\<rparr>"
  let ?v = "released (PipeLock p) (acquired PtableLock ?u)"
  let ?t = "?v\<lparr>ptable := upd_nth i (\<lambda>q. q\<lparr>p_state := SLEEPING\<rparr>) (upd_nth i (\<lambda>q. q\<lparr>p_chan := Some ch\<rparr>) ps)\<rparr>"
  have c: "\<not> eflags_if (popped (pushed (pushed (kcpu s))))" "ncli (kcpu s) = 0"
    using assms(1) by (simp_all add: popped_def pushed_def quiet_def)
  have "sleep ch (Some (PipeLock p)) ?u = (Switch ?t :: (kstate, 'a) outcome)"
    using assms c
    by (simp add: sleep_def bnd_def sq_def gets_def acquire_eq release_eq whenk_def setp_def getp_def modify_def
        sched_def holding_def myproc_def ret_def switch_away_def quiet_def free_lock_def releasable_def)
  moreover have "ptable ?t = upd_nth i (\<lambda>q. q\<lparr>p_chan := Some ch, p_state := SLEEPING\<rparr>) ps"
    using assms(4,5) by (intro nth_equalityI) auto
  moreover have "pipes ?t = (pipes s)(p := x)" by (simp add: with_pipe_def)
  moreover have "locks ?t (PipeLock p) = free_lock" using assms(1) by (simp add: quiet_def free_lock_def)
  ultimately show ?thesis by blast
qed

text \<open>
  C17: writing to a pipe appends to its queue of bytes.  If the bytes fit into what is left
  of the 512, \<open>pipewrite\<close> returns their number, the queue has grown by exactly them in
  order, and sleeping readers are woken.  Otherwise the queue is filled up with the
  first of them; the call returns \<open>-1\<close> when the read end is closed or the process has
  been killed, and else wakes the readers and puts the process to sleep with the pipe's
  lock released.  No other pipe changes, whatever the values of the wrapping indices.
\<close>

theorem pipewrite_refines_queue:
  assumes "quiet s" and "ptable_ok s" and "curproc s = Some i" and "i < NPROC" and "pipe_ok (pipes s p)"
  shows "let q = pipe_queue (pipes s p); room = PIPESIZE - length q in
    if length src \<le> room then
      \<exists>t. pipewrite p (int (length src)) src s = Done (int (length src)) t \<and> quiet t \<and>
        pipe_queue (pipes t p) = q @ src \<and> pipe_ok (pipes t p) \<and> (\<forall>r. r \<noteq> p \<longrightarrow> pipes t r = pipes s r) \<and>
        ptable t = map (wake (ChanPipeR p)) (ptable s)
    else if \<not> pi_readopen (pipes s p) \<or> p_killed (ptable s ! i) then
      \<exists>t. pipewrite p (int (length src)) src s = Done (- 1) t \<and> quiet t \<and> ptable t = ptable s \<and>
        pipe_queue (pipes t p) = q @ take room src \<and> (\<forall>r. r \<noteq> p \<longrightarrow> pipes t r = pipes s r)
    else
      \<exists>t. pipewrite p (int (length src)) src s = Switch t \<and> locks t (PipeLock p) = free_lock \<and>
        pipe_queue (pipes t p) = q @ take room src \<and> (\<forall>r. r \<noteq> p \<longrightarrow> pipes t r = pipes s r) \<and>
        ptable t = upd_nth i (\<lambda>x. x\<lparr>p_chan := Some (ChanPipeW p), p_state := SLEEPING\<rparr>)
          (map (wake (ChanPipeR p)) (ptable s))"
proof -
  let ?u = "acquired (PipeLock p) s" and ?x = "pipes s p" and ?q = "pipe_queue (pipes s p)"
  let ?room = "PIPESIZE - length ?q"
  define y where "y = put_bytes (take ?room src) ?x"
  have lq: "length ?q \<le> 512" using assms(5) by (simp add: pipe_ok_def)
  have yq: "pipe_queue y = ?q @ take ?room src"
    using lq put_bytes_queue [of ?x "take ?room src"] by (simp add: y_def)
  have start: "pipewrite p (int (length src)) src s = pipewrite_loop p (int (length src)) (drop ?room src) (with_pipe p y ?u)"
  proof -
    have "pipewrite p (int (length src)) src s = pipewrite_loop p (int (length src)) (take ?room src @ drop ?room src) ?u"
      using assms(1) by (simp add: pipewrite_def sq_def bnd_def acquire_eq)
    also have "\<dots> = pipewrite_loop p (int (length src)) (drop ?room src) (with_pipe p (put_bytes (take ?room src) (pipes ?u p)) ?u)"
      by (rule pipewrite_fill) (use lq in simp)
    finally show ?thesis by (simp add: y_def)
  qed
  show ?thesis
  proof (cases "length src \<le> ?room")
    case True
    then have "pipewrite p (int (length src)) src s = Done (int (length src)) (pipe_cs p y (ChanPipeR p) s)"
      using start wake_then_release [OF assms(1,2)] by simp
    moreover have "pipe_ok y" using yq True lq by (simp add: pipe_ok_def)
    ultimately show ?thesis using True yq assms(1) by (simp add: Let_def)
  next
    case False
    then obtain c cs' where d: "drop ?room src = c # cs'" by (cases "drop ?room src") auto
    have len: "length (pipe_queue y) = 512" using yq False lq by simp
    then have full: "pi_nwrite y = pi_nread y + 512" using pipe_full_iff [of y] by (simp add: pipe_ok_def)
    have ro: "pi_readopen y = pi_readopen ?x" by (simp add: y_def)
    have kl: "killed (with_pipe p y ?u) = Done (p_killed (ptable s ! i)) (with_pipe p y ?u)"
      using assms(3) by (simp add: killed_def myproc_def getp_def bnd_def gets_def ret_def)
    have loop: "pipewrite_loop p (int (length src)) (c # cs') (with_pipe p y ?u) =
      (if \<not> pi_readopen ?x \<or> p_killed (ptable s ! i) then sq (release (PipeLock p)) (ret (- 1)) (with_pipe p y ?u)
       else sq (wakeup (ChanPipeR p)) (sleep (ChanPipeW p) (Some (PipeLock p))) (with_pipe p y ?u))"
      using full kl ro by (simp add: getpipe_def bnd_def gets_def)
    show ?thesis
    proof (cases "\<not> pi_readopen ?x \<or> p_killed (ptable s ! i)")
      case True
      then show ?thesis
        using False start d loop yq assms(1) just_release [OF assms(1), of p "- 1 :: int" y] by (auto simp: Let_def)
    next
      case wait: False
      let ?ps = "map (wake (ChanPipeR p)) (ptable s)"
      have "wakeup (ChanPipeR p) (with_pipe p y ?u) = Done () ((with_pipe p y ?u)\<lparr>ptable := ?ps\<rparr>)"
        using assms(1,2) wakeup_inside [of "with_pipe p y ?u" "ChanPipeR p"] by (simp add: quiet_def pushed_def)
      moreover have "length ?ps = NPROC" using assms(2) by (simp add: ptable_ok_def)
      ultimately obtain t where "sq (wakeup (ChanPipeR p)) (sleep (ChanPipeW p) (Some (PipeLock p))) (with_pipe p y ?u) =
          (Switch t :: (kstate, int) outcome)"
        "pipes t = (pipes s)(p := y)" "locks t (PipeLock p) = free_lock"
        "ptable t = upd_nth i (\<lambda>q. q\<lparr>p_chan := Some (ChanPipeW p), p_state := SLEEPING\<rparr>) ?ps"
        using sleep_on_pipe [OF assms(1-4), of ?ps "ChanPipeW p" p y] by (auto simp: sq_def bnd_def)
      then show ?thesis using False wait start d loop yq by (simp add: Let_def)
    qed
  qed
qed

text \<open>
  C18: reading from a pipe takes from the front of its queue.  With bytes in the queue, or
  the write end closed, \<open>piperead\<close> returns the first \<open>n\<close> of them (all, if there are
  fewer; none at end of file), leaves the rest in order and wakes sleeping writers.  On
  an empty pipe that can still be written, a killed process gets \<open>-1\<close> and any other
  goes to sleep with the pipe's lock released and the pipe unchanged.
\<close>

theorem piperead_refines_queue:
  assumes "quiet s" and "ptable_ok s" and "curproc s = Some i" and "i < NPROC" and "pipe_ok (pipes s p)"
  shows "let q = pipe_queue (pipes s p) in
    if q \<noteq> [] \<or> \<not> pi_writeopen (pipes s p) then
      \<exists>t. piperead p n s = Done (Some (take (nat n) q)) t \<and> quiet t \<and>
        pipe_queue (pipes t p) = drop (nat n) q \<and> pipe_ok (pipes t p) \<and> (\<forall>r. r \<noteq> p \<longrightarrow> pipes t r = pipes s r) \<and>
        ptable t = map (wake (ChanPipeW p)) (ptable s)
    else if p_killed (ptable s ! i) then
      \<exists>t. piperead p n s = Done None t \<and> quiet t \<and> pipes t = pipes s \<and> ptable t = ptable s
    else
      \<exists>t. piperead p n s = Switch t \<and> locks t (PipeLock p) = free_lock \<and> pipes t = pipes s \<and>
        ptable t = upd_nth i (\<lambda>x. x\<lparr>p_chan := Some (ChanPipeR p), p_state := SLEEPING\<rparr>) (ptable s)"
proof -
  let ?u = "acquired (PipeLock p) s" and ?x = "pipes s p" and ?q = "pipe_queue (pipes s p)"
  have start: "piperead p n s = piperead_loop p n ?u"
    using assms(1) by (simp add: piperead_def sq_def bnd_def acquire_eq)
  show ?thesis
  proof (cases "?q \<noteq> [] \<or> \<not> pi_writeopen ?x")
    case True
    obtain y where y: "piperead_copy p (nat n) ?u = Done (take (nat n) ?q) (with_pipe p y ?u)" "pipe_queue y = drop (nat n) ?q"
      using piperead_copy_eq [of p "nat n" ?u] by auto
    have "piperead_loop p n ?u = Done (Some (take (nat n) ?q)) (pipe_cs p y (ChanPipeW p) s)"
      using True y(1) wake_then_release [OF assms(1,2), of "ChanPipeW p" p "Some (take (nat n) ?q)" y]
      by (auto simp: piperead_loop_def getpipe_def bnd_def gets_def empty_iff)
    moreover have "pipe_ok y" using y(2) assms(5) by (simp add: pipe_ok_def)
    ultimately show ?thesis using True start y(2) assms(1) by (simp add: Let_def)
  next
    case False
    have kl: "killed ?u = Done (p_killed (ptable s ! i)) ?u"
      using assms(3) by (simp add: killed_def myproc_def getp_def bnd_def gets_def ret_def)
    have e: "piperead_loop p n ?u =
      (if p_killed (ptable s ! i) then sq (release (PipeLock p)) (ret None) ?u
       else sleep (ChanPipeR p) (Some (PipeLock p)) ?u)"
      using False kl by (simp add: piperead_loop_def getpipe_def bnd_def gets_def empty_iff)
    have w: "with_pipe p ?x ?u = ?u" by (simp add: with_pipe_def)
    have "length (ptable s) = NPROC" using assms(2) by (simp add: ptable_ok_def)
    then obtain t where "sleep (ChanPipeR p) (Some (PipeLock p)) ?u = (Switch t :: (kstate, byte list option) outcome)"
      "pipes t = pipes s" "locks t (PipeLock p) = free_lock"
      "ptable t = upd_nth i (\<lambda>q. q\<lparr>p_chan := Some (ChanPipeR p), p_state := SLEEPING\<rparr>) (ptable s)"
      using sleep_on_pipe [OF assms(1-4), of "ptable s" "ChanPipeR p" p ?x] w by (auto simp: acquired_def)
    then show ?thesis
      using False start e just_release [OF assms(1), of p "None :: byte list option" ?x] w assms(1)
      by (auto simp: Let_def)
  qed
qed

definition example_pipe :: pipe where
  "example_pipe = zero_pipe\<lparr>pi_data := (\<lambda>k. if k = 511 then 7 else 9), pi_nread := 0xFFFFFFFF, pi_nwrite := 1,
     pi_readopen := True, pi_writeopen := True\<rparr>"

lemma example_pipe_queue: "pipe_queue example_pipe = [7, 9]" "pipe_ok example_pipe"
proof -
  have "unat (1 - 0xFFFFFFFF :: 32 word) = 2" by simp
  moreover have "unat (0xFFFFFFFF :: 32 word) mod 512 = 511" "unat (0xFFFFFFFF + 1 :: 32 word) mod 512 = 0" by simp_all
  ultimately show "pipe_queue example_pipe = [7, 9]"
    by (simp add: pipe_queue_def queued_def example_pipe_def zero_pipe_def upt_rec)
  then show "pipe_ok example_pipe" by (simp add: pipe_ok_def)
qed

definition example_piped :: kstate where
  "example_piped = kzero\<lparr>curproc := Some 0, pipes := (\<lambda>_. example_pipe)\<rparr>"

lemma example_piped:
  "quiet example_piped" "ptable_ok example_piped" "curproc example_piped = Some 0"
  "pipes example_piped p = example_pipe"
  by (simp_all add: example_piped_def kzero_def zero_cpu_def quiet_def free_lock_def ptable_ok_def)

theorem pipewrite_refines_queue_witness:
  "quiet example_piped \<and> ptable_ok example_piped \<and> curproc example_piped = Some 0 \<and> (0 :: nat) < NPROC \<and>
   pipe_ok (pipes example_piped 4096) \<and>
   (\<exists>t. pipewrite 4096 3 [1, 2, 3] example_piped = Done 3 t \<and> pipe_queue (pipes t 4096) = [7, 9, 1, 2, 3])"
  using pipewrite_refines_queue [OF example_piped(1-3), of 4096 "[1, 2, 3]"] example_piped example_pipe_queue
  by (auto simp: Let_def)

theorem piperead_refines_queue_witness:
  "quiet example_piped \<and> ptable_ok example_piped \<and> curproc example_piped = Some 0 \<and> (0 :: nat) < NPROC \<and>
   pipe_ok (pipes example_piped 4096) \<and>
   (\<exists>t. piperead 4096 1 example_piped = Done (Some [7]) t \<and> pipe_queue (pipes t 4096) = [9])"
  using piperead_refines_queue [OF example_piped(1-3), of 4096 1] example_piped example_pipe_queue
  by (auto simp: Let_def)

end
