(* ===== verification/Proc.thy ===== *)
theory Proc
  imports Vm Pipe
begin

text \<open>
  Process creation, termination and scheduling, \<open>proc.c\<close> in the configuration without
  \<open>CS333_P3P4\<close>.  The contents of kernel stacks are not part of the state, so of the
  frames \<open>allocproc\<close> builds on one only the pointers are kept; \<open>p_tf\<close> is the trap
  frame itself.  The first user program, \<open>initcode\<close>, is linked in as a binary: its
  bytes are an argument.
\<close>

section \<open>Creation\<close>

definition allocproc :: "nat option kfun" where
  "allocproc =
     sq (acquire PtableLock)
     (bnd (gets ptable) (\<lambda>pt.
     case find_index (\<lambda>p. p_state p = UNUSED) pt of
       None \<Rightarrow> sq (release PtableLock) (ret None)
     | Some i \<Rightarrow>
         bnd (gets nextpid) (\<lambda>pid.
         bnd (gets ticks) (\<lambda>now.
         sq (modify (\<lambda>s. s\<lparr>nextpid := nextpid s + 1\<rparr>))
         (sq (setp i (\<lambda>p. p\<lparr>p_state := EMBRYO, p_pid := pid, p_start_ticks := now, p_uid := 0, p_gid := 0,
                          p_cpu_ticks_in := 0, p_cpu_ticks_total := 0, p_priority := 0, p_budget := BUDGET\<rparr>))
         (sq (release PtableLock)
         (bnd kalloc (\<lambda>ks.
         sq (setp i (\<lambda>p. p\<lparr>p_kstack := ks\<rparr>))
         (if ks = 0 then sq (setp i (\<lambda>p. p\<lparr>p_state := UNUSED\<rparr>)) (ret None)
          else sq (setp i (\<lambda>p. p\<lparr>p_context := ks + KSTACKSIZE - 76 - 4 - 20\<rparr>)) (ret (Some i)))))))))))"

definition user_tf :: trapframe where
  "user_tf = zero_trapframe
     \<lparr>tf_cs := ucast (push_bit 3 SEG_UCODE OR DPL_USER), tf_ds := ucast (push_bit 3 SEG_UDATA OR DPL_USER),
      tf_es := ucast (push_bit 3 SEG_UDATA OR DPL_USER), tf_ss := ucast (push_bit 3 SEG_UDATA OR DPL_USER),
      tf_eflags := FL_IF, tf_esp := PGSIZE, tf_eip := 0\<rparr>"

definition userinit :: "byte list \<Rightarrow> unit kfun" where
  "userinit initcode =
     bnd allocproc (\<lambda>r.
     case r of None \<Rightarrow> panic ''null proc''
     | Some i \<Rightarrow>
         sq (modify (\<lambda>s. s\<lparr>initproc := Some i\<rparr>))
         (bnd setupkvm (\<lambda>d.
         sq (setp i (\<lambda>p. p\<lparr>p_pgdir := d\<rparr>))
         (if d = 0 then panic ''userinit: out of memory?''
          else
          sq (inituvm d initcode)
          (sq (setp i (\<lambda>p. p\<lparr>p_sz := PGSIZE, p_tf := user_tf, p_name := safestr 16 (bytestr ''initcode'')\<rparr>))
          (bnd (namei [SLASH]) (\<lambda>c.
          sq (setp i (\<lambda>p. p\<lparr>p_cwd := c\<rparr>))
          (sq (setp i (\<lambda>p. p\<lparr>p_state := RUNNABLE\<rparr>))
          (setp i (\<lambda>p. p\<lparr>p_uid := 0, p_gid := 0\<rparr>))))))))))"

text \<open>\<open>n\<close> is a C \<open>int\<close>.\<close>

definition growproc :: "32 word \<Rightarrow> int kfun" where
  "growproc n =
     bnd myproc (\<lambda>i. bnd (getp i) (\<lambda>p.
     let sz = p_sz p;
         fin = (\<lambda>sz. sq (setp i (\<lambda>p. p\<lparr>p_sz := sz\<rparr>)) (sq (switchuvm i) (ret 0)))
     in if 0 <s n then
          bnd (allocuvm (p_pgdir p) sz (sz + n)) (\<lambda>sz'. if sz' = 0 then ret (- 1) else fin sz')
        else if n <s 0 then
          bnd (deallocuvm (p_pgdir p) sz (sz + n)) (\<lambda>sz'. if sz' = 0 then ret (- 1) else fin sz')
        else fin sz))"

text \<open>The loop of \<open>fork\<close> over the open files of the parent \<open>i\<close> for the child \<open>np\<close>.\<close>

definition dup_files :: "nat \<Rightarrow> nat \<Rightarrow> unit kfun" where
  "dup_files i np =
     forM [0 ..< NOFILE] (\<lambda>fd.
       bnd (getp i) (\<lambda>p.
       case p_ofile p ! fd of None \<Rightarrow> ret ()
       | Some f \<Rightarrow> bnd (filedup f) (\<lambda>f'. setp np (\<lambda>q. q\<lparr>p_ofile := (p_ofile q)[fd := Some f']\<rparr>))))"

definition fork :: "32 word kfun" where
  "fork =
     bnd allocproc (\<lambda>r.
     case r of None \<Rightarrow> ret (- 1)
     | Some np \<Rightarrow>
         bnd myproc (\<lambda>i. bnd (getp i) (\<lambda>p.
         bnd (copyuvm (p_pgdir p) (p_sz p)) (\<lambda>d.
         sq (setp np (\<lambda>q. q\<lparr>p_pgdir := d\<rparr>))
         (if d = 0 then
            bnd (getp np) (\<lambda>q.
            sq (kfree (p_kstack q))
            (sq (setp np (\<lambda>q. q\<lparr>p_kstack := 0, p_state := UNUSED\<rparr>))
            (ret (- 1))))
          else
          sq (setp np (\<lambda>q. q\<lparr>p_sz := p_sz p, p_parent := Some i, p_tf := (p_tf p)\<lparr>tf_eax := 0\<rparr>\<rparr>))
          (sq (dup_files i np)
          (sq (case p_cwd p of None \<Rightarrow> panic ''null cwd''
               | Some c \<Rightarrow> bnd (idup c) (\<lambda>c'. setp np (\<lambda>q. q\<lparr>p_cwd := Some c'\<rparr>)))
          (sq (setp np (\<lambda>q. q\<lparr>p_name := safestr 16 (p_name p)\<rparr>))
          (bnd (getp np) (\<lambda>q.
          sq (acquire PtableLock)
          (sq (setp np (\<lambda>q. q\<lparr>p_state := RUNNABLE\<rparr>))
          (sq (release PtableLock)
          (sq (setp np (\<lambda>q. q\<lparr>p_uid := p_uid p, p_gid := p_gid p\<rparr>))
          (ret (p_pid q)))))))))))))))"

section \<open>Termination\<close>

definition close_files :: "nat \<Rightarrow> unit kfun" where
  "close_files i =
     forM [0 ..< NOFILE] (\<lambda>fd.
       bnd (getp i) (\<lambda>p.
       case p_ofile p ! fd of None \<Rightarrow> ret ()
       | Some f \<Rightarrow> sq (fileclose f) (setp i (\<lambda>q. q\<lparr>p_ofile := (p_ofile q)[fd := None]\<rparr>))))"

text \<open>\<open>wakeup1\<close> on a process pointer; nobody sleeps on a null pointer.\<close>

definition wakeup_proc :: "nat option \<Rightarrow> unit kfun" where
  "wakeup_proc q = (case q of None \<Rightarrow> ret () | Some j \<Rightarrow> wakeup1 (ChanProc j))"

definition reparent :: "nat \<Rightarrow> unit kfun" where
  "reparent i =
     forM [0 ..< NPROC] (\<lambda>j.
       bnd (getp j) (\<lambda>p.
       whenk (p_parent p = Some i)
         (bnd (gets initproc) (\<lambda>ini.
         sq (setp j (\<lambda>p. p\<lparr>p_parent := ini\<rparr>))
         (whenk (p_state p = ZOMBIE) (wakeup_proc ini))))))"

definition exit_proc :: "'a kfun" where
  "exit_proc =
     bnd myproc (\<lambda>i. bnd (gets initproc) (\<lambda>ini.
     if ini = Some i then panic ''init exiting''
     else
     sq (close_files i)
     (sq begin_op
     (bnd (getp i) (\<lambda>p.
     sq (case p_cwd p of None \<Rightarrow> panic ''null cwd'' | Some c \<Rightarrow> iput c)
     (sq end_op
     (sq (setp i (\<lambda>p. p\<lparr>p_cwd := None\<rparr>))
     (sq (acquire PtableLock)
     (bnd (getp i) (\<lambda>p.
     sq (wakeup_proc (p_parent p))
     (sq (reparent i)
     (sq (setp i (\<lambda>p. p\<lparr>p_state := ZOMBIE\<rparr>))
     sched))))))))))))"

definition reap :: "nat \<Rightarrow> 32 word kfun" where
  "reap j =
     bnd (getp j) (\<lambda>p.
     sq (kfree (p_kstack p))
     (sq (setp j (\<lambda>p. p\<lparr>p_kstack := 0\<rparr>))
     (sq (freevm (p_pgdir p))
     (sq (setp j (\<lambda>p. p\<lparr>p_state := UNUSED, p_pid := 0, p_parent := None, p_name := [], p_killed := False\<rparr>))
     (sq (release PtableLock)
     (ret (p_pid p)))))))"

text \<open>The body of \<open>wait\<close>'s loop, which a woken parent runs again.\<close>

definition wait_loop :: "32 word kfun" where
  "wait_loop =
     bnd myproc (\<lambda>i.
     bnd (gets ptable) (\<lambda>pt.
     case find_index (\<lambda>p. p_parent p = Some i \<and> p_state p = ZOMBIE) pt of
       Some j \<Rightarrow> reap j
     | None \<Rightarrow>
         if (\<forall>p \<in> set pt. p_parent p \<noteq> Some i) \<or> p_killed (pt ! i)
         then sq (release PtableLock) (ret (- 1))
         else sleep (ChanProc i) (Some PtableLock)))"

definition wait :: "32 word kfun" where
  "wait = sq (acquire PtableLock) wait_loop"

definition kill :: "32 word \<Rightarrow> int kfun" where
  "kill pid =
     sq (acquire PtableLock)
     (bnd (gets ptable) (\<lambda>pt.
     case find_index (\<lambda>p. p_pid p = pid) pt of
       Some i \<Rightarrow>
         sq (setp i (\<lambda>p. p\<lparr>p_killed := True\<rparr>))
         (bnd (getp i) (\<lambda>p.
         sq (whenk (p_state p = SLEEPING) (setp i (\<lambda>p. p\<lparr>p_state := RUNNABLE\<rparr>)))
         (sq (release PtableLock)
         (ret 0))))
     | None \<Rightarrow> sq (release PtableLock) (ret (- 1))))"

section \<open>Scheduling\<close>

text \<open>
  The scheduler before and after the \<open>swtch\<close> to process \<open>i\<close>, and one pass over the
  table.  What happens between the two halves, the process's turn up to its own call of
  \<open>sched\<close>, is the argument \<open>turn\<close>.  The pass tells whether the processor was idle.
\<close>

definition dispatch :: "nat \<Rightarrow> unit kfun" where
  "dispatch i =
     sq (modify (\<lambda>s. s\<lparr>curproc := Some i\<rparr>))
     (sq (switchuvm i)
     (sq (setp i (\<lambda>p. p\<lparr>p_state := RUNNING\<rparr>))
     (bnd (gets ticks) (\<lambda>now. setp i (\<lambda>p. p\<lparr>p_cpu_ticks_in := now\<rparr>)))))"

definition undispatch :: "unit kfun" where
  "undispatch =
     bnd myproc (\<lambda>i.
     bnd (gets ticks) (\<lambda>now.
     sq (setp i (\<lambda>p. p\<lparr>p_cpu_ticks_total := p_cpu_ticks_total p + (now - p_cpu_ticks_in p)\<rparr>))
     (sq switchkvm
     (modify (\<lambda>s. s\<lparr>curproc := None\<rparr>)))))"

fun sched_scan :: "(nat \<Rightarrow> unit kfun) \<Rightarrow> nat list \<Rightarrow> bool \<Rightarrow> bool kfun" where
  "sched_scan turn [] idl = ret idl"
| "sched_scan turn (j # js) idl =
     bnd (getp j) (\<lambda>p.
     if p_state p \<noteq> RUNNABLE then sched_scan turn js idl
     else
     sq (dispatch j)
     (sq (turn j)
     (sq undispatch
     (sched_scan turn js False))))"

definition scheduler_pass :: "(nat \<Rightarrow> unit kfun) \<Rightarrow> bool kfun" where
  "scheduler_pass turn =
     sq (modify (\<lambda>s. s\<lparr>kcpu := (kcpu s)\<lparr>eflags_if := True\<rparr>\<rparr>))
     (sq (acquire PtableLock)
     (bnd (sched_scan turn [0 ..< NPROC] True) (\<lambda>idl.
     sq (release PtableLock)
     (sq (whenk idl (modify (\<lambda>s. s\<lparr>kcpu := (kcpu s)\<lparr>eflags_if := True\<rparr>\<rparr>)))
     (ret idl)))))"

definition forkret :: "unit kfun" where
  "forkret =
     sq (release PtableLock)
     (bnd (gets kfirst) (\<lambda>first.
     whenk first
       (sq (modify (\<lambda>s. s\<lparr>kfirst := False\<rparr>))
       (sq (iinit ROOTDEV)
       (initlog ROOTDEV)))))"

end
