(* ===== verification/Exec.thy ===== *)
theory Exec
  imports Proc
begin

text \<open>
  \<open>exec.c\<close> and the argument routines of \<open>syscall.c\<close>.  The strings \<open>path\<close> and
  \<open>argv\<close> are the characters before the terminating zero.  \<open>junk\<close> is what the
  uninitialised \<open>struct elfhdr\<close> on the stack holds, which \<open>exec\<close> looks at when
  \<open>readi\<close> answers \<open>-1\<close>: the comparison with \<open>sizeof(elf)\<close> is unsigned.
\<close>

section \<open>Program files (elf.h)\<close>

record elfhdr =
  e_magic :: "32 word"
  e_entry :: "32 word"
  e_phoff :: "32 word"
  e_phnum :: nat

record proghdr =
  ph_type :: "32 word"
  ph_off :: "32 word"
  ph_vaddr :: "32 word"
  ph_filesz :: "32 word"
  ph_memsz :: "32 word"

definition word32 :: "bytes \<Rightarrow> nat \<Rightarrow> 32 word" where
  "word32 d k = of_nat (get32 d k)"

definition dec_elf :: "bytes \<Rightarrow> elfhdr" where
  "dec_elf d = \<lparr>e_magic = word32 d 0, e_entry = word32 d 24, e_phoff = word32 d 28, e_phnum = get16 d 44\<rparr>"

definition dec_ph :: "bytes \<Rightarrow> proghdr" where
  "dec_ph d = \<lparr>ph_type = word32 d 0, ph_off = word32 d 4, ph_vaddr = word32 d 8,
     ph_filesz = word32 d 16, ph_memsz = word32 d 20\<rparr>"

abbreviation (input) ELF_MAGIC :: "32 word" where "ELF_MAGIC \<equiv> 0x464C457F"
abbreviation (input) ELF_PROG_LOAD :: "32 word" where "ELF_PROG_LOAD \<equiv> 1"

section \<open>exec\<close>

text \<open>The permission checks of \<open>CS333_P5\<close>: \<open>True\<close> lets the program run.\<close>

definition exec_allowed :: "proc \<Rightarrow> inode \<Rightarrow> bool" where
  "exec_allowed p ip \<longleftrightarrow>
     \<not> (p_uid p = of_nat (i_uid ip) \<and> \<not> u_x (i_mode ip)) \<and>
     \<not> (p_gid p = of_nat (i_gid ip) \<and> \<not> g_x (i_mode ip)) \<and>
     o_x (i_mode ip)"

text \<open>The loop over the program headers; \<open>None\<close> is \<open>goto bad\<close>.\<close>

fun load_segments :: "32 word \<Rightarrow> nat \<Rightarrow> nat \<Rightarrow> 32 word \<Rightarrow> 32 word \<Rightarrow> 32 word option kfun" where
  "load_segments pgdir ip 0 off sz = ret (Some sz)"
| "load_segments pgdir ip (Suc n) off sz =
     bnd (readi ip (unat off) 32) (\<lambda>r.
     case r of None \<Rightarrow> ret None
     | Some bs \<Rightarrow>
         if length bs \<noteq> 32 then ret None
         else
         let ph = dec_ph (bytes_of bs) in
         if ph_type ph \<noteq> ELF_PROG_LOAD then load_segments pgdir ip n (off + 32) sz
         else if ph_memsz ph < ph_filesz ph then ret None
         else
         bnd (allocuvm pgdir sz (ph_vaddr ph + ph_memsz ph)) (\<lambda>sz'.
         if sz' = 0 then ret None
         else
         bnd (loaduvm pgdir (ph_vaddr ph) ip (ph_off ph) (ph_filesz ph)) (\<lambda>r.
         if r < 0 then ret None
         else load_segments pgdir ip n (off + 32) sz')))"

text \<open>
  The strings of \<open>argv\<close> go to the new stack from the top down; the result is the stack
  pointer and the addresses, or \<open>None\<close> for \<open>goto bad\<close>.
\<close>

fun push_args :: "32 word \<Rightarrow> nat \<Rightarrow> byte list list \<Rightarrow> 32 word \<Rightarrow> (32 word \<times> 32 word list) option kfun" where
  "push_args pgdir argc [] sp = ret (Some (sp, []))"
| "push_args pgdir argc (a # as) sp =
     (if MAXARG \<le> argc then ret None
      else
      let sp' = (sp - (of_nat (length a) + 1)) AND NOT 3 in
      bnd (copyout pgdir sp' (a @ [0])) (\<lambda>r.
      if r < 0 then ret None
      else
      bnd (push_args pgdir (argc + 1) as sp') (\<lambda>r.
      ret (map_option (\<lambda>(top, addrs). (top, sp' # addrs)) r))))"

definition words_bytes :: "32 word list \<Rightarrow> byte list" where
  "words_bytes ws = concat (map (\<lambda>w. slice (put32 0 (unat w) zeros) 0 4) ws)"

text \<open>\<open>last\<close>: the part of the path after the last slash.\<close>

definition basename :: "byte list \<Rightarrow> byte list" where
  "basename path = rev (takeWhile (\<lambda>c. c \<noteq> SLASH) (rev path))"

text \<open>The label \<open>bad\<close>; \<open>ip\<close> is \<open>None\<close> once it has been put.\<close>

definition exec_bad :: "32 word \<Rightarrow> nat option \<Rightarrow> int kfun" where
  "exec_bad pgdir ip =
     sq (whenk (pgdir \<noteq> 0) (freevm pgdir))
     (sq (case ip of None \<Rightarrow> ret () | Some i \<Rightarrow> sq (iunlockput i) end_op)
     (ret (- 1)))"

text \<open>From the two stack pages on: the arguments and the commit to the new image.\<close>

definition exec_image :: "byte list \<Rightarrow> byte list list \<Rightarrow> 32 word \<Rightarrow> 32 word \<Rightarrow> 32 word \<Rightarrow> int kfun" where
  "exec_image path argv start pgdir sz0 =
     (let sz1 = PGROUNDUP sz0 in
      bnd (allocuvm pgdir sz1 (sz1 + 2 * PGSIZE)) (\<lambda>sz.
      if sz = 0 then exec_bad pgdir None
      else
      sq (clearpteu pgdir (sz - 2 * PGSIZE))
      (bnd (push_args pgdir 0 argv sz) (\<lambda>r.
      case r of None \<Rightarrow> exec_bad pgdir None
      | Some (sp, addrs) \<Rightarrow>
          let argc = of_nat (length addrs);
              ustack = 0xffffffff # argc # (sp - (argc + 1) * 4) # addrs @ [0];
              sp' = sp - (3 + argc + 1) * 4
          in
          bnd (copyout pgdir sp' (words_bytes ustack)) (\<lambda>r.
          if r < 0 then exec_bad pgdir None
          else
          bnd myproc (\<lambda>i.
          bnd (getp i) (\<lambda>p.
          sq (setp i (\<lambda>p. p\<lparr>p_name := safestr 16 (basename path), p_pgdir := pgdir, p_sz := sz,
                           p_tf := (p_tf p)\<lparr>tf_eip := start, tf_esp := sp'\<rparr>\<rparr>))
          (sq (switchuvm i)
          (sq (freevm (p_pgdir p))
          (ret 0))))))))))"

definition exec :: "bytes \<Rightarrow> byte list \<Rightarrow> byte list list \<Rightarrow> int kfun" where
  "exec junk path argv =
     sq begin_op
     (bnd (namei path) (\<lambda>r.
     case r of
       None \<Rightarrow> sq end_op (ret (- 1))
     | Some ip \<Rightarrow>
         sq (ilock ip)
         (bnd myproc (\<lambda>i. bnd (getp i) (\<lambda>p. bnd (geti ip) (\<lambda>x.
         if \<not> exec_allowed p x then exec_bad 0 (Some ip)
         else
         sq (whenk (setuid_bit (i_mode x)) (setp i (\<lambda>p. p\<lparr>p_uid := of_nat (i_uid x)\<rparr>)))
         (bnd (readi ip 0 52) (\<lambda>r.
         let elf = dec_elf (case r of None \<Rightarrow> junk | Some bs \<Rightarrow> bytes_of bs) in
         if (case r of None \<Rightarrow> False | Some bs \<Rightarrow> length bs < 52) then exec_bad 0 (Some ip)
         else if e_magic elf \<noteq> ELF_MAGIC then exec_bad 0 (Some ip)
         else
         bnd setupkvm (\<lambda>pgdir.
         if pgdir = 0 then exec_bad 0 (Some ip)
         else
         bnd (load_segments pgdir ip (e_phnum elf) (e_phoff elf) 0) (\<lambda>r.
         case r of None \<Rightarrow> exec_bad pgdir (Some ip)
         | Some sz \<Rightarrow>
             sq (iunlockput ip)
             (sq end_op
             (exec_image path argv (e_entry elf) pgdir sz))))))))))))"

section \<open>Arguments of system calls (syscall.c)\<close>

definition cursz :: "32 word kfun" where
  "cursz = bnd myproc (\<lambda>i. bnd (getp i) (\<lambda>p. ret (p_sz p)))"

text \<open>\<open>None\<close> is the result \<open>-1\<close>.\<close>

definition fetchint :: "32 word \<Rightarrow> 32 word option kfun" where
  "fetchint addr =
     bnd cursz (\<lambda>sz.
     if sz \<le> addr \<or> sz < addr + 4 then ret None
     else bnd (uload32 addr) (\<lambda>v. ret (Some v)))"

text \<open>The loop of \<open>fetchstr\<close>, over the \<open>n\<close> bytes left below \<open>proc->sz\<close>.\<close>

fun fetchstr_loop :: "nat \<Rightarrow> 32 word \<Rightarrow> byte list option kfun" where
  "fetchstr_loop 0 s = ret None"
| "fetchstr_loop (Suc n) s =
     bnd (uload s) (\<lambda>c.
     if c = 0 then ret (Some [])
     else bnd (fetchstr_loop n (s + 1)) (\<lambda>r. ret (map_option (Cons c) r)))"

definition fetchstr :: "32 word \<Rightarrow> byte list option kfun" where
  "fetchstr addr =
     bnd cursz (\<lambda>sz.
     if sz \<le> addr then ret None else fetchstr_loop (unat (sz - addr)) addr)"

definition argint :: "nat \<Rightarrow> 32 word option kfun" where
  "argint n =
     bnd myproc (\<lambda>i. bnd (getp i) (\<lambda>p. fetchint (tf_esp (p_tf p) + 4 + 4 * of_nat n)))"

definition argptr :: "nat \<Rightarrow> 32 word \<Rightarrow> 32 word option kfun" where
  "argptr n sz =
     bnd (argint n) (\<lambda>r.
     case r of None \<Rightarrow> ret None
     | Some a \<Rightarrow>
         bnd cursz (\<lambda>psz. if psz \<le> a \<or> psz < a + sz then ret None else ret (Some a)))"

definition argstr :: "nat \<Rightarrow> byte list option kfun" where
  "argstr n = bnd (argint n) (\<lambda>r. case r of None \<Rightarrow> ret None | Some a \<Rightarrow> fetchstr a)"

text \<open>
  The chains \<open>if(argint(...) < 0 || ...) return -1\<close> of the handlers: go on with the
  value, or return \<open>-1\<close>.
\<close>

definition need :: "'a option kfun \<Rightarrow> ('a \<Rightarrow> 32 word kfun) \<Rightarrow> 32 word kfun" where
  "need m f = bnd m (\<lambda>r. case r of None \<Rightarrow> ret (- 1) | Some a \<Rightarrow> f a)"

definition ret_int :: "int \<Rightarrow> 32 word kfun" where
  "ret_int v = ret (word_of_int v)"

end
