(* ===== verification/Mlfq.thy ===== *)
theory Mlfq
  imports Proc
begin

text \<open>
  The multi-level feedback queues of \<open>proc.c\<close>: the state lists and the variants of the
  process operations that \<open>CS333_P3P4\<close> selects (names with the suffix \<open>_p3\<close>).

  A list is named by the positions of its head and tail pointers in
  \<open>struct StateLists\<close>.  A loop over a list carries a bound on its rounds: a list
  without a cycle has at most \<open>NPROC\<close> members, so a walk that exceeds the bound does
  not end.
\<close>

section \<open>The lists\<close>

definition ready_hd :: "nat \<Rightarrow> nat" where "ready_hd i = i"
definition ready_tl :: "nat \<Rightarrow> nat" where "ready_tl i = MAXPRIO + 1 + i"

abbreviation (input) free_hd :: nat where "free_hd \<equiv> 14"
abbreviation (input) free_tl :: nat where "free_tl \<equiv> 15"
abbreviation (input) sleep_hd :: nat where "sleep_hd \<equiv> 16"
abbreviation (input) sleep_tl :: nat where "sleep_tl \<equiv> 17"
abbreviation (input) zombie_hd :: nat where "zombie_hd \<equiv> 18"
abbreviation (input) zombie_tl :: nat where "zombie_tl \<equiv> 19"
abbreviation (input) running_hd :: nat where "running_hd \<equiv> 20"
abbreviation (input) running_tl :: nat where "running_tl \<equiv> 21"
abbreviation (input) embryo_hd :: nat where "embryo_hd \<equiv> 22"
abbreviation (input) embryo_tl :: nat where "embryo_tl \<equiv> 23"

definition cell :: "nat \<Rightarrow> nat option kfun" where
  "cell c = gets (\<lambda>s. pLists s c)"

definition set_cell :: "nat \<Rightarrow> nat option \<Rightarrow> unit kfun" where
  "set_cell c v = modify (\<lambda>s. s\<lparr>pLists := (pLists s)(c := v)\<rparr>)"

definition nextof :: "nat \<Rightarrow> nat option kfun" where
  "nextof p = bnd (getp p) (\<lambda>x. ret (p_next x))"

definition set_nextof :: "nat \<Rightarrow> nat option \<Rightarrow> unit kfun" where
  "set_nextof p v = setp p (\<lambda>x. x\<lparr>p_next := v\<rparr>)"

definition stateListAdd :: "nat \<Rightarrow> nat \<Rightarrow> nat \<Rightarrow> int kfun" where
  "stateListAdd hp tp p =
     bnd (cell hp) (\<lambda>h.
     case h of
       None \<Rightarrow> sq (set_cell hp (Some p)) (sq (set_cell tp (Some p)) (sq (set_nextof p None) (ret 0)))
     | Some _ \<Rightarrow>
         bnd (cell tp) (\<lambda>t.
         case t of None \<Rightarrow> panic ''null tail''
         | Some t' \<Rightarrow>
             sq (set_nextof t' (Some p))
             (sq (set_cell tp (Some p))
             (sq (set_nextof p None)
             (ret 0)))))"

text \<open>The search of \<open>stateListRemove\<close>: the predecessor of \<open>p\<close>, if \<open>p\<close> is found.\<close>

fun sl_search :: "nat \<Rightarrow> nat option \<Rightarrow> nat option \<Rightarrow> nat \<Rightarrow> (nat option) option kfun" where
  "sl_search n None prev p = ret None"
| "sl_search 0 (Some c) prev p = spin"
| "sl_search (Suc n) (Some c) prev p =
     (if c = p then ret (Some prev) else bnd (nextof c) (\<lambda>nx. sl_search n nx (Some c) p))"

definition stateListRemove :: "nat \<Rightarrow> nat \<Rightarrow> nat \<Rightarrow> int kfun" where
  "stateListRemove hp tp p =
     bnd (cell hp) (\<lambda>h. bnd (cell tp) (\<lambda>t.
     case (h, t) of
       (Some h', Some t') \<Rightarrow>
         if h' = p then bnd (nextof p) (\<lambda>nx. sq (set_cell hp nx) (ret 0))
         else
         bnd (sl_search (Suc NPROC) h None p) (\<lambda>r.
         case r of None \<Rightarrow> ret (- 1)
         | Some prev \<Rightarrow>
             (case prev of None \<Rightarrow> panic ''null previous''
              | Some q \<Rightarrow>
                  sq (if p = t'
                      then sq (set_cell tp (Some q)) (set_nextof q None)
                      else bnd (nextof p) (\<lambda>nx. set_nextof q nx))
                  (sq (set_nextof p None)
                  (ret 0))))
     | _ \<Rightarrow> ret (- 1)))"

definition assertState :: "nat \<Rightarrow> procstate \<Rightarrow> unit kfun" where
  "assertState p st =
     bnd (getp p) (\<lambda>x. if p_state x \<noteq> st then panic ''proc state does not match list state.'' else ret ())"

text \<open>The pair of calls that moves a process between two lists, with the two panics.\<close>

definition move :: "nat \<Rightarrow> nat \<Rightarrow> string \<Rightarrow> nat \<Rightarrow> nat \<Rightarrow> string \<Rightarrow> nat \<Rightarrow> unit kfun" where
  "move h1 t1 e1 h2 t2 e2 p =
     bnd (stateListRemove h1 t1 p) (\<lambda>r.
     if r \<noteq> 0 then panic e1
     else bnd (stateListAdd h2 t2 p) (\<lambda>r. if r \<noteq> 0 then panic e2 else ret ()))"

definition initProcessLists :: "unit kfun" where
  "initProcessLists =
     sq (forM [0 ..< MAXPRIO + 1] (\<lambda>i. sq (set_cell (ready_hd i) None) (set_cell (ready_tl i) None)))
     (forM [free_hd, free_tl, sleep_hd, sleep_tl, zombie_hd, zombie_tl, running_hd, running_tl, embryo_hd, embryo_tl]
        (\<lambda>c. set_cell c None))"

definition initFreeList :: "unit kfun" where
  "initFreeList =
     bnd (holding PtableLock) (\<lambda>h.
     if \<not> h then panic ''acquire the ptable lock before calling initFreeList''
     else forM [0 ..< NPROC] (\<lambda>p.
       sq (setp p (\<lambda>x. x\<lparr>p_state := UNUSED\<rparr>))
       (bnd (stateListAdd free_hd free_tl p) (\<lambda>_. ret ()))))"

text \<open>\<open>for(p = head; p; p = p->next) body\<close>: the link is read after the body has run.\<close>

fun walk :: "nat \<Rightarrow> nat option \<Rightarrow> (nat \<Rightarrow> unit kfun) \<Rightarrow> unit kfun" where
  "walk n None body = ret ()"
| "walk 0 (Some p) body = spin"
| "walk (Suc n) (Some p) body = sq (body p) (bnd (nextof p) (\<lambda>nx. walk n nx body))"

definition walk_list :: "nat \<Rightarrow> (nat \<Rightarrow> unit kfun) \<Rightarrow> unit kfun" where
  "walk_list hp body = bnd (cell hp) (\<lambda>h. walk (Suc NPROC) h body)"

text \<open>The loops that stop at the first member with a property.\<close>

fun first_in :: "nat \<Rightarrow> nat option \<Rightarrow> (proc \<Rightarrow> bool) \<Rightarrow> nat option kfun" where
  "first_in n None P = ret None"
| "first_in 0 (Some p) P = spin"
| "first_in (Suc n) (Some p) P =
     bnd (getp p) (\<lambda>x. if P x then ret (Some p) else first_in n (p_next x) P)"

definition search_list :: "nat \<Rightarrow> (proc \<Rightarrow> bool) \<Rightarrow> nat option kfun" where
  "search_list hp P = bnd (cell hp) (\<lambda>h. first_in (Suc NPROC) h P)"

fun search_lists :: "nat list \<Rightarrow> (proc \<Rightarrow> bool) \<Rightarrow> nat option kfun" where
  "search_lists [] P = ret None"
| "search_lists (h # hs) P =
     bnd (search_list h P) (\<lambda>r. case r of Some p \<Rightarrow> ret (Some p) | None \<Rightarrow> search_lists hs P)"

section \<open>Giving the processor up\<close>

text \<open>The budget of a process that gives the processor up, in \<open>yield\<close> and \<open>sleep\<close>.\<close>

definition charge :: "32 word \<Rightarrow> proc \<Rightarrow> proc" where
  "charge now p =
     (let b = p_budget p - (now - p_cpu_ticks_in p) in
      if b \<le>s 0 then
        let pr = (if p_priority p < of_nat MAXPRIO then p_priority p + 1 else p_priority p)
        in p\<lparr>p_priority := pr, p_budget := BUDGET * (pr + 1)\<rparr>
      else p\<lparr>p_budget := b\<rparr>)"

definition yield_p3 :: "unit kfun" where
  "yield_p3 =
     sq (acquire PtableLock)
     (bnd myproc (\<lambda>i.
     sq (setp i (\<lambda>p. p\<lparr>p_state := RUNNABLE\<rparr>))
     (bnd (gets ticks) (\<lambda>now.
     sq (setp i (charge now))
     (bnd (stateListRemove running_hd running_tl i) (\<lambda>_.
     bnd (getp i) (\<lambda>p.
     let q = unat (p_priority p) in
     bnd (stateListAdd (ready_hd q) (ready_tl q) i) (\<lambda>_.
     sq (assertState i RUNNABLE)
     sched))))))))"

definition sleep_p3 :: "chan \<Rightarrow> lockid option \<Rightarrow> 'a kfun" where
  "sleep_p3 ch lk =
     bnd (gets curproc) (\<lambda>c.
     case c of None \<Rightarrow> panic ''sleep''
     | Some i \<Rightarrow>
       sq (whenk (lk \<noteq> Some PtableLock)
            (sq (acquire PtableLock)
                (case lk of None \<Rightarrow> ret () | Some l \<Rightarrow> release l)))
       (sq (setp i (\<lambda>p. p\<lparr>p_chan := Some ch\<rparr>))
       (sq (setp i (\<lambda>p. p\<lparr>p_state := SLEEPING\<rparr>))
       (bnd (gets ticks) (\<lambda>now.
       sq (setp i (charge now))
       (sq (move running_hd running_tl ''error removing from running list.'' sleep_hd sleep_tl ''error adding to sleep list.'' i)
       (sq (assertState i SLEEPING)
       sched)))))))"

section \<open>Process operations over the lists\<close>

definition allocproc_p3 :: "nat option kfun" where
  "allocproc_p3 =
     sq (acquire PtableLock)
     (bnd (cell free_hd) (\<lambda>h.
     case h of
       None \<Rightarrow> sq (release PtableLock) (ret None)
     | Some i \<Rightarrow>
         sq (setp i (\<lambda>p. p\<lparr>p_state := EMBRYO\<rparr>))
         (sq (move free_hd free_tl ''error removing from free list.'' embryo_hd embryo_tl ''error adding to embryo list.'' i)
         (sq (assertState i EMBRYO)
         (bnd (gets nextpid) (\<lambda>pid.
         bnd (gets ticks) (\<lambda>now.
         sq (modify (\<lambda>s. s\<lparr>nextpid := nextpid s + 1\<rparr>))
         (sq (setp i (\<lambda>p. p\<lparr>p_pid := pid, p_start_ticks := now, p_uid := 0, p_gid := 0,
                          p_cpu_ticks_in := 0, p_cpu_ticks_total := 0, p_priority := 0, p_budget := BUDGET\<rparr>))
         (sq (release PtableLock)
         (bnd kalloc (\<lambda>ks.
         sq (setp i (\<lambda>p. p\<lparr>p_kstack := ks\<rparr>))
         (if ks = 0 then
            sq (setp i (\<lambda>p. p\<lparr>p_state := UNUSED\<rparr>))
            (sq (move embryo_hd embryo_tl ''error removing from embryo list.'' free_hd free_tl ''error adding to free list.'' i)
            (sq (assertState i UNUSED)
            (ret None)))
          else sq (setp i (\<lambda>p. p\<lparr>p_context := ks + KSTACKSIZE - 76 - 4 - 20\<rparr>)) (ret (Some i))))))))))))))"

text \<open>The embryo becomes ready: the same lines in \<open>userinit\<close> and \<open>fork\<close>.\<close>

definition make_ready :: "string \<Rightarrow> nat \<Rightarrow> unit kfun" where
  "make_ready e i =
     bnd (getp i) (\<lambda>p.
     let q = unat (p_priority p) in
     sq (move embryo_hd embryo_tl e (ready_hd q) (ready_tl q) ''error adding to ready list.'' i)
     (assertState i RUNNABLE))"

definition userinit_p3 :: "byte list \<Rightarrow> unit kfun" where
  "userinit_p3 initcode =
     sq (acquire PtableLock)
     (sq initProcessLists
     (sq initFreeList
     (sq (modify (\<lambda>s. s\<lparr>PromoteAtTime := ticks s + TICKS_TO_PROMOTE\<rparr>))
     (sq (release PtableLock)
     (bnd allocproc_p3 (\<lambda>r.
     case r of None \<Rightarrow> panic ''null proc''
     | Some i \<Rightarrow>
         sq (modify (\<lambda>s. s\<lparr>initproc := Some i\<rparr>))
         (bnd setupkvm (\<lambda>d.
         sq (setp i (\<lambda>p. p\<lparr>p_pgdir := d\<rparr>))
         (if d = 0 then panic ''userinit: out of memory?''
          else
          sq (inituvm d initcode)
          (sq (setp i (\<lambda>p. p\<lparr>p_sz := PGSIZE, p_tf := user_tf, p_name := safestr 16 (bytestr ''initcode'')\<rparr>))
          (bnd (namei [SLASH]) (\<lambda>c.
          sq (setp i (\<lambda>p. p\<lparr>p_cwd := c\<rparr>))
          (sq (setp i (\<lambda>p. p\<lparr>p_state := RUNNABLE\<rparr>))
          (sq (acquire PtableLock)
          (sq (make_ready ''error removing from embryo list.'' i)
          (sq (release PtableLock)
          (setp i (\<lambda>p. p\<lparr>p_uid := 0, p_gid := 0\<rparr>))))))))))))))))))"

definition fork_p3 :: "32 word kfun" where
  "fork_p3 =
     bnd allocproc_p3 (\<lambda>r.
     case r of None \<Rightarrow> ret (- 1)
     | Some np \<Rightarrow>
         bnd myproc (\<lambda>i. bnd (getp i) (\<lambda>p.
         bnd (copyuvm (p_pgdir p) (p_sz p)) (\<lambda>d.
         sq (setp np (\<lambda>q. q\<lparr>p_pgdir := d\<rparr>))
         (if d = 0 then
            bnd (getp np) (\<lambda>q.
            sq (kfree (p_kstack q))
            (sq (setp np (\<lambda>q. q\<lparr>p_kstack := 0, p_state := UNUSED\<rparr>))
            (sq (acquire PtableLock)
            (sq (move embryo_hd embryo_tl ''error removing from embryo.'' free_hd free_tl ''error adding to freelist.'' np)
            (sq (assertState np UNUSED)
            (sq (release PtableLock)
            (ret (- 1))))))))
          else
          sq (setp np (\<lambda>q. q\<lparr>p_sz := p_sz p, p_parent := Some i, p_tf := (p_tf p)\<lparr>tf_eax := 0\<rparr>\<rparr>))
          (sq (dup_files i np)
          (sq (case p_cwd p of None \<Rightarrow> panic ''null cwd''
               | Some c \<Rightarrow> bnd (idup c) (\<lambda>c'. setp np (\<lambda>q. q\<lparr>p_cwd := Some c'\<rparr>)))
          (sq (setp np (\<lambda>q. q\<lparr>p_name := safestr 16 (p_name p)\<rparr>))
          (bnd (getp np) (\<lambda>q.
          sq (acquire PtableLock)
          (sq (setp np (\<lambda>q. q\<lparr>p_state := RUNNABLE\<rparr>))
          (sq (make_ready ''error removing from embryo.'' np)
          (sq (release PtableLock)
          (sq (setp np (\<lambda>q. q\<lparr>p_uid := p_uid p, p_gid := p_gid p\<rparr>))
          (ret (p_pid q))))))))))))))))"

text \<open>\<open>wakeup1\<close>: a member that moves to a ready list continues the walk from there.\<close>

definition wake_p3 :: "chan \<Rightarrow> nat \<Rightarrow> unit kfun" where
  "wake_p3 ch p =
     bnd (getp p) (\<lambda>x.
     whenk (p_chan x = Some ch)
       (sq (setp p (\<lambda>x. x\<lparr>p_state := RUNNABLE\<rparr>))
       (let q = unat (p_priority x) in
       sq (move sleep_hd sleep_tl ''error removing from sleep list.'' (ready_hd q) (ready_tl q) ''error adding to ready list.'' p)
       (assertState p RUNNABLE))))"

definition wakeup1_p3 :: "chan \<Rightarrow> unit kfun" where
  "wakeup1_p3 ch = walk_list sleep_hd (wake_p3 ch)"

definition wakeup_p3 :: "chan \<Rightarrow> unit kfun" where
  "wakeup_p3 ch = sq (acquire PtableLock) (sq (wakeup1_p3 ch) (release PtableLock))"

definition adopt :: "nat \<Rightarrow> nat \<Rightarrow> unit kfun" where
  "adopt i p =
     bnd (getp p) (\<lambda>x.
     whenk (p_parent x = Some i) (bnd (gets initproc) (\<lambda>ini. setp p (\<lambda>x. x\<lparr>p_parent := ini\<rparr>))))"

text \<open>The part of \<open>exit\<close> that holds the table lock.\<close>

definition exit_table :: "nat \<Rightarrow> 'a kfun" where
  "exit_table i =
     sq (acquire PtableLock)
     (bnd (getp i) (\<lambda>p.
     sq (case p_parent p of None \<Rightarrow> ret () | Some q \<Rightarrow> wakeup1_p3 (ChanProc q))
     (sq (forM [0 ..< MAXPRIO + 1] (\<lambda>k. walk_list (ready_hd k) (adopt i)))
     (sq (walk_list sleep_hd (adopt i))
     (sq (walk_list embryo_hd (adopt i))
     (sq (walk_list running_hd (adopt i))
     (sq (setp i (\<lambda>p. p\<lparr>p_state := ZOMBIE\<rparr>))
     (sq (move running_hd running_tl ''Error removing from running.'' zombie_hd zombie_tl ''error adding to zombie list.'' i)
     (sq (assertState i ZOMBIE)
     sched)))))))))"

definition exit_p3 :: "'a kfun" where
  "exit_p3 =
     bnd myproc (\<lambda>i. bnd (gets initproc) (\<lambda>ini.
     if ini = Some i then panic ''init exiting''
     else
     sq (close_files i)
     (sq begin_op
     (bnd (getp i) (\<lambda>p.
     sq (case p_cwd p of None \<Rightarrow> panic ''null cwd'' | Some c \<Rightarrow> iput c)
     (sq end_op
     (sq (setp i (\<lambda>p. p\<lparr>p_cwd := None\<rparr>))
     (exit_table i))))))))"

definition ready_heads :: "nat list" where
  "ready_heads = map ready_hd [0 ..< MAXPRIO + 1]"

definition wait_loop_p3 :: "32 word kfun" where
  "wait_loop_p3 =
     bnd myproc (\<lambda>i.
     bnd (search_list zombie_hd (\<lambda>x. p_parent x = Some i)) (\<lambda>r.
     case r of
       Some j \<Rightarrow>
         bnd (getp j) (\<lambda>p.
         sq (kfree (p_kstack p))
         (sq (setp j (\<lambda>p. p\<lparr>p_kstack := 0\<rparr>))
         (sq (freevm (p_pgdir p))
         (sq (setp j (\<lambda>p. p\<lparr>p_state := UNUSED\<rparr>))
         (sq (move zombie_hd zombie_tl ''Error removing from zombie list.'' free_hd free_tl ''Error adding to free list.'' j)
         (sq (assertState j UNUSED)
         (sq (setp j (\<lambda>p. p\<lparr>p_pid := 0, p_parent := None, p_name := [], p_killed := False\<rparr>))
         (sq (release PtableLock)
         (ret (p_pid p))))))))))
     | None \<Rightarrow>
         bnd (search_lists (ready_heads @ [sleep_hd, embryo_hd, running_hd]) (\<lambda>x. p_parent x = Some i)) (\<lambda>kid.
         bnd (getp i) (\<lambda>me.
         if kid = None \<or> p_killed me then sq (release PtableLock) (ret (- 1))
         else sleep_p3 (ChanProc i) (Some PtableLock)))))"

definition wait_p3 :: "32 word kfun" where
  "wait_p3 = sq (acquire PtableLock) wait_loop_p3"

definition kill_p3 :: "32 word \<Rightarrow> int kfun" where
  "kill_p3 pid =
     sq (acquire PtableLock)
     (bnd (search_lists (ready_heads @ [running_hd, embryo_hd, zombie_hd]) (\<lambda>x. p_pid x = pid)) (\<lambda>r.
     case r of
       Some p \<Rightarrow> sq (setp p (\<lambda>x. x\<lparr>p_killed := True\<rparr>)) (sq (release PtableLock) (ret 0))
     | None \<Rightarrow>
         bnd (search_list sleep_hd (\<lambda>x. p_pid x = pid)) (\<lambda>r.
         case r of
           None \<Rightarrow> sq (release PtableLock) (ret (- 1))
         | Some p \<Rightarrow>
             bnd (getp p) (\<lambda>x.
             let q = unat (p_priority x) in
             sq (move sleep_hd sleep_tl ''error removing from sleep list.'' (ready_hd q) (ready_tl q) ''error adding to ready list.'' p)
             (sq (setp p (\<lambda>x. x\<lparr>p_state := RUNNABLE\<rparr>))
             (sq (assertState p RUNNABLE)
             (sq (setp p (\<lambda>x. x\<lparr>p_killed := True\<rparr>))
             (sq (release PtableLock)
             (ret 0)))))))))"

section \<open>Priorities\<close>

definition refill :: "nat \<Rightarrow> unit kfun" where
  "refill p = setp p (\<lambda>x. x\<lparr>p_budget := BUDGET * (p_priority x + 1)\<rparr>)"

definition set_prio :: "nat \<Rightarrow> 32 word \<Rightarrow> unit kfun" where
  "set_prio p pr = setp p (\<lambda>x. x\<lparr>p_priority := pr, p_budget := BUDGET * (pr + 1)\<rparr>)"

text \<open>
  \<open>setpriority\<close>.  Without \<open>CS333_P3P4\<close> the lists are never filled, and the same loops
  find nothing.
\<close>

definition setpriority :: "32 word \<Rightarrow> 32 word \<Rightarrow> int kfun" where
  "setpriority pid priority =
     (if pid <s 0 \<or> priority <s 0 \<or> of_nat (MAXPRIO + 1) <s priority then ret (- 1)
      else
      sq (acquire PtableLock)
      (bnd (search_lists ready_heads (\<lambda>x. p_pid x = pid \<and> priority \<noteq> p_priority x)) (\<lambda>r.
      case r of
        Some p \<Rightarrow>
          bnd (getp p) (\<lambda>x.
          let old = unat (p_priority x); new = unat priority in
          bnd (stateListRemove (ready_hd old) (ready_tl old) p) (\<lambda>r.
          if r \<noteq> 0 then panic ''Error removing process from current priority''
          else
          sq (setp p (\<lambda>x. x\<lparr>p_priority := priority\<rparr>))
          (bnd (stateListAdd (ready_hd new) (ready_tl new) p) (\<lambda>r.
          if r \<noteq> 0 then panic ''Error adding process to current priority''
          else sq (refill p) (sq (release PtableLock) (ret 0))))))
      | None \<Rightarrow>
          bnd (search_lists [sleep_hd, running_hd] (\<lambda>x. p_pid x = pid)) (\<lambda>r.
          case r of
            Some p \<Rightarrow> sq (set_prio p priority) (sq (release PtableLock) (ret 0))
          | None \<Rightarrow> sq (release PtableLock) (ret (- 1))))))"

definition promote_ready :: "nat \<Rightarrow> nat \<Rightarrow> unit kfun" where
  "promote_ready i p =
     bnd (getp p) (\<lambda>x.
     sq (whenk (0 < i)
          (let q = unat (p_priority x) in
           bnd (stateListRemove (ready_hd q) (ready_tl q) p) (\<lambda>r.
           if r \<noteq> 0 then panic ''Error removing process from current priority''
           else
           sq (setp p (\<lambda>x. x\<lparr>p_priority := p_priority x - 1\<rparr>))
           (let q' = unat (p_priority x - 1) in
           bnd (stateListAdd (ready_hd q') (ready_tl q') p) (\<lambda>r.
           if r \<noteq> 0 then panic ''Error adding process to desired priority'' else ret ())))))
     (refill p))"

definition promote_other :: "nat \<Rightarrow> unit kfun" where
  "promote_other p =
     setp p (\<lambda>x. let pr = (if 0 < p_priority x then p_priority x - 1 else p_priority x)
                 in x\<lparr>p_priority := pr, p_budget := BUDGET * (pr + 1)\<rparr>)"

definition promoteAll :: "unit kfun" where
  "promoteAll =
     sq (forM [0 ..< MAXPRIO + 1] (\<lambda>i. walk_list (ready_hd i) (promote_ready i)))
     (sq (walk_list sleep_hd promote_other)
     (walk_list running_hd promote_other))"

section \<open>The scheduler over the ready lists\<close>

definition dispatch_p3 :: "nat \<Rightarrow> nat \<Rightarrow> unit kfun" where
  "dispatch_p3 i p =
     sq (modify (\<lambda>s. s\<lparr>curproc := Some p\<rparr>))
     (sq (switchuvm p)
     (sq (setp p (\<lambda>x. x\<lparr>p_state := RUNNING\<rparr>))
     (sq (move (ready_hd i) (ready_tl i) ''problem with removing from ready list.''
            running_hd running_tl ''problem with adding to running list.'' p)
     (sq (assertState p RUNNING)
     (bnd (gets ticks) (\<lambda>now. setp p (\<lambda>x. x\<lparr>p_cpu_ticks_in := now\<rparr>)))))))"

definition undispatch_p3 :: "nat \<Rightarrow> unit kfun" where
  "undispatch_p3 p =
     bnd (gets ticks) (\<lambda>now.
     sq (setp p (\<lambda>x. x\<lparr>p_cpu_ticks_total := p_cpu_ticks_total x + (now - p_cpu_ticks_in x)\<rparr>))
     (sq switchkvm
     (modify (\<lambda>s. s\<lparr>curproc := None\<rparr>))))"

text \<open>
  One pass of the scheduler; \<open>turn\<close> is the chosen process's turn and \<open>n\<close> bounds the
  turns taken from one list.
\<close>

fun run_ready :: "(nat \<Rightarrow> unit kfun) \<Rightarrow> nat \<Rightarrow> nat \<Rightarrow> nat option \<Rightarrow> bool \<Rightarrow> bool kfun" where
  "run_ready turn n i None idl = ret idl"
| "run_ready turn 0 i (Some p) idl = spin"
| "run_ready turn (Suc n) i (Some p) idl =
     sq (dispatch_p3 i p)
     (sq (turn p)
     (sq (undispatch_p3 p)
     (bnd (nextof p) (\<lambda>nx. run_ready turn n i nx False))))"

fun run_lists :: "(nat \<Rightarrow> unit kfun) \<Rightarrow> nat \<Rightarrow> nat list \<Rightarrow> bool \<Rightarrow> bool kfun" where
  "run_lists turn n [] idl = ret idl"
| "run_lists turn n (i # is) idl =
     bnd (cell (ready_hd i)) (\<lambda>h.
     bnd (run_ready turn n i h idl) (\<lambda>idl'.
     run_lists turn n is idl'))"

definition scheduler_pass_p3 :: "(nat \<Rightarrow> unit kfun) \<Rightarrow> nat \<Rightarrow> bool kfun" where
  "scheduler_pass_p3 turn n =
     sq (modify (\<lambda>s. s\<lparr>kcpu := (kcpu s)\<lparr>eflags_if := True\<rparr>\<rparr>))
     (sq (acquire PtableLock)
     (bnd (gets id) (\<lambda>s.
     sq (whenk (PromoteAtTime s \<le> ticks s)
          (sq promoteAll
          (modify (\<lambda>s. s\<lparr>PromoteAtTime := ticks s + TICKS_TO_PROMOTE\<rparr>))))
     (bnd (run_lists turn n [0 ..< MAXPRIO + 1] True) (\<lambda>idl.
     sq (release PtableLock)
     (sq (whenk idl (modify (\<lambda>s. s\<lparr>kcpu := (kcpu s)\<lparr>eflags_if := True\<rparr>\<rparr>)))
     (ret idl)))))))"

section \<open>Listings\<close>

definition arrow :: "nat \<Rightarrow> unit kfun" where
  "arrow p = bnd (nextof p) (\<lambda>nx. whenk (nx \<noteq> None) (cprintf '' -> '' []))"

definition piddump :: "unit kfun" where
  "piddump =
     sq (acquire PtableLock)
     (sq (cprintf (NL @ ''Ready List Processes:'' @ NL) [])
     (sq (forM [0 ..< MAXPRIO + 1] (\<lambda>i.
          sq (cprintf ''%d: '' [IntA (of_nat i)])
          (sq (walk_list (ready_hd i) (\<lambda>p.
               bnd (getp p) (\<lambda>x.
               sq (cprintf ''(%d, %d)'' [IntA (p_pid x), IntA (p_budget x)]) (arrow p))))
          (cprintf NL []))))
     (release PtableLock)))"

fun list_len :: "nat \<Rightarrow> nat option \<Rightarrow> nat kfun" where
  "list_len n None = ret 0"
| "list_len 0 (Some p) = spin"
| "list_len (Suc n) (Some p) = bnd (nextof p) (\<lambda>nx. bnd (list_len n nx) (\<lambda>k. ret (Suc k)))"

definition freedump :: "unit kfun" where
  "freedump =
     sq (acquire PtableLock)
     (bnd (cell free_hd) (\<lambda>h.
     bnd (list_len (Suc NPROC) h) (\<lambda>n.
     sq (cprintf (NL @ ''Free List Size: %d processes'' @ NL) [IntA (of_nat n)])
     (release PtableLock))))"

definition sleepdump :: "unit kfun" where
  "sleepdump =
     sq (acquire PtableLock)
     (sq (cprintf (NL @ ''Sleep List Processes:'' @ NL) [])
     (sq (walk_list sleep_hd (\<lambda>p.
          bnd (getp p) (\<lambda>x. sq (cprintf ''%d'' [IntA (p_pid x)]) (arrow p))))
     (sq (cprintf NL [])
     (release PtableLock))))"

definition zombiedump :: "unit kfun" where
  "zombiedump =
     sq (acquire PtableLock)
     (sq (cprintf (NL @ ''Zombie List Processes:'' @ NL) [])
     (sq (walk_list zombie_hd (\<lambda>p.
          bnd (getp p) (\<lambda>x.
          bnd (case p_parent x of Some q \<Rightarrow> bnd (getp q) (\<lambda>y. ret (p_pid y)) | None \<Rightarrow> ret (p_pid x)) (\<lambda>ppid.
          sq (cprintf ''(PID%d, PPID%d)'' [IntA (p_pid x), IntA ppid]) (arrow p)))))
     (sq (cprintf NL [])
     (release PtableLock))))"

end
