(* ===== verification/Sysproc.thy ===== *)
theory Sysproc
  imports Exec Mlfq
begin

text \<open>
  The process system calls, \<open>sysproc.c\<close>, with the clock of \<open>lapic.c\<close> that \<open>sys_date\<close>
  reads.  A handler returns the word that \<open>syscall\<close> puts into \<open>%eax\<close>.
\<close>

section \<open>Processes\<close>

definition sys_fork :: "32 word kfun" where
  "sys_fork = fork"

definition sys_exit :: "32 word kfun" where
  "sys_exit = exit_proc"

definition sys_wait :: "32 word kfun" where
  "sys_wait = wait"

definition sys_kill :: "32 word kfun" where
  "sys_kill = need (argint 0) (\<lambda>pid. bnd (kill pid) ret_int)"

definition curp :: "(proc \<Rightarrow> 32 word) \<Rightarrow> 32 word kfun" where
  "curp f = bnd myproc (\<lambda>i. bnd (getp i) (\<lambda>p. ret (f p)))"

definition sys_getpid :: "32 word kfun" where
  "sys_getpid = curp p_pid"

definition sys_sbrk :: "32 word kfun" where
  "sys_sbrk =
     need (argint 0) (\<lambda>n.
     bnd (curp p_sz) (\<lambda>addr.
     bnd (growproc n) (\<lambda>r.
     if r < 0 then ret (- 1) else ret addr)))"

text \<open>The loop of \<open>sys_sleep\<close>, run again after each wakeup; the comparison is unsigned.\<close>

definition sys_sleep_loop :: "32 word \<Rightarrow> 32 word \<Rightarrow> 32 word kfun" where
  "sys_sleep_loop ticks0 n =
     bnd (gets ticks) (\<lambda>now.
     if now - ticks0 < n then bnd killed (\<lambda>k. if k then ret (- 1) else sleep ChanTicks None)
     else ret 0)"

definition sys_sleep :: "32 word kfun" where
  "sys_sleep = need (argint 0) (\<lambda>n. bnd (gets ticks) (\<lambda>ticks0. sys_sleep_loop ticks0 n))"

definition sys_uptime :: "32 word kfun" where
  "sys_uptime = gets ticks"

text \<open>The port write of \<open>sys_halt\<close> that turns the machine off is not part of the state.\<close>

definition sys_halt :: "32 word kfun" where
  "sys_halt = sq (cprintf (''Shutting down ...'' @ NL) []) (ret 0)"

section \<open>The clock\<close>

record rtcdate =
  rt_second :: "32 word"
  rt_minute :: "32 word"
  rt_hour :: "32 word"
  rt_day :: "32 word"
  rt_month :: "32 word"
  rt_year :: "32 word"

text \<open>
  \<open>cmostime\<close>: each round of its loop reads the clock, the update flag and the clock
  again; the list holds the readings, and a clock that never settles gives \<open>None\<close>.
\<close>

fun cmos_settle :: "(rtcdate \<times> bool \<times> rtcdate) list \<Rightarrow> rtcdate option" where
  "cmos_settle [] = None"
| "cmos_settle ((t1, uip, t2) # rs) = (if \<not> uip \<and> t1 = t2 then Some t1 else cmos_settle rs)"

definition conv :: "32 word \<Rightarrow> 32 word" where
  "conv x = drop_bit 4 x * 10 + (x AND 0xf)"

definition conv_date :: "rtcdate \<Rightarrow> rtcdate" where
  "conv_date t = \<lparr>rt_second = conv (rt_second t), rt_minute = conv (rt_minute t), rt_hour = conv (rt_hour t),
     rt_day = conv (rt_day t), rt_month = conv (rt_month t), rt_year = conv (rt_year t)\<rparr>"

definition cmostime :: "32 word \<Rightarrow> (rtcdate \<times> bool \<times> rtcdate) list \<Rightarrow> rtcdate option" where
  "cmostime statb rs =
     map_option (\<lambda>t.
       let t = (if statb AND 4 = 0 then conv_date t else t)
       in t\<lparr>rt_year := rt_year t + 2000\<rparr>) (cmos_settle rs)"

definition rtc_words :: "rtcdate \<Rightarrow> 32 word list" where
  "rtc_words t = [rt_second t, rt_minute t, rt_hour t, rt_day t, rt_month t, rt_year t]"

definition sys_date :: "32 word \<Rightarrow> (rtcdate \<times> bool \<times> rtcdate) list \<Rightarrow> 32 word kfun" where
  "sys_date statb rs =
     need (argptr 0 24) (\<lambda>d.
     case cmostime statb rs of None \<Rightarrow> spin
     | Some t \<Rightarrow> sq (ustore_n d (words_bytes (rtc_words t))) (ret 0))"

section \<open>Identities\<close>

definition sys_getuid :: "32 word kfun" where
  "sys_getuid = curp p_uid"

definition sys_getgid :: "32 word kfun" where
  "sys_getgid = curp p_gid"

definition sys_getppid :: "32 word kfun" where
  "sys_getppid =
     bnd myproc (\<lambda>i. bnd (getp i) (\<lambda>p.
     case p_parent p of Some q \<Rightarrow> bnd (getp q) (\<lambda>y. ret (p_pid y)) | None \<Rightarrow> ret (p_pid p)))"

text \<open>
  \<open>sys_setuid\<close> and \<open>sys_setgid\<close> ignore the result of \<open>argint\<close>; \<open>junk\<close> is the value
  of the uninitialised local variable when it fails.
\<close>

definition set_id :: "32 word \<Rightarrow> (32 word \<Rightarrow> proc \<Rightarrow> proc) \<Rightarrow> 32 word kfun" where
  "set_id junk upd =
     bnd (argint 0) (\<lambda>r.
     let v = (case r of None \<Rightarrow> junk | Some v \<Rightarrow> v) in
     if 0 \<le>s v \<and> v \<le>s 32767 then bnd myproc (\<lambda>i. sq (setp i (upd v)) (ret 0)) else ret (- 1))"

definition sys_setuid :: "32 word \<Rightarrow> 32 word kfun" where
  "sys_setuid junk = set_id junk (\<lambda>v p. p\<lparr>p_uid := v\<rparr>)"

definition sys_setgid :: "32 word \<Rightarrow> 32 word kfun" where
  "sys_setgid junk = set_id junk (\<lambda>v p. p\<lparr>p_gid := v\<rparr>)"

section \<open>Listings and priorities\<close>

text \<open>\<open>struct uproc\<close> in user memory: 96 bytes; a string is written with its terminator.\<close>

definition store_uproc :: "32 word \<Rightarrow> uproc \<Rightarrow> unit kfun" where
  "store_uproc a u =
     sq (ustore_n a (words_bytes [u_pid u, u_uid u, u_gid u]))
     (sq (ustore32 (a + 92) (u_priority u))
     (sq (ustore_n (a + 12) (words_bytes [u_ppid u, u_elapsed_ticks u, u_CPU_total_ticks u]))
     (sq (ustore_n (a + 24) (u_state u @ [0]))
     (sq (ustore32 (a + 56) (u_size u))
     (ustore_n (a + 60) (u_name u @ [0]))))))"

fun store_uprocs :: "32 word \<Rightarrow> uproc list \<Rightarrow> unit kfun" where
  "store_uprocs a [] = ret ()"
| "store_uprocs a (u # us) = sq (store_uproc a u) (store_uprocs (a + 96) us)"

definition sys_getprocs :: "32 word kfun" where
  "sys_getprocs =
     need (argint 0) (\<lambda>mx.
     need (argptr 1 (96 * mx)) (\<lambda>table.
     bnd (getprocs (sint mx)) (\<lambda>us.
     sq (store_uprocs table us)
     (ret (of_nat (length us))))))"

definition sys_setpriority :: "32 word kfun" where
  "sys_setpriority =
     need (argint 0) (\<lambda>pid.
     need (argint 1) (\<lambda>value.
     bnd (setpriority pid value) ret_int))"

end
