(* ===== verification/Sysfile.thy ===== *)
theory Sysfile
  imports Exec
begin

text \<open>
  The file system calls, \<open>sysfile.c\<close>.  The character buffers \<open>name\<close> on the C stack
  start uninitialised; \<open>nameiparent\<close> overwrites what is looked at.
\<close>

section \<open>File descriptors\<close>

definition argfd :: "nat \<Rightarrow> (nat \<times> nat) option kfun" where
  "argfd n =
     bnd (argint n) (\<lambda>r.
     case r of None \<Rightarrow> ret None
     | Some fd \<Rightarrow>
         if fd <s 0 \<or> of_nat NOFILE \<le>s fd then ret None
         else
         bnd myproc (\<lambda>i. bnd (getp i) (\<lambda>p.
         case p_ofile p ! unat fd of None \<Rightarrow> ret None | Some f \<Rightarrow> ret (Some (unat fd, f)))))"

definition fdalloc :: "nat \<Rightarrow> nat option kfun" where
  "fdalloc f =
     bnd myproc (\<lambda>i. bnd (getp i) (\<lambda>p.
     case find_index (\<lambda>x. x = None) (p_ofile p) of
       None \<Rightarrow> ret None
     | Some fd \<Rightarrow> sq (setp i (\<lambda>p. p\<lparr>p_ofile := (p_ofile p)[fd := Some f]\<rparr>)) (ret (Some fd))))"

definition fdclear :: "nat \<Rightarrow> unit kfun" where
  "fdclear fd = bnd myproc (\<lambda>i. setp i (\<lambda>p. p\<lparr>p_ofile := (p_ofile p)[fd := None]\<rparr>))"

definition sys_dup :: "32 word kfun" where
  "sys_dup =
     need (argfd 0) (\<lambda>(_, f).
     need (fdalloc f) (\<lambda>fd.
     bnd (filedup f) (\<lambda>_.
     ret (of_nat fd))))"

definition sys_read :: "32 word kfun" where
  "sys_read =
     need (argfd 0) (\<lambda>(_, f).
     need (argint 2) (\<lambda>n.
     need (argptr 1 n) (\<lambda>p.
     bnd (fileread f (sint n)) (\<lambda>r.
     case r of None \<Rightarrow> ret (- 1)
     | Some bs \<Rightarrow> sq (ustore_n p bs) (ret (of_nat (length bs)))))))"

definition sys_write :: "32 word kfun" where
  "sys_write =
     need (argfd 0) (\<lambda>(_, f).
     need (argint 2) (\<lambda>n.
     need (argptr 1 n) (\<lambda>p.
     bnd (uload_n (nat (sint n)) p) (\<lambda>src.
     bnd (filewrite f (sint n) src) ret_int))))"

definition sys_close :: "32 word kfun" where
  "sys_close = need (argfd 0) (\<lambda>(fd, f). sq (fdclear fd) (sq (fileclose f) (ret 0)))"

definition half :: "nat \<Rightarrow> byte list" where
  "half v = slice (put16 0 v zeros) 0 2"

definition store_stat :: "32 word \<Rightarrow> stat \<Rightarrow> unit kfun" where
  "store_stat a st =
     sq (ustore32 (a + 4) (of_nat (st_dev st)))
     (sq (ustore32 (a + 8) (of_nat (st_ino st)))
     (sq (ustore_n a (half (nat16 (st_type st))))
     (sq (ustore_n (a + 12) (half (nat16 (st_nlink st))))
     (sq (ustore32 (a + 16) (of_nat (st_size st)))
     (sq (ustore_n (a + 24) (half (st_uid st)))
     (sq (ustore_n (a + 26) (half (st_gid st)))
     (ustore32 (a + 20) (of_nat (st_mode st)))))))))"

definition sys_fstat :: "32 word kfun" where
  "sys_fstat =
     need (argfd 0) (\<lambda>(_, f).
     need (argptr 1 28) (\<lambda>a.
     bnd (filestat f) (\<lambda>r.
     case r of None \<Rightarrow> ret (- 1) | Some st \<Rightarrow> sq (store_stat a st) (ret 0))))"

section \<open>Links\<close>

definition fail_op :: "32 word kfun" where
  "fail_op = sq end_op (ret (- 1))"

text \<open>\<open>nlink\<close> is a \<open>short\<close>.\<close>

definition add_nlink :: "nat \<Rightarrow> int \<Rightarrow> unit kfun" where
  "add_nlink i d = sq (seti i (\<lambda>ip. ip\<lparr>i_nlink := sint16 (nat16 (i_nlink ip + d))\<rparr>)) (iupdate i)"

definition link_bad :: "nat \<Rightarrow> 32 word kfun" where
  "link_bad i = sq (ilock i) (sq (add_nlink i (- 1)) (sq (iunlockput i) fail_op))"

definition sys_link :: "32 word kfun" where
  "sys_link =
     need (argstr 0) (\<lambda>old.
     need (argstr 1) (\<lambda>new.
     sq begin_op
     (bnd (namei old) (\<lambda>r.
     case r of None \<Rightarrow> fail_op
     | Some i \<Rightarrow>
         sq (ilock i)
         (bnd (geti i) (\<lambda>ip.
         if i_type ip = T_DIR then sq (iunlockput i) fail_op
         else
         sq (add_nlink i 1)
         (sq (iunlock i)
         (bnd (nameiparent new zeros) (\<lambda>r.
         case r of None \<Rightarrow> link_bad i
         | Some (d, name) \<Rightarrow>
             sq (ilock d)
             (bnd (geti d) (\<lambda>dp. bnd (geti i) (\<lambda>ip.
             bnd (if i_dev dp \<noteq> i_dev ip then ret (- 1) else dirlink d name (i_inum ip)) (\<lambda>r.
             if r < 0 then sq (iunlockput d) (link_bad i)
             else
             sq (iunlockput d)
             (sq (iput i)
             (sq end_op
             (ret 0))))))))))))))))"

text \<open>\<open>isdirempty\<close>: the entries after \<open>.\<close> and \<open>..\<close>; \<open>n\<close> bounds those left.\<close>

fun isdirempty_loop :: "nat \<Rightarrow> nat \<Rightarrow> nat \<Rightarrow> bool kfun" where
  "isdirempty_loop i off 0 = spin"
| "isdirempty_loop i off (Suc n) =
     bnd (geti i) (\<lambda>dp.
     if \<not> off < i_size dp then ret True
     else
     bnd (readi i off 16) (\<lambda>r.
     case r of None \<Rightarrow> panic ''isdirempty: readi''
     | Some bs \<Rightarrow>
         if length bs \<noteq> 16 then panic ''isdirempty: readi''
         else if de_inum (dec_dirent bs) \<noteq> 0 then ret False
         else isdirempty_loop i (off + 16) n))"

definition isdirempty :: "nat \<Rightarrow> bool kfun" where
  "isdirempty i = bnd (geti i) (\<lambda>dp. isdirempty_loop i 32 (Suc (i_size dp div 16)))"

definition cname :: "string \<Rightarrow> bytes" where
  "cname x = bytes_of (bytestr x)"

definition unlink_bad :: "nat \<Rightarrow> 32 word kfun" where
  "unlink_bad d = sq (iunlockput d) fail_op"

definition sys_unlink :: "32 word kfun" where
  "sys_unlink =
     need (argstr 0) (\<lambda>path.
     sq begin_op
     (bnd (nameiparent path zeros) (\<lambda>r.
     case r of None \<Rightarrow> fail_op
     | Some (d, name) \<Rightarrow>
         sq (ilock d)
         (if namecmp name (cname ''.'') = 0 \<or> namecmp name (cname ''..'') = 0 then unlink_bad d
          else
          bnd (dirlookup d name) (\<lambda>r.
          case r of None \<Rightarrow> unlink_bad d
          | Some (i, off) \<Rightarrow>
              sq (ilock i)
              (bnd (geti i) (\<lambda>ip.
              if i_nlink ip < 1 then panic ''unlink: nlink < 1''
              else
              bnd (if i_type ip = T_DIR then isdirempty i else ret True) (\<lambda>emp.
              if \<not> emp then sq (iunlockput i) (unlink_bad d)
              else
              bnd (writei d off (replicate 16 0)) (\<lambda>r.
              if r \<noteq> 16 then panic ''unlink: writei''
              else
              sq (whenk (i_type ip = T_DIR) (add_nlink d (- 1)))
              (sq (iunlockput d)
              (sq (add_nlink i (- 1))
              (sq (iunlockput i)
              (sq end_op
              (ret 0))))))))))))))"

section \<open>Creation\<close>

definition create :: "byte list \<Rightarrow> int \<Rightarrow> int \<Rightarrow> int \<Rightarrow> nat option kfun" where
  "create path type major minor =
     bnd (nameiparent path zeros) (\<lambda>r.
     case r of None \<Rightarrow> ret None
     | Some (d, name) \<Rightarrow>
         sq (ilock d)
         (bnd (dirlookup d name) (\<lambda>r.
         case r of
           Some (i, _) \<Rightarrow>
             sq (iunlockput d)
             (sq (ilock i)
             (bnd (geti i) (\<lambda>ip.
             if type = T_FILE \<and> i_type ip = T_FILE then ret (Some i)
             else sq (iunlockput i) (ret None))))
         | None \<Rightarrow>
             bnd (geti d) (\<lambda>dp.
             bnd (ialloc (i_dev dp) type) (\<lambda>i.
             sq (ilock i)
             (sq (seti i (\<lambda>ip. ip\<lparr>i_major := major, i_minor := minor, i_nlink := 1\<rparr>))
             (sq (iupdate i)
             (bnd (geti i) (\<lambda>ip.
             sq (whenk (type = T_DIR)
                  (sq (add_nlink d 1)
                  (bnd (dirlink i (cname ''.'') (i_inum ip)) (\<lambda>r.
                  bnd (if r < 0 then ret r else dirlink i (cname ''..'') (i_inum dp)) (\<lambda>r.
                  if r < 0 then panic ''create dots'' else ret ())))))
             (bnd (dirlink d name (i_inum ip)) (\<lambda>r.
             if r < 0 then panic ''create: dirlink''
             else
             sq (iunlockput d)
             (ret (Some i)))))))))))))"

text \<open>The end of \<open>sys_open\<close>, with the inode \<open>i\<close> locked.\<close>

definition open_inode :: "nat \<Rightarrow> 32 word \<Rightarrow> 32 word kfun" where
  "open_inode i omode =
     bnd filealloc (\<lambda>r.
     case r of None \<Rightarrow> sq (iunlockput i) fail_op
     | Some f \<Rightarrow>
         bnd (fdalloc f) (\<lambda>r.
         case r of None \<Rightarrow> sq (fileclose f) (sq (iunlockput i) fail_op)
         | Some fd \<Rightarrow>
             sq (iunlock i)
             (sq end_op
             (sq (setf f (\<lambda>x. x\<lparr>f_type := FD_INODE, f_ip := i, f_off := 0,
                    f_readable := (omode AND O_WRONLY = 0),
                    f_writable := (omode AND O_WRONLY \<noteq> 0 \<or> omode AND O_RDWR \<noteq> 0)\<rparr>))
             (ret (of_nat fd))))))"

definition sys_open :: "32 word kfun" where
  "sys_open =
     need (argstr 0) (\<lambda>path.
     need (argint 1) (\<lambda>omode.
     sq begin_op
     (if omode AND O_CREATE \<noteq> 0 then
        bnd (create path T_FILE 0 0) (\<lambda>r. case r of None \<Rightarrow> fail_op | Some i \<Rightarrow> open_inode i omode)
      else
        bnd (namei path) (\<lambda>r.
        case r of None \<Rightarrow> fail_op
        | Some i \<Rightarrow>
            sq (ilock i)
            (bnd (geti i) (\<lambda>ip.
            if i_type ip = T_DIR \<and> omode \<noteq> O_RDONLY then sq (iunlockput i) fail_op
            else open_inode i omode))))))"

text \<open>Handlers that start their transaction first: \<open>-1\<close> ends it.\<close>

definition need_op :: "'a option kfun \<Rightarrow> ('a \<Rightarrow> 32 word kfun) \<Rightarrow> 32 word kfun" where
  "need_op m f = bnd m (\<lambda>r. case r of None \<Rightarrow> fail_op | Some a \<Rightarrow> f a)"

definition finish_op :: "nat \<Rightarrow> 32 word kfun" where
  "finish_op i = sq (iunlockput i) (sq end_op (ret 0))"

definition sys_mkdir :: "32 word kfun" where
  "sys_mkdir =
     sq begin_op
     (need_op (argstr 0) (\<lambda>path.
     need_op (create path T_DIR 0 0) finish_op))"

text \<open>\<open>major\<close> and \<open>minor\<close> are \<open>int\<close> arguments passed as \<open>short\<close>.\<close>

definition short :: "32 word \<Rightarrow> int" where
  "short v = sint16 (unat v mod 65536)"

definition sys_mknod :: "32 word kfun" where
  "sys_mknod =
     sq begin_op
     (need_op (argstr 0) (\<lambda>path.
     need_op (argint 1) (\<lambda>major.
     need_op (argint 2) (\<lambda>minor.
     need_op (create path T_DEV (short major) (short minor)) finish_op))))"

definition sys_chdir :: "32 word kfun" where
  "sys_chdir =
     sq begin_op
     (need_op (argstr 0) (\<lambda>path.
     need_op (namei path) (\<lambda>i.
     sq (ilock i)
     (bnd (geti i) (\<lambda>ip.
     if i_type ip \<noteq> T_DIR then sq (iunlockput i) fail_op
     else
     sq (iunlock i)
     (bnd myproc (\<lambda>j. bnd (getp j) (\<lambda>p.
     sq (case p_cwd p of None \<Rightarrow> panic ''null cwd'' | Some c \<Rightarrow> iput c)
     (sq end_op
     (sq (setp j (\<lambda>p. p\<lparr>p_cwd := Some i\<rparr>))
     (ret 0)))))))))))"

text \<open>The loop of \<open>sys_exec\<close> over the user's \<open>argv\<close>; \<open>n\<close> of its \<open>MAXARG\<close> slots are left.\<close>

fun fetch_argv :: "nat \<Rightarrow> 32 word \<Rightarrow> byte list list option kfun" where
  "fetch_argv 0 a = ret None"
| "fetch_argv (Suc n) a =
     bnd (fetchint a) (\<lambda>r.
     case r of None \<Rightarrow> ret None
     | Some uarg \<Rightarrow>
         if uarg = 0 then ret (Some [])
         else
         bnd (fetchstr uarg) (\<lambda>r.
         case r of None \<Rightarrow> ret None
         | Some x \<Rightarrow> bnd (fetch_argv n (a + 4)) (\<lambda>r. ret (map_option (Cons x) r))))"

definition sys_exec :: "bytes \<Rightarrow> 32 word kfun" where
  "sys_exec junk =
     need (argstr 0) (\<lambda>path.
     need (argint 1) (\<lambda>uargv.
     need (fetch_argv MAXARG uargv) (\<lambda>argv.
     bnd (exec junk path argv) ret_int)))"

definition sys_pipe :: "32 word kfun" where
  "sys_pipe =
     need (argptr 0 8) (\<lambda>fd.
     need pipealloc (\<lambda>(rf, wf).
     bnd (fdalloc rf) (\<lambda>r0.
     case r0 of None \<Rightarrow> sq (fileclose rf) (sq (fileclose wf) (ret (- 1)))
     | Some fd0 \<Rightarrow>
         bnd (fdalloc wf) (\<lambda>r1.
         case r1 of None \<Rightarrow> sq (fdclear fd0) (sq (fileclose rf) (sq (fileclose wf) (ret (- 1))))
         | Some fd1 \<Rightarrow>
             sq (ustore32 fd (of_nat fd0))
             (sq (ustore32 (fd + 4) (of_nat fd1))
             (ret 0))))))"

section \<open>Modes and owners\<close>

text \<open>
  \<open>sys_chmod\<close>, \<open>sys_chown\<close> and \<open>sys_chgrp\<close> differ in the bound of their argument and
  in the field they set.  The bound of \<open>sys_chmod\<close> is the decimal 1777.
\<close>

definition set_attr :: "32 word \<Rightarrow> (nat \<Rightarrow> inode \<Rightarrow> inode) \<Rightarrow> 32 word kfun" where
  "set_attr mx upd =
     sq begin_op
     (need_op (argstr 0) (\<lambda>path.
     need_op (argint 1) (\<lambda>v.
     if v <s 0 \<or> mx <s v then fail_op
     else
     need_op (namei path) (\<lambda>i.
     sq (ilock i)
     (sq (seti i (upd (unat v)))
     (sq (iupdate i)
     (finish_op i)))))))"

definition sys_chmod :: "32 word kfun" where
  "sys_chmod = set_attr 1777 (\<lambda>v ip. ip\<lparr>i_mode := v\<rparr>)"

definition sys_chown :: "32 word kfun" where
  "sys_chown = set_attr 32767 (\<lambda>v ip. ip\<lparr>i_uid := v\<rparr>)"

definition sys_chgrp :: "32 word kfun" where
  "sys_chgrp = set_attr 32767 (\<lambda>v ip. ip\<lparr>i_gid := v\<rparr>)"

end
