(* ===== verification/Kbd.thy ===== *)
theory Kbd
  imports Consdev
begin

text \<open>
  The keyboard: the tables of \<open>kbd.h\<close>, \<open>kbdgetc\<close> and \<open>kbdintr\<close> of \<open>kbd.c\<close>, and
  the receiving half of \<open>uart.c\<close>.  What the controller's ports hold when a \<open>getc\<close>
  function looks is the argument: \<open>None\<close> when no data is ready, and the data otherwise.
\<close>

section \<open>Tables\<close>

abbreviation (input) SHIFT :: "32 word" where "SHIFT \<equiv> 1"
abbreviation (input) CTL :: "32 word" where "CTL \<equiv> 2"
abbreviation (input) ALT :: "32 word" where "ALT \<equiv> 4"
abbreviation (input) CAPSLOCK :: "32 word" where "CAPSLOCK \<equiv> 8"
abbreviation (input) NUMLOCK :: "32 word" where "NUMLOCK \<equiv> 16"
abbreviation (input) SCROLLLOCK :: "32 word" where "SCROLLLOCK \<equiv> 32"
abbreviation (input) E0ESC :: "32 word" where "E0ESC \<equiv> 64"

definition shiftcode :: "nat \<Rightarrow> 32 word" where
  "shiftcode d =
     (if d = 0x1D \<or> d = 0x9D then CTL else if d = 0x2A \<or> d = 0x36 then SHIFT
      else if d = 0x38 \<or> d = 0xB8 then ALT else 0)"

definition togglecode :: "nat \<Rightarrow> 32 word" where
  "togglecode d =
     (if d = 0x3A then CAPSLOCK else if d = 0x45 then NUMLOCK else if d = 0x46 then SCROLLLOCK else 0)"

text \<open>
  An initialised C array: the leading elements, then designated ones; the rest are zero.
\<close>

definition carray :: "nat list \<Rightarrow> (nat \<times> nat) list \<Rightarrow> nat \<Rightarrow> nat" where
  "carray xs ov d = (case map_of ov d of Some v \<Rightarrow> v | None \<Rightarrow> if d < length xs then xs ! d else 0)"

definition special_keys :: "(nat \<times> nat) list" where
  "special_keys =
     [(0xC8, 0xE2), (0xD0, 0xE3), (0xC9, 0xE6), (0xD1, 0xE7), (0xCB, 0xE4), (0xCD, 0xE5),
      (0x97, 0xE0), (0xCF, 0xE1), (0xD2, 0xE8), (0xD3, 0xE9)]"

definition normalmap :: "nat \<Rightarrow> nat" where
  "normalmap = carray
    [0, 27, 49, 50, 51, 52, 53, 54, 55, 56, 57, 48, 45, 61, 8, 9,
     113, 119, 101, 114, 116, 121, 117, 105, 111, 112, 91, 93, 10, 0, 97, 115,
     100, 102, 103, 104, 106, 107, 108, 59, 39, 96, 0, 92, 122, 120, 99, 118,
     98, 110, 109, 44, 46, 47, 0, 42, 0, 32, 0, 0, 0, 0, 0, 0,
     0, 0, 0, 0, 0, 0, 0, 55, 56, 57, 45, 52, 53, 54, 43, 49,
     50, 51, 48, 46, 0, 0, 0, 0] ((0x9C, 10) # (0xB5, 47) # special_keys)"

definition shiftmap :: "nat \<Rightarrow> nat" where
  "shiftmap = carray
    [0, 27, 33, 64, 35, 36, 37, 94, 38, 42, 40, 41, 95, 43, 8, 9,
     81, 87, 69, 82, 84, 89, 85, 73, 79, 80, 123, 125, 10, 0, 65, 83,
     68, 70, 71, 72, 74, 75, 76, 58, 34, 126, 0, 124, 90, 88, 67, 86,
     66, 78, 77, 60, 62, 63, 0, 42, 0, 32, 0, 0, 0, 0, 0, 0,
     0, 0, 0, 0, 0, 0, 0, 55, 56, 57, 45, 52, 53, 54, 43, 49,
     50, 51, 48, 46, 0, 0, 0, 0] ((0x9C, 10) # (0xB5, 47) # special_keys)"

definition ctlmap :: "nat \<Rightarrow> nat" where
  "ctlmap = carray
    [0, 0, 0, 0, 0, 0, 0, 0, 0, 0, 0, 0, 0, 0, 0, 0,
     17, 23, 5, 18, 20, 25, 21, 9, 15, 16, 0, 0, 13, 0, 1, 19,
     4, 6, 7, 8, 10, 11, 12, 0, 0, 0, 0, 28, 26, 24, 3, 22,
     2, 14, 13, 0, 0, 239, 0, 0] ((0x9C, 13) # (0xB5, 239) # special_keys)"

section \<open>Decoding\<close>

definition charcode :: "32 word \<Rightarrow> nat \<Rightarrow> nat" where
  "charcode m d = (if m = 0 then normalmap d else if m = SHIFT then shiftmap d else ctlmap d)"

definition caps :: "nat \<Rightarrow> nat" where
  "caps c = (if 97 \<le> c \<and> c \<le> 122 then c - 32 else if 65 \<le> c \<and> c \<le> 90 then c + 32 else c)"

text \<open>The body of \<open>kbdgetc\<close> on a data byte: the new \<open>shift\<close> and the character.\<close>

definition kbd_decode :: "32 word \<Rightarrow> nat \<Rightarrow> 32 word \<times> int" where
  "kbd_decode shift data =
     (if data = 0xE0 then (shift OR E0ESC, 0)
      else if 128 \<le> data then
        let data = (if shift AND E0ESC \<noteq> 0 then data else data - 128) in
        (shift AND NOT (shiftcode data OR E0ESC), 0)
      else
        let e0 = (shift AND E0ESC \<noteq> 0);
            data = (if e0 then data + 128 else data);
            shift = (if e0 then shift AND NOT E0ESC else shift);
            shift = (shift OR shiftcode data) XOR togglecode data;
            c = charcode (shift AND (CTL OR SHIFT)) data
        in (shift, int (if shift AND CAPSLOCK \<noteq> 0 then caps c else c)))"

definition kbdgetc :: "byte option \<Rightarrow> int kfun" where
  "kbdgetc port =
     (case port of None \<Rightarrow> ret (- 1)
      | Some b \<Rightarrow>
          bnd (gets (\<lambda>s. cn_shift (cons s))) (\<lambda>sh.
          case kbd_decode sh (unat b) of (sh', c) \<Rightarrow>
            sq (modcons (\<lambda>k. k\<lparr>cn_shift := sh'\<rparr>)) (ret c)))"

definition kbdintr :: "(32 word \<Rightarrow> 32 word) \<Rightarrow> byte option list \<Rightarrow> unit kfun" where
  "kbdintr ld ports = consoleintr ld (map kbdgetc ports)"

definition uartgetc :: "byte option \<Rightarrow> int kfun" where
  "uartgetc port =
     bnd (gets (\<lambda>s. cn_uart_on (cons s))) (\<lambda>on.
     if \<not> on then ret (- 1)
     else case port of None \<Rightarrow> ret (- 1) | Some b \<Rightarrow> ret (uint b))"

definition uartintr :: "(32 word \<Rightarrow> 32 word) \<Rightarrow> byte option list \<Rightarrow> unit kfun" where
  "uartintr ld ports = consoleintr ld (map uartgetc ports)"

section \<open>Properties of the decoder\<close>

lemmas kbd_defs = kbd_decode_def shiftcode_def togglecode_def charcode_def caps_def ctlmap_def shiftmap_def
  normalmap_def carray_def special_keys_def

text \<open>The scan codes of the three rows of letters.\<close>

definition letter_keys :: "nat list" where
  "letter_keys = [0x10 ..< 0x1A] @ [0x1E ..< 0x27] @ [0x2C ..< 0x33]"

text \<open>
  C15: letters follow the shift and caps-lock keys.  For every key of the three
  letter rows, \<open>kbdgetc\<close> gives the lower-case letter alone, the upper-case one under Shift
  or under Caps Lock, and the lower-case one again under both; with Control held it
  gives the control character of that letter.  The modifiers stay as they were.
\<close>

theorem kbd_letters:
  "\<forall>d \<in> set letter_keys.
     97 \<le> normalmap d \<and> normalmap d \<le> 122 \<and>
     kbd_decode 0 d = (0, int (normalmap d)) \<and>
     kbd_decode SHIFT d = (SHIFT, int (normalmap d) - 32) \<and>
     kbd_decode CAPSLOCK d = (CAPSLOCK, int (normalmap d) - 32) \<and>
     kbd_decode (CAPSLOCK OR SHIFT) d = (CAPSLOCK OR SHIFT, int (normalmap d)) \<and>
     kbd_decode CTL d = (CTL, int (normalmap d) - 96)"
  by (simp add: kbd_defs letter_keys_def)

theorem kbd_letters_witness:
  "0x1E \<in> set letter_keys \<and>
   kbd_decode CTL 0x1E = (CTL, 1)"
proof -
  have h: "0x1E \<in> set letter_keys" "normalmap 0x1E = 97"
    by (simp_all add: kbd_defs letter_keys_def)
  then show ?thesis using bspec [OF kbd_letters h(1)] by simp
qed

text \<open>
  The bytes the controller sends when a modifier key goes down and up, and the bit of
  \<open>shift\<close> that stands for it: left and right Shift, Control and Alt.  The right-hand
  Control and Alt keys send the same codes as the left-hand ones after the byte 0xE0.
\<close>

definition modifier_keys :: "(nat list \<times> nat list \<times> 32 word) list" where
  "modifier_keys =
     [([0x2A], [0xAA], SHIFT), ([0x36], [0xB6], SHIFT), ([0x1D], [0x9D], CTL), ([0x38], [0xB8], ALT),
      ([0xE0, 0x1D], [0xE0, 0x9D], CTL), ([0xE0, 0x38], [0xE0, 0xB8], ALT)]"

text \<open>Successive calls of \<open>kbdgetc\<close> on a sequence of data bytes.\<close>

fun kbd_seq :: "32 word \<Rightarrow> nat list \<Rightarrow> 32 word \<times> int list" where
  "kbd_seq sh [] = (sh, [])"
| "kbd_seq sh (d # ds) = (case kbd_decode sh d of (sh', c) \<Rightarrow> case kbd_seq sh' ds of (sh'', xs) \<Rightarrow> (sh'', c # xs))"

lemma kbd_seq_append: "kbd_seq sh (ds @ es) =
    (case kbd_seq sh ds of (sh', xs) \<Rightarrow> case kbd_seq sh' es of (sh'', ys) \<Rightarrow> (sh'', xs @ ys))"
  by (induction ds arbitrary: sh) (auto split: prod.splits)

lemma clear_bits:
  fixes l e m :: "32 word"
  assumes "l AND e = 0"
  shows "l AND NOT e = l" and "(l OR e) AND NOT e = l" and "(l OR e) AND e = e" and "(l OR m) AND NOT (m OR e) = l AND NOT m"
    and "(l OR m OR e) AND NOT (m OR e) = l AND NOT m"
proof -
  have b: "\<not> (bit l n \<and> bit e n)" for n using arg_cong [OF assms, of "\<lambda>w. bit w n"] by (simp add: bit_and_iff)
  show "l AND NOT e = l" "(l OR e) AND NOT e = l" "(l OR e) AND e = e" "(l OR m) AND NOT (m OR e) = l AND NOT m"
    "(l OR m OR e) AND NOT (m OR e) = l AND NOT m"
    by (rule bit_word_eqI; use b in \<open>auto simp: bit_and_iff bit_or_iff bit_not_iff\<close>)+
qed

text \<open>A letter key goes down or up.\<close>

definition letter_bytes :: "nat set" where
  "letter_bytes = set letter_keys \<union> (\<lambda>d. d + 128) ` set letter_keys"

lemma letter_byte_state:
  assumes "l AND E0ESC = 0" and "d \<in> letter_bytes"
  shows "fst (kbd_decode l d) = l"
proof (cases "d < 128")
  case True
  then have "d \<in> set letter_keys" using assms(2) by (auto simp: letter_bytes_def)
  then have "shiftcode d = 0" "togglecode d = 0" "d \<noteq> 0xE0" by (auto simp: letter_keys_def shiftcode_def togglecode_def)
  then show ?thesis using assms(1) True by (simp add: kbd_decode_def Let_def)
next
  case False
  then obtain k where k: "d = k + 128" "k \<in> set letter_keys" using assms(2) by (auto simp: letter_bytes_def letter_keys_def)
  then have "shiftcode k = 0" "k \<noteq> 0x60" by (auto simp: letter_keys_def shiftcode_def)
  then show ?thesis using assms(1) k(1) clear_bits(1) [OF assms(1)] by (simp add: kbd_decode_def)
qed

lemma letter_bytes_seq:
  assumes "l AND E0ESC = 0"
  shows "set ks \<subseteq> letter_bytes \<Longrightarrow> kbd_seq l ks = (l, map (\<lambda>d. snd (kbd_decode l d)) ks)"
proof (induction ks)
  case (Cons d ks)
  then have "kbd_decode l d = (l, snd (kbd_decode l d))" using letter_byte_state [OF assms, of d] by (metis list.set_intros(1) prod.collapse subsetD)
  then show ?case using Cons by (auto split: prod.splits)
qed simp

lemma decode_press:
  assumes "l AND E0ESC = 0" and "d < 128"
  shows "togglecode d = 0 \<Longrightarrow> (\<And>x. charcode x d = 0) \<Longrightarrow> kbd_decode l d = (l OR shiftcode d, 0)"
    and "togglecode (d + 128) = 0 \<Longrightarrow> (\<And>x. charcode x (d + 128) = 0) \<Longrightarrow> kbd_decode (l OR E0ESC) d = (l OR shiftcode (d + 128), 0)"
  using assms clear_bits(2,3) [OF assms(1)] by (simp_all only: kbd_decode_def Let_def) (simp_all add: caps_def)

lemma decode_release:
  assumes "l AND E0ESC = 0" and "(l OR m) AND E0ESC = 0" and "128 \<le> d" and "d \<noteq> 0xE0"
  shows "shiftcode (d - 128) = m \<Longrightarrow> kbd_decode (l OR m) d = (l AND NOT m, 0)"
    and "shiftcode d = m \<Longrightarrow> kbd_decode (l OR m OR E0ESC) d = (l AND NOT m, 0)"
proof -
  have e: "(l OR m OR E0ESC) AND E0ESC = E0ESC" using clear_bits(3) [OF assms(2)] by (simp only: or.assoc)
  show "shiftcode (d - 128) = m \<Longrightarrow> kbd_decode (l OR m) d = (l AND NOT m, 0)"
    using assms clear_bits(4) [OF assms(1), of m] by (simp only: kbd_decode_def Let_def) simp
  show "shiftcode d = m \<Longrightarrow> kbd_decode (l OR m OR E0ESC) d = (l AND NOT m, 0)"
    using assms clear_bits(5) [OF assms(1), of m] e by (simp only: kbd_decode_def Let_def) simp
qed

lemma modifier_bits:
  assumes "(down, up, m) \<in> set modifier_keys" and "l AND E0ESC = 0"
  shows "(l OR m) AND E0ESC = 0"
    and "kbd_seq l down = (l OR m, map (\<lambda>_. 0) down)"
    and "kbd_seq (l OR m) up = (l AND NOT m, map (\<lambda>_. 0) up)"
proof -
  have m: "m AND E0ESC = 0" using assms(1) by (auto simp: modifier_keys_def)
  then show lm: "(l OR m) AND E0ESC = 0" using assms(2) by (simp add: bit.conj_disj_distrib2)
  have dead: "charcode x d = 0" "togglecode d = 0" if "d \<in> {0x2A, 0x36, 0x1D, 0x38, 0x9D, 0xB8}" for d x
    using that by (auto simp: charcode_def togglecode_def normalmap_def shiftmap_def ctlmap_def carray_def special_keys_def)
  have pre: "kbd_decode x 0xE0 = (x OR E0ESC, 0)" for x by (simp add: kbd_decode_def)
  have p1: "kbd_decode l d = (l OR shiftcode d, 0)" if "d \<in> {0x2A, 0x36, 0x1D, 0x38}" for d
    using decode_press(1) [OF assms(2), of d] dead [of d] that by auto
  have p2: "kbd_decode (l OR E0ESC) d = (l OR shiftcode (d + 128), 0)" if "d \<in> {0x1D, 0x38}" for d
    using decode_press(2) [OF assms(2), of d] dead [of "d + 128"] that by auto
  show "kbd_seq l down = (l OR m, map (\<lambda>_. 0) down)"
    using assms(1) pre p1 p2 by (auto simp: modifier_keys_def shiftcode_def)
  have r1: "kbd_decode (l OR m) d = (l AND NOT m, 0)" if "d \<in> {0xAA, 0xB6, 0x9D, 0xB8}" "shiftcode (d - 128) = m" for d
    using decode_release(1) [OF assms(2) lm, of d] that by auto
  have r2: "kbd_decode (l OR m OR E0ESC) d = (l AND NOT m, 0)" if "d \<in> {0x9D, 0xB8}" "shiftcode d = m" for d
    using decode_release(2) [OF assms(2) lm, of d] that by auto
  show "kbd_seq (l OR m) up = (l AND NOT m, map (\<lambda>_. 0) up)"
    using assms(1) pre [of "l OR m"] r1 [of "0xAA"] r1 [of "0xB6"] r1 [of "0x9D"] r1 [of "0xB8"] r2 [of "0x9D"] r2 [of "0xB8"]
    by (auto simp: modifier_keys_def shiftcode_def or.assoc)
qed

text \<open>
  C16: modifier keys work in every state of the keyboard.  Let no 0xE0 byte be pending.
  Pressing a Shift, Control or Alt key (right or left), then pressing and releasing any
  letters, then releasing the modifier delivers no character for the modifier itself, and
  the letters are decoded with its bit set.  Afterwards that bit is clear and all other
  bits are as before; so the state is restored exactly if the modifier was not held
  already: releasing one of two Shift keys that are both down drops Shift.
\<close>

theorem kbd_modifier_roundtrip:
  assumes "(down, up, m) \<in> set modifier_keys" and "l AND E0ESC = 0" and "set ks \<subseteq> letter_bytes"
  shows "kbd_seq l (down @ ks @ up) =
      (l AND NOT m, map (\<lambda>_. 0) down @ map (\<lambda>d. snd (kbd_decode (l OR m) d)) ks @ map (\<lambda>_. 0) up) \<and>
    (fst (kbd_seq l (down @ ks @ up)) = l \<longleftrightarrow> l AND m = 0)"
proof -
  note b = modifier_bits [OF assms(1,2)]
  have s: "kbd_seq l (down @ ks @ up) =
      (l AND NOT m, map (\<lambda>_. 0) down @ map (\<lambda>d. snd (kbd_decode (l OR m) d)) ks @ map (\<lambda>_. 0) up)"
    using b(2,3) letter_bytes_seq [OF b(1) assms(3)] by (simp add: kbd_seq_append)
  have "l AND m = 0" if "l AND NOT m = l"
    using arg_cong [OF that, of "\<lambda>w. w AND m"] by (simp add: and.assoc)
  then have "l AND NOT m = l \<longleftrightarrow> l AND m = 0" using clear_bits(1) [of l m] by blast
  then show ?thesis using s by simp
qed

theorem kbd_modifier_roundtrip_witness:
  "([0x36], [0xB6], SHIFT) \<in> set modifier_keys \<and> (CAPSLOCK OR SHIFT) AND E0ESC = 0 \<and> set [0x1E, 0x9E] \<subseteq> letter_bytes \<and>
   kbd_seq CAPSLOCK [0x36, 0x1E, 0x9E, 0xB6] = (CAPSLOCK, [0, 97, 0, 0]) \<and>
   fst (kbd_seq (CAPSLOCK OR SHIFT) [0x36, 0x1E, 0x9E, 0xB6]) = CAPSLOCK"
proof -
  have h: "([0x36], [0xB6], SHIFT) \<in> set modifier_keys" "set [0x1E, 0x9E] \<subseteq> letter_bytes"
    by (simp_all add: modifier_keys_def letter_bytes_def letter_keys_def image_iff)
  have e: "CAPSLOCK AND E0ESC = 0" "(CAPSLOCK OR SHIFT) AND E0ESC = 0" by simp_all
  have d: "snd (kbd_decode (CAPSLOCK OR SHIFT) 0x1E) = 97" "snd (kbd_decode (CAPSLOCK OR SHIFT) 0x9E) = 0"
    by (simp_all add: kbd_defs)
  show ?thesis
    using h e d kbd_modifier_roundtrip [OF h(1) e(1) h(2)] kbd_modifier_roundtrip [OF h(1) e(2) h(2)] by simp
qed

end
