(* ===== verification/Trap.thy ===== *)
theory Trap
  imports Sysproc Sysfile Kbd
begin

text \<open>
  System call dispatch (\<open>syscall\<close> of \<open>syscall.c\<close>) and the trap handler (\<open>trap.c\<close>).
  What the handlers take from the machine, beyond the state, is the record \<open>hw\<close>: the
  data waiting in the keyboard and serial ports, the fault address, the clock, the words
  of the kernel stacks, and the contents of uninitialised stack variables.
\<close>

section \<open>Definitions\<close>

record hw =
  hw_kbd :: "byte option list"
  hw_uart :: "byte option list"
  hw_cr2 :: "32 word"
  hw_statb :: "32 word"
  hw_clock :: "(rtcdate \<times> bool \<times> rtcdate) list"
  hw_stack :: "32 word \<Rightarrow> 32 word"
  hw_elf :: bytes
  hw_id :: "32 word"

definition syscalls :: "hw \<Rightarrow> (32 word kfun) list" where
  "syscalls h =
     [sys_fork, sys_exit, sys_wait, sys_pipe, sys_read, sys_kill, sys_exec (hw_elf h), sys_fstat, sys_chdir,
      sys_dup, sys_getpid, sys_sbrk, sys_sleep, sys_uptime, sys_open, sys_write, sys_mknod, sys_unlink,
      sys_link, sys_mkdir, sys_close, sys_halt, sys_date (hw_statb h) (hw_clock h), sys_getuid, sys_getgid,
      sys_getppid, sys_setuid (hw_id h), sys_setgid (hw_id h), sys_getprocs, sys_setpriority, sys_chmod,
      sys_chown, sys_chgrp]"

definition set_eax :: "nat \<Rightarrow> 32 word \<Rightarrow> unit kfun" where
  "set_eax i v = setp i (\<lambda>p. p\<lparr>p_tf := (p_tf p)\<lparr>tf_eax := v\<rparr>\<rparr>)"

definition syscall :: "hw \<Rightarrow> unit kfun" where
  "syscall h =
     bnd myproc (\<lambda>i. bnd (getp i) (\<lambda>p.
     let num = sint (tf_eax (p_tf p)) in
     if 0 < num \<and> num < 34
     then bnd (syscalls h ! (nat num - 1)) (\<lambda>v. set_eax i v)
     else
     sq (cprintf (''%d %s: unknown sys call %d'' @ NL)
          [IntA (p_pid p), StrA (Some (chars (p_name p))), IntA (tf_eax (p_tf p))])
     (set_eax i (- 1))))"

definition exit_if_killed :: "nat \<Rightarrow> unit kfun" where
  "exit_if_killed i = bnd (getp i) (\<lambda>p. whenk (p_killed p) exit_proc)"

definition user_mode :: "trapframe \<Rightarrow> bool" where
  "user_mode tf = (tf_cs tf AND 3 = 3)"

definition exit_from_user :: "trapframe \<Rightarrow> unit kfun" where
  "exit_from_user tf =
     bnd (gets curproc) (\<lambda>c.
     case c of None \<Rightarrow> ret () | Some i \<Rightarrow> whenk (user_mode tf) (exit_if_killed i))"

text \<open>The \<open>switch\<close> of \<open>trap\<close>; the acknowledgement to the interrupt controller has no state.\<close>

definition trap_switch :: "hw \<Rightarrow> trapframe \<Rightarrow> unit kfun" where
  "trap_switch h tf =
     (let n = tf_trapno tf in
      bnd (gets (\<lambda>s. c_id (kcpu s))) (\<lambda>cpuid.
      if n = 32 then
        whenk (cpuid = 0) (sq (modify (\<lambda>s. s\<lparr>ticks := ticks s + 1\<rparr>)) (wakeup ChanTicks))
      else if n = 46 then ideintr
      else if n = 47 then ret ()
      else if n = 33 then kbdintr (hw_stack h) (hw_kbd h)
      else if n = 36 then uartintr (hw_stack h) (hw_uart h)
      else if n = 39 \<or> n = 63 then
        cprintf (''cpu%d: spurious interrupt at %x:%x'' @ NL)
          [IntA (of_nat cpuid), IntA (ucast (tf_cs tf)), IntA (tf_eip tf)]
      else
        let unexpected = sq (cprintf (''unexpected trap %d from cpu %d eip %x (cr2=0x%x)'' @ NL)
              [IntA n, IntA (of_nat cpuid), IntA (tf_eip tf), IntA (hw_cr2 h)]) (panic ''trap'') in
        bnd (gets curproc) (\<lambda>c.
        case c of
          None \<Rightarrow> unexpected
        | Some i \<Rightarrow>
            if tf_cs tf AND 3 = 0 then unexpected
            else
            bnd (getp i) (\<lambda>p.
            sq (cprintf (''pid %d %s: trap %d err %d on cpu %d eip 0x%x addr 0x%x--kill proc'' @ NL)
                 [IntA (p_pid p), StrA (Some (chars (p_name p))), IntA n, IntA (tf_err tf),
                  IntA (of_nat cpuid), IntA (tf_eip tf), IntA (hw_cr2 h)])
            (setp i (\<lambda>p. p\<lparr>p_killed := True\<rparr>))))))"

text \<open>
  \<open>trap\<close> up to the possible \<open>yield\<close>; a process that yielded ends with
  \<open>exit_from_user\<close> when it runs again.
\<close>

definition trap :: "hw \<Rightarrow> trapframe \<Rightarrow> unit kfun" where
  "trap h tf =
     (if tf_trapno tf = 64 then
        bnd myproc (\<lambda>i.
        sq (exit_if_killed i)
        (sq (setp i (\<lambda>p. p\<lparr>p_tf := tf\<rparr>))
        (sq (syscall h)
        (exit_if_killed i))))
      else
        sq (trap_switch h tf)
        (sq (exit_from_user tf)
        (bnd (gets id) (\<lambda>s.
        sq (case curproc s of None \<Rightarrow> ret ()
            | Some i \<Rightarrow>
                whenk (p_state (ptable s ! i) = RUNNING \<and> tf_trapno tf = 32 \<and> ticks s mod 10 = 0) yield)
        (exit_from_user tf)))))"

definition trap_resume :: "bool \<Rightarrow> trapframe \<Rightarrow> unit kfun" where
  "trap_resume en tf = sq (yield_resume en) (exit_from_user tf)"

end
