(* ===== verification/Mlfq_Lists.thy ===== *)
theory Mlfq_Lists
  imports Mlfq
begin

text \<open>
  The state lists of \<open>proc.c\<close> refined to lists: the pointer structure represents
  twelve disjoint lists of processes, \<open>stateListAdd\<close> appends to one of them and
  \<open>stateListRemove\<close> takes a member out, and the process operations that
  \<open>CS333_P3P4\<close> selects keep every process in the list of its state and priority.
\<close>

section \<open>Linked lists in the process table\<close>

fun chain :: "proc list \<Rightarrow> nat option \<Rightarrow> nat list \<Rightarrow> bool" where
  "chain ps h [] = (h = None)"
| "chain ps h (x # xs) = (h = Some x \<and> chain ps (p_next (ps ! x)) xs)"

definition rep :: "kstate \<Rightarrow> nat \<Rightarrow> nat \<Rightarrow> nat list \<Rightarrow> bool" where
  "rep s hp tp xs \<longleftrightarrow> chain (ptable s) (pLists s hp) xs \<and> (xs \<noteq> [] \<longrightarrow> pLists s tp = Some (last xs)) \<and>
     distinct xs \<and> set xs \<subseteq> {..<NPROC}"

text \<open>Two process tables that differ in the links of the processes of \<open>A\<close> only.\<close>

definition unlinked :: "proc \<Rightarrow> proc" where
  "unlinked p = p\<lparr>p_next := None\<rparr>"

definition relinked :: "nat set \<Rightarrow> proc list \<Rightarrow> proc list \<Rightarrow> bool" where
  "relinked A ps ps' \<longleftrightarrow> map unlinked ps' = map unlinked ps \<and> (\<forall>x < length ps. x \<notin> A \<longrightarrow> ps' ! x = ps ! x)"

lemma unlinked_upd [simp]: "map unlinked (upd_nth x (\<lambda>p. p\<lparr>p_next := n\<rparr>) ps) = map unlinked ps"
  by (intro map_upd_nth_same) (simp add: unlinked_def)

lemma relinked_length: "relinked A ps ps' \<Longrightarrow> length ps' = length ps"
  unfolding relinked_def by (metis length_map)

lemma relinked_refl [simp]: "relinked A ps ps"
  by (simp add: relinked_def)

lemma relinked_trans: "relinked A ps qs \<Longrightarrow> relinked A qs rs \<Longrightarrow> relinked A ps rs"
  using relinked_length [of A ps qs] by (simp add: relinked_def)

lemma relinked_mono: "relinked A ps qs \<Longrightarrow> A \<subseteq> B \<Longrightarrow> relinked B ps qs"
  unfolding relinked_def by blast

lemma relinked_upd: "x \<in> A \<Longrightarrow> relinked A ps (upd_nth x (\<lambda>p. p\<lparr>p_next := n\<rparr>) ps)"
  by (auto simp: relinked_def)

lemma relinked_fields:
  assumes "relinked A ps ps'" and "x < length ps"
  shows "p_state (ps' ! x) = p_state (ps ! x)" "p_priority (ps' ! x) = p_priority (ps ! x)"
    "p_chan (ps' ! x) = p_chan (ps ! x)" "p_pid (ps' ! x) = p_pid (ps ! x)" "p_killed (ps' ! x) = p_killed (ps ! x)"
    "p_budget (ps' ! x) = p_budget (ps ! x)"
proof -
  have "unlinked (ps' ! x) = unlinked (ps ! x)"
    using assms relinked_length [OF assms(1)] unfolding relinked_def by (metis nth_map)
  then show "p_state (ps' ! x) = p_state (ps ! x)" "p_priority (ps' ! x) = p_priority (ps ! x)"
    "p_chan (ps' ! x) = p_chan (ps ! x)" "p_pid (ps' ! x) = p_pid (ps ! x)" "p_killed (ps' ! x) = p_killed (ps ! x)"
    "p_budget (ps' ! x) = p_budget (ps ! x)"
    unfolding unlinked_def by (metis proc.select_convs proc.surjective proc.update_convs(19))+
qed

lemma chain_frame:
  "chain ps h xs \<Longrightarrow> (\<And>x. x \<in> set xs \<Longrightarrow> p_next (ps' ! x) = p_next (ps ! x)) \<Longrightarrow> chain ps' h xs"
  by (induction xs arbitrary: h) auto

text \<open>The links of a list after its last member \<open>t\<close> has been linked to \<open>p\<close>.\<close>

lemma chain_snoc:
  "chain ps h xs \<Longrightarrow> xs \<noteq> [] \<Longrightarrow> distinct (xs @ [p]) \<Longrightarrow> set (xs @ [p]) \<subseteq> {..<length ps} \<Longrightarrow>
     chain (upd_nth p (\<lambda>x. x\<lparr>p_next := None\<rparr>) (upd_nth (last xs) (\<lambda>x. x\<lparr>p_next := Some p\<rparr>) ps)) h (xs @ [p])"
proof (induction xs arbitrary: h)
  case (Cons x xs)
  let ?ps = "upd_nth p (\<lambda>x. x\<lparr>p_next := None\<rparr>) (upd_nth (last (x # xs)) (\<lambda>x. x\<lparr>p_next := Some p\<rparr>) ps)"
  show ?case
  proof (cases "xs = []")
    case True
    then show ?thesis using Cons.prems by auto
  next
    case False
    then have "last xs \<noteq> x" using Cons.prems(3) by auto
    then have "p_next (?ps ! x) = p_next (ps ! x)" using Cons.prems False by auto
    then show ?thesis using Cons False by auto
  qed
qed simp

lemma stateListAdd_rep:
  assumes "ptable_ok s" and "rep s hp tp xs" and "p \<notin> set xs" and "p < NPROC" and "hp \<noteq> tp"
  shows "\<exists>ps pl. stateListAdd hp tp p s = Done 0 (s\<lparr>ptable := ps, pLists := pl\<rparr>) \<and>
     rep (s\<lparr>ptable := ps, pLists := pl\<rparr>) hp tp (xs @ [p]) \<and>
     relinked (insert p (set xs)) (ptable s) ps \<and> (\<forall>c. c \<notin> {hp, tp} \<longrightarrow> pl c = pLists s c) \<and> p_next (ps ! p) = None"
proof (cases "xs = []")
  case True
  then have h: "pLists s hp = None" using assms(2) by (simp add: rep_def)
  let ?ps = "upd_nth p (\<lambda>x. x\<lparr>p_next := None\<rparr>) (ptable s)"
  show ?thesis
    by (rule exI [of _ ?ps], rule exI [of _ "(pLists s)(hp := Some p, tp := Some p)"])
      (use assms h True in \<open>auto simp: stateListAdd_def bnd_def sq_def gets_def modify_def ret_def cell_def set_cell_def
        set_nextof_def setp_def rep_def ptable_ok_def relinked_upd\<close>)
next
  case False
  then have h: "pLists s hp = Some (hd xs)" "pLists s tp = Some (last xs)"
    using assms(2) by (cases xs; simp add: rep_def)+
  let ?ps = "upd_nth p (\<lambda>x. x\<lparr>p_next := None\<rparr>) (upd_nth (last xs) (\<lambda>x. x\<lparr>p_next := Some p\<rparr>) (ptable s))"
  have "chain ?ps (pLists s hp) (xs @ [p])"
    using assms False by (intro chain_snoc) (auto simp: rep_def ptable_ok_def)
  moreover have "relinked (insert p (set xs)) (ptable s) ?ps"
    using False by (intro relinked_trans [OF relinked_upd relinked_upd]) auto
  ultimately show ?thesis
    by (intro exI [of _ ?ps] exI [of _ "(pLists s)(tp := Some p)"])
      (use assms h False in \<open>auto simp: stateListAdd_def bnd_def sq_def gets_def modify_def ret_def cell_def set_cell_def
        set_nextof_def setp_def rep_def ptable_ok_def\<close>)
qed

lemma chain_tail: "chain ps h (ys @ p # zs) \<Longrightarrow> chain ps (p_next (ps ! p)) zs"
  by (induction ys arbitrary: h) auto

lemma chain_length: "chain ps h xs \<Longrightarrow> h = None \<longleftrightarrow> xs = []"
  by (cases xs) auto

lemma chain_cut:
  "chain ps h (ys @ p # zs) \<Longrightarrow> ys \<noteq> [] \<Longrightarrow> distinct (ys @ p # zs) \<Longrightarrow> set (ys @ p # zs) \<subseteq> {..<length ps} \<Longrightarrow>
     chain (upd_nth p (\<lambda>x. x\<lparr>p_next := None\<rparr>) (upd_nth (last ys) (\<lambda>x. x\<lparr>p_next := p_next (ps ! p)\<rparr>) ps)) h (ys @ zs)"
proof (induction ys arbitrary: h)
  case (Cons y ys)
  let ?ps = "upd_nth p (\<lambda>x. x\<lparr>p_next := None\<rparr>) (upd_nth (last (y # ys)) (\<lambda>x. x\<lparr>p_next := p_next (ps ! p)\<rparr>) ps)"
  have n: "p_next (?ps ! y) = (if ys = [] then p_next (ps ! p) else p_next (ps ! y))"
    using Cons.prems by auto
  show ?case
  proof (cases "ys = []")
    case True
    have "chain ps (p_next (ps ! p)) zs" using chain_tail [OF Cons.prems(1)] .
    then have "chain ?ps (p_next (ps ! p)) zs"
      using Cons.prems True by (elim chain_frame) auto
    then show ?thesis using True Cons.prems n by auto
  next
    case False
    then show ?thesis using Cons n by auto
  qed
qed simp

lemma sl_search_found:
  "chain (ptable s) h (ys @ p # zs) \<Longrightarrow> p \<notin> set ys \<Longrightarrow> length ys < n \<Longrightarrow>
     sl_search n h prev p s = Done (Some (if ys = [] then prev else Some (last ys))) s"
proof (induction ys arbitrary: h n prev)
  case Nil
  then show ?case by (cases n) (auto simp: ret_def)
next
  case (Cons y ys)
  then show ?case by (cases n) (auto simp: bnd_def nextof_def getp_def gets_def ret_def)
qed

lemma sl_search_missing:
  "chain (ptable s) h xs \<Longrightarrow> p \<notin> set xs \<Longrightarrow> length xs \<le> n \<Longrightarrow> sl_search n h prev p s = Done None s"
proof (induction xs arbitrary: h n prev)
  case Nil
  then show ?case by (simp add: ret_def)
next
  case (Cons y xs)
  then show ?case by (cases n) (auto simp: bnd_def nextof_def getp_def gets_def ret_def)
qed

lemma rep_length: "rep s hp tp xs \<Longrightarrow> length xs \<le> NPROC"
  using card_mono [of "{..<NPROC}" "set xs"] distinct_card [of xs] by (auto simp: rep_def)

lemma remove1_split: "p \<notin> set ys \<Longrightarrow> remove1 p (ys @ p # zs) = ys @ zs"
  by (simp add: remove1_append)

lemma stateListRemove_rep:
  assumes "ptable_ok s" and "rep s hp tp xs" and "p \<in> set xs" and "hp \<noteq> tp"
  shows "\<exists>ps pl. stateListRemove hp tp p s = Done 0 (s\<lparr>ptable := ps, pLists := pl\<rparr>) \<and>
     rep (s\<lparr>ptable := ps, pLists := pl\<rparr>) hp tp (remove1 p xs) \<and>
     relinked (set xs) (ptable s) ps \<and> (\<forall>c. c \<notin> {hp, tp} \<longrightarrow> pl c = pLists s c)"
proof -
  obtain ys zs where xs: "xs = ys @ p # zs" "p \<notin> set ys" using split_list_first [OF assms(3)] by blast
  have r: "chain (ptable s) (pLists s hp) (ys @ p # zs)" "pLists s tp = Some (last (p # zs))"
      "distinct (ys @ p # zs)" "set (ys @ p # zs) \<subseteq> {..<NPROC}"
    using assms(2) by (simp_all add: rep_def xs)
  have rem: "remove1 p xs = ys @ zs" using xs by (simp add: remove1_split)
  show ?thesis
  proof (cases "ys = []")
    case True
    show ?thesis unfolding rem
      by (rule exI [of _ "ptable s"], rule exI [of _ "(pLists s)(hp := p_next (ptable s ! p))"])
        (use True r assms(4) in \<open>auto simp: stateListRemove_def rep_def bnd_def sq_def gets_def modify_def ret_def cell_def
          set_cell_def nextof_def getp_def\<close>)
  next
    case False
    let ?q = "last ys" and ?t = "if zs = [] then last ys else last zs"
    let ?ps = "upd_nth p (\<lambda>x. x\<lparr>p_next := None\<rparr>) (upd_nth (last ys) (\<lambda>x. x\<lparr>p_next := p_next (ptable s ! p)\<rparr>) (ptable s))"
    have h: "pLists s hp = Some (hd ys)" "hd ys \<noteq> p" using r(1) False xs(2) by (cases ys; auto)+
    have len: "length ys < Suc NPROC" using rep_length [OF assms(2)] by (simp add: xs)
    have found: "sl_search (Suc NPROC) (Some (hd ys)) None p s = Done (Some (Some ?q)) s"
      using sl_search_found [of s "pLists s hp" ys p zs "Suc NPROC" None] r(1) xs(2) len False h(1) by simp
    have nx: "zs = [] \<Longrightarrow> p_next (ptable s ! p) = None" using chain_tail [OF r(1)] by simp
    have same: "zs \<noteq> [] \<Longrightarrow> (pLists s)(tp := Some ?t) = pLists s" using r(2) by (auto simp: fun_upd_idem)
    have tl: "(p = last (p # zs)) = (zs = [])" using r(3) by auto
    have "chain ?ps (pLists s hp) (ys @ zs)"
      using r False assms(1) by (intro chain_cut) (auto simp: ptable_ok_def)
    then have rp: "rep (s\<lparr>ptable := ?ps, pLists := (pLists s)(tp := Some ?t)\<rparr>) hp tp (ys @ zs)"
      using r assms(4) by (auto simp: rep_def)
    have rl: "relinked (set xs) (ptable s) ?ps"
      using False xs by (intro relinked_trans [OF relinked_upd relinked_upd]) auto
    have "stateListRemove hp tp p s = Done 0 (s\<lparr>ptable := ?ps, pLists := (pLists s)(tp := Some ?t)\<rparr>)"
      unfolding stateListRemove_def
      using h r(2) found tl nx same
      by (cases "zs = []") (simp_all add: bnd_def sq_def gets_def modify_def ret_def cell_def set_cell_def nextof_def getp_def set_nextof_def setp_def
          del: sl_search.simps)
    then show ?thesis unfolding rem using rp rl by (intro exI [of _ ?ps] exI [of _ "(pLists s)(tp := Some ?t)"]) auto
  qed
qed

lemma stateListRemove_missing:
  assumes "rep s hp tp xs" and "p \<notin> set xs"
  shows "stateListRemove hp tp p s = Done (- 1) s"
proof (cases "xs = []")
  case True
  then show ?thesis using assms(1) by (simp add: rep_def stateListRemove_def bnd_def gets_def ret_def cell_def)
next
  case False
  then have h: "pLists s hp = Some (hd xs)" "pLists s tp = Some (last xs)" "hd xs \<noteq> p"
    using assms by (cases xs; auto simp: rep_def)+
  have "sl_search (Suc NPROC) (Some (hd xs)) None p s = Done None s"
    using sl_search_missing [of s "pLists s hp" xs p "Suc NPROC" None] assms rep_length [OF assms(1)] h(1)
    by (simp add: rep_def)
  then show ?thesis
    using h by (simp add: stateListRemove_def bnd_def gets_def ret_def cell_def del: sl_search.simps)
qed

section \<open>The twelve lists\<close>

datatype plist = Ready nat | Free | Sleep | Zombie | Running | Embryo

fun head_of :: "plist \<Rightarrow> nat" where
  "head_of (Ready i) = ready_hd i"
| "head_of Free = free_hd"
| "head_of Sleep = sleep_hd"
| "head_of Zombie = zombie_hd"
| "head_of Running = running_hd"
| "head_of Embryo = embryo_hd"

fun tail_of :: "plist \<Rightarrow> nat" where
  "tail_of (Ready i) = ready_tl i"
| "tail_of Free = free_tl"
| "tail_of Sleep = sleep_tl"
| "tail_of Zombie = zombie_tl"
| "tail_of Running = running_tl"
| "tail_of Embryo = embryo_tl"

fun is_list :: "plist \<Rightarrow> bool" where
  "is_list (Ready i) = (i \<le> MAXPRIO)"
| "is_list _ = True"

definition lists_are :: "kstate \<Rightarrow> (plist \<Rightarrow> nat list) \<Rightarrow> bool" where
  "lists_are s L \<longleftrightarrow> ptable_ok s \<and> (\<forall>l. is_list l \<longrightarrow> rep s (head_of l) (tail_of l) (L l)) \<and>
     (\<forall>l m. is_list l \<longrightarrow> is_list m \<longrightarrow> l \<noteq> m \<longrightarrow> set (L l) \<inter> set (L m) = {})"

lemma cells_distinct:
  "is_list l \<Longrightarrow> head_of l \<noteq> tail_of l"
  "is_list l \<Longrightarrow> is_list m \<Longrightarrow> l \<noteq> m \<Longrightarrow>
     head_of l \<noteq> head_of m \<and> head_of l \<noteq> tail_of m \<and> tail_of l \<noteq> head_of m \<and> tail_of l \<noteq> tail_of m"
  by (cases l; simp add: ready_hd_def ready_tl_def) (cases l; cases m; auto simp: ready_hd_def ready_tl_def)

lemma rep_frame:
  assumes "rep s hp tp xs" and "relinked A (ptable s) ps" and "A \<inter> set xs = {}" and "pl hp = pLists s hp"
    and "pl tp = pLists s tp" and "ptable_ok s"
  shows "rep (s\<lparr>ptable := ps, pLists := pl\<rparr>) hp tp xs"
proof -
  have "p_next (ps ! x) = p_next (ptable s ! x)" if "x \<in> set xs" for x
  proof -
    have "x < length (ptable s)" "x \<notin> A" using that assms(1,3,6) by (auto simp: rep_def ptable_ok_def)
    then show ?thesis using assms(2) by (simp add: relinked_def)
  qed
  then have "chain ps (pLists s hp) xs"
    using assms(1) chain_frame [of "ptable s" "pLists s hp" xs ps] by (simp add: rep_def)
  then show ?thesis using assms by (simp add: rep_def)
qed

text \<open>An operation on one list leaves the other lists as they are.\<close>

lemma lists_are_update:
  assumes L: "lists_are s L" and k: "is_list k" and r: "relinked A (ptable s) ps"
    and A: "\<And>l. is_list l \<Longrightarrow> l \<noteq> k \<Longrightarrow> A \<inter> set (L l) = {}" and pl: "\<forall>c. c \<notin> {head_of k, tail_of k} \<longrightarrow> pl c = pLists s c"
    and new: "rep (s\<lparr>ptable := ps, pLists := pl\<rparr>) (head_of k) (tail_of k) xs"
    and xs: "set xs \<subseteq> A"
  shows "lists_are (s\<lparr>ptable := ps, pLists := pl\<rparr>) (L(k := xs))"
proof -
  have ok: "ptable_ok s" using L by (simp add: lists_are_def)
  have "rep (s\<lparr>ptable := ps, pLists := pl\<rparr>) (head_of l) (tail_of l) ((L(k := xs)) l)" if "is_list l" for l
  proof (cases "l = k")
    case False
    then show ?thesis
      using rep_frame [of s "head_of l" "tail_of l" "L l" A ps pl] L r A [OF that False] pl ok that cells_distinct(2) [OF that k False]
      by (auto simp: lists_are_def)
  qed (use new in simp)
  moreover have "set ((L(k := xs)) l) \<inter> set ((L(k := xs)) m) = {}" if "is_list l" "is_list m" "l \<noteq> m" for l m
  proof -
    have dis: "set (L l) \<inter> set (L m) = {}" using L that unfolding lists_are_def by blast
    consider "l = k" "m \<noteq> k" | "l \<noteq> k" "m = k" | "l \<noteq> k" "m \<noteq> k" using \<open>l \<noteq> m\<close> by blast
    then show ?thesis
    proof cases
      case 1
      then show ?thesis using A [OF that(2)] xs by auto
    next
      case 2
      then show ?thesis using A [OF that(1)] xs by auto
    qed (use dis in simp)
  qed
  ultimately show ?thesis
    using ok relinked_length [OF r] by (simp add: lists_are_def ptable_ok_def)
qed

lemma add_lists:
  assumes L: "lists_are s L" and k: "is_list k" and p: "p < NPROC" and new: "\<And>l. is_list l \<Longrightarrow> p \<notin> set (L l)"
  shows "\<exists>ps pl. stateListAdd (head_of k) (tail_of k) p s = Done 0 (s\<lparr>ptable := ps, pLists := pl\<rparr>) \<and>
    lists_are (s\<lparr>ptable := ps, pLists := pl\<rparr>) (L(k := L k @ [p])) \<and> map unlinked ps = map unlinked (ptable s) \<and>
    p_next (ps ! p) = None"
proof -
  have "ptable_ok s" "rep s (head_of k) (tail_of k) (L k)" using L k by (simp_all add: lists_are_def)
  then obtain ps pl where t: "stateListAdd (head_of k) (tail_of k) p s = Done 0 (s\<lparr>ptable := ps, pLists := pl\<rparr>)"
      "rep (s\<lparr>ptable := ps, pLists := pl\<rparr>) (head_of k) (tail_of k) (L k @ [p])"
      "relinked (insert p (set (L k))) (ptable s) ps" "\<forall>c. c \<notin> {head_of k, tail_of k} \<longrightarrow> pl c = pLists s c"
      "p_next (ps ! p) = None"
    using stateListAdd_rep [of s "head_of k" "tail_of k" "L k" p] new [OF k] p cells_distinct(1) [OF k] by blast
  have "lists_are (s\<lparr>ptable := ps, pLists := pl\<rparr>) (L(k := L k @ [p]))"
  proof (rule lists_are_update [OF L k t(3) _ t(4) t(2)])
    show "insert p (set (L k)) \<inter> set (L l) = {}" if "is_list l" "l \<noteq> k" for l
      using L k that new [OF that(1)] unfolding lists_are_def by blast
  qed simp
  then show ?thesis using t by (auto simp: relinked_def)
qed

lemma remove_lists:
  assumes L: "lists_are s L" and k: "is_list k" and p: "p \<in> set (L k)"
  shows "\<exists>ps pl. stateListRemove (head_of k) (tail_of k) p s = Done 0 (s\<lparr>ptable := ps, pLists := pl\<rparr>) \<and>
    lists_are (s\<lparr>ptable := ps, pLists := pl\<rparr>) (L(k := remove1 p (L k))) \<and> map unlinked ps = map unlinked (ptable s)"
proof -
  have r: "ptable_ok s" "rep s (head_of k) (tail_of k) (L k)" using L k by (simp_all add: lists_are_def)
  then obtain ps pl where t: "stateListRemove (head_of k) (tail_of k) p s = Done 0 (s\<lparr>ptable := ps, pLists := pl\<rparr>)"
      "rep (s\<lparr>ptable := ps, pLists := pl\<rparr>) (head_of k) (tail_of k) (remove1 p (L k))"
      "relinked (set (L k)) (ptable s) ps" "\<forall>c. c \<notin> {head_of k, tail_of k} \<longrightarrow> pl c = pLists s c"
    using stateListRemove_rep [of s "head_of k" "tail_of k" "L k" p] p cells_distinct(1) [OF k] by blast
  have "lists_are (s\<lparr>ptable := ps, pLists := pl\<rparr>) (L(k := remove1 p (L k)))"
  proof (rule lists_are_update [OF L k t(3) _ t(4) t(2) set_remove1_subset])
    show "set (L k) \<inter> set (L l) = {}" if "is_list l" "l \<noteq> k" for l
      using L k that unfolding lists_are_def by blast
  qed
  then show ?thesis using t by (auto simp: relinked_def)
qed

lemma move_lists:
  assumes L: "lists_are s L" and a: "is_list a" and b: "is_list b" and p: "p \<in> set (L a)"
  shows "\<exists>ps pl. move (head_of a) (tail_of a) e1 (head_of b) (tail_of b) e2 p s = Done () (s\<lparr>ptable := ps, pLists := pl\<rparr>) \<and>
    lists_are (s\<lparr>ptable := ps, pLists := pl\<rparr>)
      (let M = L(a := remove1 p (L a)) in M(b := M b @ [p])) \<and>
    map unlinked ps = map unlinked (ptable s) \<and> p_next (ps ! p) = None"
proof -
  let ?M = "L(a := remove1 p (L a))"
  have rp: "distinct (L a)" "p < NPROC" using L a p by (auto simp: lists_are_def rep_def)
  obtain ps pl where r: "stateListRemove (head_of a) (tail_of a) p s = Done 0 (s\<lparr>ptable := ps, pLists := pl\<rparr>)"
      "lists_are (s\<lparr>ptable := ps, pLists := pl\<rparr>) ?M" "map unlinked ps = map unlinked (ptable s)"
    using remove_lists [OF L a p] by blast
  have "p \<notin> set (?M l)" if "is_list l" for l
    using L a p that rp(1) unfolding lists_are_def by (cases "l = a") auto
  then obtain ps' pl' where "stateListAdd (head_of b) (tail_of b) p (s\<lparr>ptable := ps, pLists := pl\<rparr>) =
        Done 0 (s\<lparr>ptable := ps', pLists := pl'\<rparr>)"
      "lists_are (s\<lparr>ptable := ps', pLists := pl'\<rparr>) (?M(b := ?M b @ [p]))"
      "map unlinked ps' = map unlinked ps" "p_next (ps' ! p) = None"
    using add_lists [OF r(2) b rp(2)] by auto
  then show ?thesis using r by (intro exI [of _ ps'] exI [of _ pl']) (simp add: move_def bnd_def ret_def Let_def)
qed

section \<open>Every process in the list of its state\<close>

fun list_of :: "procstate \<Rightarrow> 32 word \<Rightarrow> plist" where
  "list_of UNUSED pr = Free"
| "list_of EMBRYO pr = Embryo"
| "list_of SLEEPING pr = Sleep"
| "list_of RUNNABLE pr = Ready (unat pr)"
| "list_of RUNNING pr = Running"
| "list_of ZOMBIE pr = Zombie"

definition home :: "proc \<Rightarrow> plist" where
  "home p = list_of (p_state p) (p_priority p)"

definition prio_ok :: "proc \<Rightarrow> bool" where
  "prio_ok p \<longleftrightarrow> unat (p_priority p) \<le> MAXPRIO"

definition filed_but :: "nat set \<Rightarrow> kstate \<Rightarrow> (plist \<Rightarrow> nat list) \<Rightarrow> bool" where
  "filed_but A s L \<longleftrightarrow> lists_are s L \<and>
     (\<forall>x < NPROC. prio_ok (ptable s ! x) \<and> (x \<notin> A \<longrightarrow> x \<in> set (L (home (ptable s ! x)))))"

abbreviation filed :: "kstate \<Rightarrow> (plist \<Rightarrow> nat list) \<Rightarrow> bool" where
  "filed \<equiv> filed_but {}"

definition mlfq_ok :: "kstate \<Rightarrow> bool" where
  "mlfq_ok s \<longleftrightarrow> (\<exists>L. filed s L)"

lemma is_list_home: "prio_ok p \<Longrightarrow> is_list (home p)"
  by (cases "p_state p") (auto simp: home_def prio_ok_def)

lemma unlinked_nth: "map unlinked ps' = map unlinked ps \<Longrightarrow> x < length ps \<Longrightarrow> unlinked (ps' ! x) = unlinked (ps ! x)"
  by (metis length_map nth_map)

lemma unlinked_fields [simp]:
  "p_state (unlinked p) = p_state p" "p_priority (unlinked p) = p_priority p" "p_chan (unlinked p) = p_chan p"
  "p_pid (unlinked p) = p_pid p" "p_killed (unlinked p) = p_killed p" "p_budget (unlinked p) = p_budget p"
  "p_parent (unlinked p) = p_parent p" "p_cpu_ticks_in (unlinked p) = p_cpu_ticks_in p"
  by (simp_all add: unlinked_def)

lemma home_unlinked: "home (unlinked p) = home p" "prio_ok (unlinked p) = prio_ok p"
  by (simp_all add: home_def prio_ok_def)

lemma home_same_unlinked: "unlinked p = unlinked q \<Longrightarrow> home p = home q \<and> prio_ok p = prio_ok q"
  by (metis home_unlinked)

lemma rep_cong:
  assumes "rep s hp tp xs" and "pLists t = pLists s" and "\<And>x. x < NPROC \<Longrightarrow> p_next (ptable t ! x) = p_next (ptable s ! x)"
  shows "rep t hp tp xs"
  using assms chain_frame [of "ptable s" "pLists s hp" xs "ptable t"] by (auto simp: rep_def)

lemma lists_are_cong:
  "length (ptable t) = length (ptable s) \<Longrightarrow> pLists t = pLists s \<Longrightarrow>
     (\<And>x. x < NPROC \<Longrightarrow> p_next (ptable t ! x) = p_next (ptable s ! x)) \<Longrightarrow> lists_are s L \<Longrightarrow> lists_are t L"
  unfolding lists_are_def ptable_ok_def using rep_cong [of s _ _ _ t] by simp

lemma filed_cong:
  "ptable t = ptable s \<Longrightarrow> pLists t = pLists s \<Longrightarrow> filed_but A t L = filed_but A s L"
  using lists_are_cong [of t s L] lists_are_cong [of s t L] by (auto simp: filed_but_def)

lemma mlfq_ok_cong: "ptable t = ptable s \<Longrightarrow> pLists t = pLists s \<Longrightarrow> mlfq_ok t = mlfq_ok s"
  using filed_cong [of t s] by (simp add: mlfq_ok_def)

lemma filed_mono: "filed_but A s L \<Longrightarrow> A \<subseteq> B \<Longrightarrow> filed_but B s L"
  unfolding filed_but_def by blast

text \<open>A change of the fields of \<open>p\<close> other than its link.\<close>

lemma filed_setp:
  assumes "filed_but A s L" and "\<And>x. p_next (f x) = p_next x" and "prio_ok (f (ptable s ! p))"
  shows "filed_but (insert p A) (s\<lparr>ptable := upd_nth p f (ptable s)\<rparr>) L"
proof -
  have len: "length (ptable s) = NPROC" using assms(1) by (simp add: filed_but_def lists_are_def ptable_ok_def)
  have "lists_are (s\<lparr>ptable := upd_nth p f (ptable s)\<rparr>) L"
    by (rule lists_are_cong [of _ s]) (use assms len in \<open>simp_all add: filed_but_def\<close>)
  moreover have "prio_ok (upd_nth p f (ptable s) ! x) \<and> (x \<notin> insert p A \<longrightarrow> x \<in> set (L (home (upd_nth p f (ptable s) ! x))))"
    if "x < NPROC" for x using assms len that by (simp add: filed_but_def)
  ultimately show ?thesis by (simp add: filed_but_def)
qed

lemma filed_setp_same:
  assumes "filed_but A s L" and "\<And>x. p_next (f x) = p_next x" and "prio_ok (f (ptable s ! p))"
    and "home (f (ptable s ! p)) = home (ptable s ! p)"
  shows "filed_but A (s\<lparr>ptable := upd_nth p f (ptable s)\<rparr>) L"
proof -
  have len: "length (ptable s) = NPROC" using assms(1) by (simp add: filed_but_def lists_are_def ptable_ok_def)
  have "filed_but (insert p A) (s\<lparr>ptable := upd_nth p f (ptable s)\<rparr>) L" using filed_setp assms by blast
  then show ?thesis using assms(1,4) len by (auto simp: filed_but_def)
qed

lemma filed_relinked:
  assumes "filed_but A s L" and "lists_are (s\<lparr>ptable := ps, pLists := pl\<rparr>) M" and "map unlinked ps = map unlinked (ptable s)"
    and "\<And>x l. x < NPROC \<Longrightarrow> x \<notin> A \<Longrightarrow> is_list l \<Longrightarrow> x \<in> set (L l) \<Longrightarrow> x \<in> set (M l)"
    and "\<And>x. x < NPROC \<Longrightarrow> x \<in> A \<Longrightarrow> x \<notin> B \<Longrightarrow> x \<in> set (M (home (ptable s ! x)))" and "B \<subseteq> A"
  shows "filed_but B (s\<lparr>ptable := ps, pLists := pl\<rparr>) M"
proof -
  have len: "length (ptable s) = NPROC" using assms(1) by (simp add: filed_but_def lists_are_def ptable_ok_def)
  have h: "home (ps ! x) = home (ptable s ! x) \<and> prio_ok (ps ! x) = prio_ok (ptable s ! x)" if "x < NPROC" for x
    using home_same_unlinked unlinked_nth [OF assms(3)] that len by metis
  then show ?thesis
    using assms is_list_home unfolding filed_but_def by (auto, metis)
qed

lemma filed_add:
  assumes "filed_but {p} s L" and "p < NPROC" and "\<And>l. is_list l \<Longrightarrow> p \<notin> set (L l)" and "b = home (ptable s ! p)"
  shows "\<exists>ps pl. stateListAdd (head_of b) (tail_of b) p s = Done 0 (s\<lparr>ptable := ps, pLists := pl\<rparr>) \<and>
    filed (s\<lparr>ptable := ps, pLists := pl\<rparr>) (L(b := L b @ [p])) \<and> map unlinked ps = map unlinked (ptable s) \<and>
    p_next (ps ! p) = None"
proof -
  have b: "is_list b" using assms(1,2,4) is_list_home by (simp add: filed_but_def)
  obtain ps pl where t: "stateListAdd (head_of b) (tail_of b) p s = Done 0 (s\<lparr>ptable := ps, pLists := pl\<rparr>)"
      "lists_are (s\<lparr>ptable := ps, pLists := pl\<rparr>) (L(b := L b @ [p]))" "map unlinked ps = map unlinked (ptable s)"
      "p_next (ps ! p) = None"
    using add_lists [of s L b p] assms b by (auto simp: filed_but_def)
  have "filed (s\<lparr>ptable := ps, pLists := pl\<rparr>) (L(b := L b @ [p]))"
    using assms by (intro filed_relinked [OF assms(1) t(2,3)]) auto
  then show ?thesis using t by blast
qed

lemma filed_remove:
  assumes "filed_but {p} s L" and "is_list a" and "p \<in> set (L a)"
  shows "\<exists>ps pl. stateListRemove (head_of a) (tail_of a) p s = Done 0 (s\<lparr>ptable := ps, pLists := pl\<rparr>) \<and>
    filed_but {p} (s\<lparr>ptable := ps, pLists := pl\<rparr>) (L(a := remove1 p (L a))) \<and> map unlinked ps = map unlinked (ptable s) \<and>
    (\<forall>l. is_list l \<longrightarrow> p \<notin> set ((L(a := remove1 p (L a))) l))"
proof -
  have L: "lists_are s L" using assms(1) by (simp add: filed_but_def)
  then have d: "distinct (L a)" using assms(2) by (simp add: lists_are_def rep_def)
  obtain ps pl where t: "stateListRemove (head_of a) (tail_of a) p s = Done 0 (s\<lparr>ptable := ps, pLists := pl\<rparr>)"
      "lists_are (s\<lparr>ptable := ps, pLists := pl\<rparr>) (L(a := remove1 p (L a)))" "map unlinked ps = map unlinked (ptable s)"
    using remove_lists [OF L assms(2,3)] by blast
  have "filed_but {p} (s\<lparr>ptable := ps, pLists := pl\<rparr>) (L(a := remove1 p (L a)))"
    by (intro filed_relinked [OF assms(1) t(2,3)]) auto
  moreover have "p \<notin> set ((L(a := remove1 p (L a))) l)" if "is_list l" for l
    using L assms(2,3) that d unfolding lists_are_def by (cases "l = a") auto
  ultimately show ?thesis using t by blast
qed

definition moved :: "nat \<Rightarrow> plist \<Rightarrow> plist \<Rightarrow> (plist \<Rightarrow> nat list) \<Rightarrow> plist \<Rightarrow> nat list" where
  "moved p a b L = (let M = L(a := remove1 p (L a)) in M(b := M b @ [p]))"

lemma filed_move:
  assumes "filed_but {p} s L" and "is_list a" and "p \<in> set (L a)" and "b = home (ptable s ! p)"
  shows "\<exists>ps pl. move (head_of a) (tail_of a) e1 (head_of b) (tail_of b) e2 p s = Done () (s\<lparr>ptable := ps, pLists := pl\<rparr>) \<and>
    filed (s\<lparr>ptable := ps, pLists := pl\<rparr>) (moved p a b L) \<and> map unlinked ps = map unlinked (ptable s) \<and>
    p_next (ps ! p) = None"
proof -
  let ?M = "L(a := remove1 p (L a))"
  have p: "p < NPROC" using assms(1-3) by (auto simp: filed_but_def lists_are_def rep_def)
  obtain ps pl where r: "stateListRemove (head_of a) (tail_of a) p s = Done 0 (s\<lparr>ptable := ps, pLists := pl\<rparr>)"
      "filed_but {p} (s\<lparr>ptable := ps, pLists := pl\<rparr>) ?M" "map unlinked ps = map unlinked (ptable s)"
      "\<forall>l. is_list l \<longrightarrow> p \<notin> set (?M l)"
    using filed_remove [OF assms(1-3)] by blast
  have "p < length (ptable s)" using assms(1) p by (simp add: filed_but_def lists_are_def ptable_ok_def)
  then have "b = home (ps ! p)" using home_same_unlinked unlinked_nth [OF r(3)] assms(4) by metis
  then obtain ps' pl' where "stateListAdd (head_of b) (tail_of b) p (s\<lparr>ptable := ps, pLists := pl\<rparr>) =
        Done 0 (s\<lparr>ptable := ps', pLists := pl'\<rparr>)"
      "filed (s\<lparr>ptable := ps', pLists := pl'\<rparr>) (?M(b := ?M b @ [p]))"
      "map unlinked ps' = map unlinked ps" "p_next (ps' ! p) = None"
    using filed_add [OF r(2) p, of b] r(4) by auto
  then show ?thesis using r by (intro exI [of _ ps'] exI [of _ pl']) (simp add: move_def bnd_def ret_def moved_def Let_def)
qed

section \<open>The operations keep every process filed\<close>

definition inside :: "lockid \<Rightarrow> kstate \<Rightarrow> kstate \<Rightarrow> bool" where
  "inside lk s u \<longleftrightarrow> quiet s \<and> locks u = locks (acquired lk s) \<and> kcpu u = kcpu (acquired lk s)"

lemma inside_acquired [simp]: "quiet s \<Longrightarrow> inside lk s (acquired lk s)"
  by (simp add: inside_def)

lemma acquire_quiet: "quiet s \<Longrightarrow> acquire lk s = Done () (acquired lk s)"
  by (simp add: acquire_eq)

lemma release_inside: "inside lk s u \<Longrightarrow> release lk u = Done () (u\<lparr>locks := locks s, kcpu := kcpu (cs s)\<rparr>)"
  unfolding inside_def by (intro release_quiet) auto

lemma sched_inside:
  "inside PtableLock s u \<Longrightarrow> curproc u = Some i \<Longrightarrow> p_state (ptable u ! i) \<noteq> RUNNING \<Longrightarrow> sched u = Switch u"
  by (simp add: inside_def sched_def holding_def bnd_def gets_def myproc_def ret_def getp_def switch_away_def quiet_def)

lemma inside_tables [simp]: "inside lk s (u\<lparr>ptable := ps\<rparr>) = inside lk s u" "inside lk s (u\<lparr>pLists := pl\<rparr>) = inside lk s u"
  "inside lk s (u\<lparr>curproc := c\<rparr>) = inside lk s u"
  by (simp_all add: inside_def)

lemma setp_Done: "setp i f s = Done () (s\<lparr>ptable := upd_nth i f (ptable s)\<rparr>)"
  and getp_Done: "getp i s = Done (ptable s ! i) s"
  and gets_Done: "gets g s = Done (g s) s"
  and myproc_Done: "curproc s = Some i \<Longrightarrow> myproc s = Done i s"
  by (simp_all add: setp_def getp_def gets_def modify_def myproc_def bnd_def ret_def)

lemmas run_simps = bnd_def sq_def setp_Done getp_Done gets_Done ret_def whenk_def

lemma assertState_Done: "p_state (ptable s ! p) = st \<Longrightarrow> assertState p st s = Done () s"
  by (simp add: assertState_def bnd_def getp_def gets_def ret_def)

lemma filed_acquired [simp]: "filed_but A (acquired lk s) L = filed_but A s L"
  by (rule filed_cong) simp_all

lemma filedD: "filed s L \<Longrightarrow> x < NPROC \<Longrightarrow> prio_ok (ptable s ! x) \<and> x \<in> set (L (home (ptable s ! x)))"
  "filed_but A s L \<Longrightarrow> length (ptable s) = NPROC"
  by (simp_all add: filed_but_def lists_are_def ptable_ok_def)

lemma charge_fields [simp]:
  "p_state (charge now p) = p_state p" "p_next (charge now p) = p_next p" "p_chan (charge now p) = p_chan p"
  "p_pid (charge now p) = p_pid p"
  by (simp_all add: charge_def Let_def)

lemma prio_ok_charge: "prio_ok p \<Longrightarrow> prio_ok (charge now p)"
proof -
  assume "prio_ok p"
  moreover have "unat (p_priority p + 1) = unat (p_priority p) + 1" if "p_priority p < 6"
    using that by (simp add: unat_plus_if' word_less_nat_alt)
  ultimately show ?thesis by (auto simp: prio_ok_def charge_def Let_def word_less_nat_alt)
qed

lemma prio_ok_state [simp]: "prio_ok (p\<lparr>p_state := st\<rparr>) = prio_ok p" "prio_ok (p\<lparr>p_chan := c\<rparr>) = prio_ok p"
  by (simp_all add: prio_ok_def)

text \<open>The running process gives the processor up: its state changes, it is charged, and it is filed again.\<close>

lemma give_up:
  assumes "filed u L" and "i < NPROC" and "p_state (ptable u ! i) = RUNNING"
    and f: "\<And>p. p_next (f p) = p_next p" "\<And>p. prio_ok (f p) = prio_ok p"
  shows "i \<in> set (L Running)"
    "filed_but {i} (u\<lparr>ptable := upd_nth i (charge now) (upd_nth i f (ptable u))\<rparr>) L"
proof -
  show "i \<in> set (L Running)" using filedD(1) [OF assms(1,2)] assms(3) by (simp add: home_def)
  have len: "length (ptable u) = NPROC" using filedD(2) [OF assms(1)] .
  have ok: "prio_ok (f (ptable u ! i))" using filedD(1) [OF assms(1,2)] f(2) by simp
  have 1: "filed_but {i} (u\<lparr>ptable := upd_nth i f (ptable u)\<rparr>) L"
    using filed_setp [OF assms(1) f(1) ok] by simp
  have "filed_but {i} (u\<lparr>ptable := upd_nth i f (ptable u)\<rparr>
     \<lparr>ptable := upd_nth i (charge now) (ptable (u\<lparr>ptable := upd_nth i f (ptable u)\<rparr>))\<rparr>) L"
    using filed_setp [OF 1, of "charge now" i] ok len assms(2) prio_ok_charge by simp
  then show "filed_but {i} (u\<lparr>ptable := upd_nth i (charge now) (upd_nth i f (ptable u))\<rparr>) L" by simp
qed

lemma yield_filed:
  assumes "quiet s" and "filed s L" and "curproc s = Some i" and "i < NPROC" and "p_state (ptable s ! i) = RUNNING"
  defines "q \<equiv> unat (p_priority (charge (ticks s) (ptable s ! i)))"
  shows "\<exists>t. yield_p3 s = Switch t \<and> filed t (moved i Running (Ready q) L)"
proof -
  let ?u = "acquired PtableLock s"
  let ?v = "?u\<lparr>ptable := upd_nth i (charge (ticks s)) (upd_nth i (\<lambda>p. p\<lparr>p_state := RUNNABLE\<rparr>) (ptable s))\<rparr>"
  have u: "filed ?u L" "p_state (ptable ?u ! i) = RUNNING" "inside PtableLock s ?u" using assms by simp_all
  have g: "i \<in> set (L Running)" "filed_but {i} ?v L"
    using give_up(1) [OF u(1) assms(4) u(2), of "\<lambda>p. p\<lparr>p_state := RUNNABLE\<rparr>"]
      give_up(2) [OF u(1) assms(4) u(2), of "\<lambda>p. p\<lparr>p_state := RUNNABLE\<rparr>" "ticks s"] by simp_all
  have len: "length (ptable s) = NPROC" using filedD(2) [OF assms(2)] .
  have vi: "ptable ?v ! i = charge (ticks s) ((ptable s ! i)\<lparr>p_state := RUNNABLE\<rparr>)" using len assms(4) by simp
  have q: "p_priority (ptable ?v ! i) = p_priority (charge (ticks s) (ptable s ! i))"
    unfolding vi by (simp add: charge_def Let_def)
  have h: "home (ptable ?v ! i) = Ready q" using q vi by (simp add: home_def q_def)
  obtain ps pl where r: "stateListRemove running_hd running_tl i ?v = Done 0 (?v\<lparr>ptable := ps, pLists := pl\<rparr>)"
      "filed_but {i} (?v\<lparr>ptable := ps, pLists := pl\<rparr>) (L(Running := remove1 i (L Running)))"
      "map unlinked ps = map unlinked (ptable ?v)"
      "\<forall>l. is_list l \<longrightarrow> i \<notin> set ((L(Running := remove1 i (L Running))) l)"
    using filed_remove [OF g(2), of Running] g(1) by auto
  have psi: "unlinked (ps ! i) = unlinked (ptable ?v ! i)" using unlinked_nth [OF r(3)] len assms(4) by simp
  have "p_priority (ps ! i) = p_priority (ptable ?v ! i)" using arg_cong [OF psi, of p_priority] by simp
  then have hp: "home (ps ! i) = Ready q" "p_priority (ps ! i) = p_priority (charge (ticks s) (ptable s ! i))"
    using home_same_unlinked [OF psi] h q by simp_all
  obtain ps' pl' where a: "stateListAdd (ready_hd q) (ready_tl q) i (?v\<lparr>ptable := ps, pLists := pl\<rparr>) =
        Done 0 (?v\<lparr>ptable := ps', pLists := pl'\<rparr>)"
      "filed (?v\<lparr>ptable := ps', pLists := pl'\<rparr>) (moved i Running (Ready q) L)" "map unlinked ps' = map unlinked ps"
    using filed_add [OF r(2) assms(4), of "Ready q"] r(4) hp(1) by (auto simp: moved_def Let_def)
  have "length ps = NPROC" using arg_cong [OF r(3), of length] len by simp
  then have st: "p_state (ps' ! i) = RUNNABLE"
    using arg_cong [OF unlinked_nth [OF a(3), of i], of p_state] arg_cong [OF psi, of p_state] vi assms(4) by simp
  let ?t = "?v\<lparr>ptable := ps', pLists := pl'\<rparr>"
  have "sched ?t = Switch ?t" using sched_inside [of s ?t i] u(3) assms(3) st by simp
  moreover have "assertState i RUNNABLE ?t = Done () ?t" using st by (simp add: assertState_Done)
  ultimately have "yield_p3 s = Switch ?t"
    unfolding yield_p3_def using r(1) a(1) hp(2)
    by (simp add: run_simps acquire_quiet [OF assms(1)] myproc_Done assms(3) q_def [symmetric])
  then show ?thesis using a(2) by blast
qed

text \<open>\<open>sleep\<close> gives its lock up for the lock of the process table.\<close>

definition sleeper :: "lockid option \<Rightarrow> kstate \<Rightarrow> kstate \<Rightarrow> bool" where
  "sleeper lk s u \<longleftrightarrow> (case lk of None \<Rightarrow> quiet s \<and> u = s | Some l \<Rightarrow> inside l s u)"

lemma sleep_swaps_locks:
  assumes "sleeper lk s u"
  shows "\<exists>w. whenk (lk \<noteq> Some PtableLock)
      (sq (acquire PtableLock) (case lk of None \<Rightarrow> ret () | Some l \<Rightarrow> release l)) u = Done () w \<and>
    inside PtableLock s w \<and> ptable w = ptable u \<and> pLists w = pLists u \<and> curproc w = curproc u \<and> ticks w = ticks u"
proof (cases lk)
  case None
  then have "quiet u" "u = s" using assms by (auto simp: sleeper_def)
  then show ?thesis using None by (auto simp: run_simps acquire_quiet)
next
  case (Some l)
  then have i: "inside l s u" using assms by (simp add: sleeper_def)
  show ?thesis
  proof (cases "l = PtableLock")
    case True
    then show ?thesis using Some i by (auto simp: run_simps)
  next
    case False
    have q: "quiet s" "locks u = locks (acquired l s)" "kcpu u = kcpu (acquired l s)" using i by (auto simp: inside_def)
    have a: "acquire PtableLock u = Done () (acquired PtableLock u)"
      using q False by (simp add: acquire_eq quiet_def free_lock_def)
    have r: "release l (acquired PtableLock u) = Done () (released l (acquired PtableLock u))"
      using q False by (simp add: release_eq quiet_def)
    have "inside PtableLock s (released l (acquired PtableLock u))"
      using q False by (auto simp: inside_def quiet_def free_lock_def pushed_def popped_def)
    then show ?thesis using Some False a r by (auto simp: run_simps)
  qed
qed

lemma sleep_filed:
  assumes "sleeper lk s u" and "filed u L" and "curproc u = Some i" and "i < NPROC" and "p_state (ptable u ! i) = RUNNING"
  shows "\<exists>t. sleep_p3 ch lk u = Switch t \<and> filed t (moved i Running Sleep L) \<and> p_chan (ptable t ! i) = Some ch"
proof -
  obtain w where w: "whenk (lk \<noteq> Some PtableLock)
      (sq (acquire PtableLock) (case lk of None \<Rightarrow> ret () | Some l \<Rightarrow> release l)) u = Done () w"
    "inside PtableLock s w" "ptable w = ptable u" "pLists w = pLists u" "curproc w = curproc u" "ticks w = ticks u"
    using sleep_swaps_locks [OF assms(1)] by blast
  let ?f = "\<lambda>p. p\<lparr>p_chan := Some ch, p_state := SLEEPING\<rparr>"
  let ?v = "w\<lparr>ptable := upd_nth i (charge (ticks u)) (upd_nth i ?f (ptable w))\<rparr>"
  have fw: "filed w L" "p_state (ptable w ! i) = RUNNING" using filed_cong [OF w(3,4)] assms w(3) by simp_all
  have g: "i \<in> set (L Running)" "filed_but {i} ?v L"
    using give_up(1) [OF fw(1) assms(4) fw(2), of ?f] give_up(2) [OF fw(1) assms(4) fw(2), of ?f "ticks u"] by simp_all
  have len: "length (ptable w) = NPROC" using filedD(2) [OF fw(1)] .
  have vi: "ptable ?v ! i = charge (ticks u) (?f (ptable w ! i))" using len assms(4) by simp
  have h: "home (ptable ?v ! i) = Sleep" unfolding vi by (simp add: home_def)
  obtain ps pl where r: "move running_hd running_tl ''error removing from running list.'' sleep_hd sleep_tl
        ''error adding to sleep list.'' i ?v = Done () (?v\<lparr>ptable := ps, pLists := pl\<rparr>)"
      "filed (?v\<lparr>ptable := ps, pLists := pl\<rparr>) (moved i Running Sleep L)" "map unlinked ps = map unlinked (ptable ?v)"
    using filed_move [OF g(2), of Running Sleep "''error removing from running list.''" "''error adding to sleep list.''"] g(1) h
    by auto
  let ?t = "?v\<lparr>ptable := ps, pLists := pl\<rparr>"
  have psi: "unlinked (ps ! i) = unlinked (charge (ticks u) (?f (ptable w ! i)))"
    using unlinked_nth [OF r(3), of i] vi len assms(4) by simp
  have st: "p_state (ps ! i) = SLEEPING" "p_chan (ps ! i) = Some ch"
    using arg_cong [OF psi, of p_state] arg_cong [OF psi, of p_chan] by simp_all
  have two: "upd_nth i (\<lambda>p. p\<lparr>p_state := SLEEPING\<rparr>) (upd_nth i (\<lambda>p. p\<lparr>p_chan := Some ch\<rparr>) (ptable w)) = upd_nth i ?f (ptable w)"
    by (simp add: upd_nth_def)
  have sw: "sched ?t = Switch ?t" using sched_inside [of s ?t i] w(2,5) assms(3) st by simp
  have "assertState i SLEEPING ?t = Done () ?t" using st by (simp add: assertState_Done)
  then have "sleep_p3 ch lk u = Switch ?t"
    unfolding sleep_p3_def using w(1) r(1) sw two w(6) by (simp add: run_simps assms(3))
  then show ?thesis using r(2) st by auto
qed

section \<open>Walks over a list\<close>

fun first_of :: "nat list \<Rightarrow> nat option" where
  "first_of [] = None"
| "first_of (x # xs) = Some x"

lemma chain_first: "chain ps h xs \<Longrightarrow> h = first_of xs"
  by (cases xs) auto

lemma walk_skip:
  "chain (ptable s) h (ys @ zs) \<Longrightarrow> (\<And>y. y \<in> set ys \<Longrightarrow> body y s = Done () s) \<Longrightarrow>
     walk (length ys + n) h body s = walk n (first_of zs) body s"
proof (induction ys arbitrary: h)
  case Nil
  then show ?case using chain_first by force
next
  case (Cons y ys)
  then show ?case by (simp add: run_simps nextof_def)
qed

lemma nextof_Done: "nextof p s = Done (p_next (ptable s ! p)) s"
  by (simp add: nextof_def run_simps)

lemma filed_rep: "filed_but A s L \<Longrightarrow> is_list l \<Longrightarrow> rep s (head_of l) (tail_of l) (L l)"
  by (simp add: filed_but_def lists_are_def)

lemma walk_list_skip:
  assumes "filed_but A s L" and "is_list l" and "L l = ys @ zs" and "\<And>y. y \<in> set ys \<Longrightarrow> body y s = Done () s"
  shows "walk_list (head_of l) body s = walk (Suc NPROC - length ys) (first_of zs) body s"
proof -
  have r: "rep s (head_of l) (tail_of l) (ys @ zs)" using filed_rep [OF assms(1,2)] assms(3) by simp
  then have "length ys \<le> NPROC" using rep_length by fastforce
  then have n: "Suc NPROC = length ys + (Suc NPROC - length ys)" by simp
  have "walk (length ys + (Suc NPROC - length ys)) (pLists s (head_of l)) body s = walk (Suc NPROC - length ys) (first_of zs) body s"
    using r assms(4) by (intro walk_skip) (auto simp: rep_def)
  then show ?thesis using n by (simp add: walk_list_def cell_def run_simps del: walk.simps)
qed

lemma walk_first:
  "0 < n \<Longrightarrow> body p s = Done () t \<Longrightarrow> p_next (ptable t ! p) = None \<Longrightarrow> walk n (Some p) body s = Done () t"
  by (cases n) (simp_all add: run_simps nextof_Done)

lemma first_in_find:
  "chain (ptable s) h xs \<Longrightarrow> length xs \<le> n \<Longrightarrow> first_in n h P s = Done (find (\<lambda>x. P (ptable s ! x)) xs) s"
proof (induction xs arbitrary: h n)
  case Nil
  then show ?case by (simp add: ret_def)
next
  case (Cons x xs)
  then show ?case by (cases n) (auto simp: run_simps)
qed

lemma search_list_find:
  assumes "filed_but A s L" and "is_list l"
  shows "search_list (head_of l) P s = Done (find (\<lambda>x. P (ptable s ! x)) (L l)) s"
proof -
  have r: "rep s (head_of l) (tail_of l) (L l)" using filed_rep [OF assms] .
  then show ?thesis
    using first_in_find [of s "pLists s (head_of l)" "L l" "Suc NPROC" P] rep_length [OF r]
    by (simp add: search_list_def cell_def run_simps rep_def del: first_in.simps)
qed

lemma search_lists_find:
  "filed_but A s L \<Longrightarrow> list_all is_list ls \<Longrightarrow>
     search_lists (map head_of ls) P s = Done (find (\<lambda>x. P (ptable s ! x)) (concat (map L ls))) s"
proof (induction ls)
  case (Cons l ls)
  have "find Q (xs @ ys) = (case find Q xs of None \<Rightarrow> find Q ys | Some x \<Rightarrow> Some x)" for Q :: "nat \<Rightarrow> bool" and xs ys
    by (induction xs) auto
  then show ?case
    using Cons search_list_find [OF Cons.prems(1), of l P] by (simp add: run_simps split: option.splits)
qed (simp add: ret_def)

section \<open>Waking, killing and priorities\<close>

lemma find_split:
  "find P xs = Some p \<Longrightarrow> \<exists>ys zs. xs = ys @ p # zs \<and> P p \<and> (\<forall>y \<in> set ys. \<not> P y)"
proof (induction xs)
  case (Cons x xs)
  show ?case
  proof (cases "P x")
    case True
    then show ?thesis using Cons.prems by (intro exI [of _ "[]"] exI [of _ xs]) auto
  next
    case False
    then obtain ys zs where "xs = ys @ p # zs" "P p" "\<forall>y \<in> set ys. \<not> P y" using Cons by auto
    then show ?thesis using False by (intro exI [of _ "x # ys"] exI [of _ zs]) auto
  qed
qed simp

text \<open>A member of a list that is not running is made ready.\<close>

lemma filed_make_ready:
  assumes "filed u L" and "is_list a" and "p \<in> set (L a)"
  defines "q \<equiv> unat (p_priority (ptable u ! p))"
  shows "\<exists>ps pl. move (head_of a) (tail_of a) e1 (ready_hd q) (ready_tl q) e2 p
        (u\<lparr>ptable := upd_nth p (\<lambda>x. x\<lparr>p_state := RUNNABLE\<rparr>) (ptable u)\<rparr>) = Done () (u\<lparr>ptable := ps, pLists := pl\<rparr>) \<and>
    filed (u\<lparr>ptable := ps, pLists := pl\<rparr>) (moved p a (Ready q) L) \<and>
    map unlinked ps = map unlinked (upd_nth p (\<lambda>x. x\<lparr>p_state := RUNNABLE\<rparr>) (ptable u)) \<and>
    p_next (ps ! p) = None \<and> p_state (ps ! p) = RUNNABLE"
proof -
  let ?v = "u\<lparr>ptable := upd_nth p (\<lambda>x. x\<lparr>p_state := RUNNABLE\<rparr>) (ptable u)\<rparr>"
  have len: "length (ptable u) = NPROC" using filedD(2) [OF assms(1)] .
  have p: "p < NPROC" using filed_rep [OF assms(1,2)] assms(3) by (auto simp: rep_def)
  have v: "filed_but {p} ?v L" using filed_setp [OF assms(1), of "\<lambda>x. x\<lparr>p_state := RUNNABLE\<rparr>" p] filedD(1) [OF assms(1) p] by simp
  have vp: "ptable ?v ! p = (ptable u ! p)\<lparr>p_state := RUNNABLE\<rparr>" using len p by simp
  then have h: "Ready q = home (ptable ?v ! p)" by (simp add: home_def q_def)
  obtain ps pl where r: "move (head_of a) (tail_of a) e1 (head_of (Ready q)) (tail_of (Ready q)) e2 p ?v = Done () (?v\<lparr>ptable := ps, pLists := pl\<rparr>)"
      "filed (?v\<lparr>ptable := ps, pLists := pl\<rparr>) (moved p a (Ready q) L)" "map unlinked ps = map unlinked (ptable ?v)"
      "p_next (ps ! p) = None"
    using filed_move [OF v assms(2,3) h] by blast
  have e: "unlinked (ps ! p) = unlinked (ptable ?v ! p)" using unlinked_nth [OF r(3), of p] len p by simp
  have "p_state (ps ! p) = RUNNABLE" using vp arg_cong [OF e, of p_state] by simp
  then show ?thesis using r by auto
qed

lemma wake_p3_other: "p_chan (ptable u ! p) \<noteq> Some ch \<Longrightarrow> wake_p3 ch p u = Done () u"
  by (simp add: wake_p3_def run_simps)

definition first_sleeper :: "kstate \<Rightarrow> (plist \<Rightarrow> nat list) \<Rightarrow> chan \<Rightarrow> nat option" where
  "first_sleeper s L ch = find (\<lambda>x. p_chan (ptable s ! x) = Some ch) (L Sleep)"

lemma wakeup1_filed:
  assumes "filed u L"
  shows "case first_sleeper u L ch of
      None \<Rightarrow> wakeup1_p3 ch u = Done () u
    | Some p \<Rightarrow> \<exists>ps pl. wakeup1_p3 ch u = Done () (u\<lparr>ptable := ps, pLists := pl\<rparr>) \<and>
        filed (u\<lparr>ptable := ps, pLists := pl\<rparr>) (moved p Sleep (Ready (unat (p_priority (ptable u ! p)))) L) \<and>
        map unlinked ps = map unlinked (upd_nth p (\<lambda>x. x\<lparr>p_state := RUNNABLE\<rparr>) (ptable u))"
proof (cases "first_sleeper u L ch")
  case None
  then have "\<forall>y \<in> set (L Sleep). p_chan (ptable u ! y) \<noteq> Some ch" by (simp add: first_sleeper_def find_None_iff)
  then show ?thesis
    using None walk_list_skip [OF assms, of Sleep "L Sleep" "[]" "wake_p3 ch"] wake_p3_other
    by (simp add: wakeup1_p3_def ret_def)
next
  case (Some p)
  obtain ys zs where sp: "L Sleep = ys @ p # zs" "p_chan (ptable u ! p) = Some ch" "\<forall>y \<in> set ys. p_chan (ptable u ! y) \<noteq> Some ch"
    using find_split [OF Some [unfolded first_sleeper_def]] by auto
  let ?q = "unat (p_priority (ptable u ! p))"
  obtain ps pl where m: "move sleep_hd sleep_tl ''error removing from sleep list.'' (ready_hd ?q) (ready_tl ?q) ''error adding to ready list.'' p
        (u\<lparr>ptable := upd_nth p (\<lambda>x. x\<lparr>p_state := RUNNABLE\<rparr>) (ptable u)\<rparr>) = Done () (u\<lparr>ptable := ps, pLists := pl\<rparr>)"
    "filed (u\<lparr>ptable := ps, pLists := pl\<rparr>) (moved p Sleep (Ready ?q) L)"
    "map unlinked ps = map unlinked (upd_nth p (\<lambda>x. x\<lparr>p_state := RUNNABLE\<rparr>) (ptable u))"
    "p_next (ps ! p) = None" "p_state (ps ! p) = RUNNABLE"
    using filed_make_ready [OF assms, of Sleep p "''error removing from sleep list.''" "''error adding to ready list.''"] sp(1) by auto
  have "assertState p RUNNABLE (u\<lparr>ptable := ps, pLists := pl\<rparr>) = Done () (u\<lparr>ptable := ps, pLists := pl\<rparr>)"
    using m(5) by (simp add: assertState_Done)
  then have b: "wake_p3 ch p u = Done () (u\<lparr>ptable := ps, pLists := pl\<rparr>)"
    using sp(2) m(1) by (simp add: wake_p3_def run_simps Let_def)
  have "length ys < Suc NPROC" using rep_length [OF filed_rep [OF assms, of Sleep]] sp(1) by simp
  then have "wakeup1_p3 ch u = Done () (u\<lparr>ptable := ps, pLists := pl\<rparr>)"
    using walk_list_skip [OF assms, of Sleep ys "p # zs" "wake_p3 ch"] sp wake_p3_other
      walk_first [of "Suc NPROC - length ys" "wake_p3 ch" p u, OF _ b] m(4)
    by (simp add: wakeup1_p3_def del: walk.simps)
  then show ?thesis using Some m(2,3) by auto
qed

definition kill_order :: "plist list" where
  "kill_order = map Ready [0 ..< MAXPRIO + 1] @ [Running, Embryo, Zombie]"

lemma ready_heads_eq: "ready_heads = map head_of (map Ready [0 ..< MAXPRIO + 1])"
  by (simp add: ready_heads_def)

lemma filed_killed:
  assumes "filed u L"
  shows "filed (u\<lparr>ptable := upd_nth p (\<lambda>x. x\<lparr>p_killed := True\<rparr>) (ptable u)\<rparr>) L"
proof (cases "p < NPROC")
  case True
  then show ?thesis
    using filedD(1) [OF assms True] by (intro filed_setp_same [OF assms]) (simp_all add: prio_ok_def home_def)
next
  case False
  then have "upd_nth p f (ptable u) = ptable u" for f using filedD(2) [OF assms] by (simp add: upd_nth_def)
  then show ?thesis using assms by simp
qed

lemma unlinked_upd_cong:
  assumes "\<And>x. unlinked (f x) = f (unlinked x)" and "map unlinked ps = map unlinked ps'"
  shows "map unlinked (upd_nth p f ps) = map unlinked (upd_nth p f ps')"
proof -
  have m: "map unlinked (upd_nth p f qs) = upd_nth p f (map unlinked qs)" for qs
    using assms(1) by (simp add: upd_nth_def map_update)
  show ?thesis by (simp add: m assms(2))
qed

lemma tables_swap [simp]: "u\<lparr>pLists := pl, ptable := ps\<rparr> = u\<lparr>ptable := ps, pLists := pl\<rparr>" for u :: kstate
  by simp

lemma filed_move_raw:
  assumes "filed_but {p} s L" and "is_list a" and "is_list b" and "p \<in> set (L a)"
  shows "\<exists>ps pl. move (head_of a) (tail_of a) e1 (head_of b) (tail_of b) e2 p s = Done () (s\<lparr>ptable := ps, pLists := pl\<rparr>) \<and>
    filed_but {p} (s\<lparr>ptable := ps, pLists := pl\<rparr>) (moved p a b L) \<and> map unlinked ps = map unlinked (ptable s) \<and>
    p_next (ps ! p) = None"
proof -
  have "lists_are s L" using assms(1) by (simp add: filed_but_def)
  then obtain ps pl where r: "move (head_of a) (tail_of a) e1 (head_of b) (tail_of b) e2 p s = Done () (s\<lparr>ptable := ps, pLists := pl\<rparr>)"
      "lists_are (s\<lparr>ptable := ps, pLists := pl\<rparr>) (moved p a b L)" "map unlinked ps = map unlinked (ptable s)" "p_next (ps ! p) = None"
    using move_lists [of s L a b p e1 e2] assms(2-4) by (auto simp: moved_def)
  have "filed_but {p} (s\<lparr>ptable := ps, pLists := pl\<rparr>) (moved p a b L)"
    by (intro filed_relinked [OF assms(1) r(2,3)]) (auto simp: moved_def Let_def)
  then show ?thesis using r by blast
qed

lemma moved_member: "p \<in> set (moved p a b L b)"
  by (simp add: moved_def Let_def)

lemma filed_close: "filed_but {p} s L \<Longrightarrow> p \<in> set (L (home (ptable s ! p))) \<Longrightarrow> filed s L"
  unfolding filed_but_def by auto

lemma find_member: "find P xs = Some x \<Longrightarrow> x \<in> set xs \<and> P x"
  by (auto simp: find_Some_iff)

text \<open>\<open>kill\<close>: the process is found in whatever list it is, marked, and taken from its sleep.\<close>

lemma kill_sleeper:
  assumes "filed u L" and "p \<in> set (L Sleep)"
  defines "q \<equiv> unat (p_priority (ptable u ! p))"
  shows "\<exists>ps pl. sq (move sleep_hd sleep_tl e1 (ready_hd q) (ready_tl q) e2 p)
             (sq (setp p (\<lambda>x. x\<lparr>p_state := RUNNABLE\<rparr>))
             (sq (assertState p RUNNABLE)
             (sq (setp p (\<lambda>x. x\<lparr>p_killed := True\<rparr>)) n))) u = n (u\<lparr>ptable := ps, pLists := pl\<rparr>) \<and>
     filed (u\<lparr>ptable := ps, pLists := pl\<rparr>) (moved p Sleep (Ready q) L) \<and>
     map unlinked ps = map unlinked (upd_nth p (\<lambda>x. x\<lparr>p_state := RUNNABLE, p_killed := True\<rparr>) (ptable u))"
proof -
  have len: "length (ptable u) = NPROC" using filedD(2) [OF assms(1)] .
  have p: "p < NPROC" using filed_rep [OF assms(1), of Sleep] assms(2) by (auto simp: rep_def)
  have q: "is_list (Ready q)" using filedD(1) [OF assms(1) p] by (simp add: prio_ok_def q_def)
  obtain ps pl where m: "move sleep_hd sleep_tl e1 (ready_hd q) (ready_tl q) e2 p u = Done () (u\<lparr>ptable := ps, pLists := pl\<rparr>)"
      "filed_but {p} (u\<lparr>ptable := ps, pLists := pl\<rparr>) (moved p Sleep (Ready q) L)" "map unlinked ps = map unlinked (ptable u)"
    using filed_move_raw [OF filed_mono [OF assms(1), of "{p}"], of Sleep "Ready q" e1 e2] assms(2) q by auto
  have lp: "length ps = NPROC" using arg_cong [OF m(3), of length] len by simp
  let ?ps = "upd_nth p (\<lambda>x. x\<lparr>p_state := RUNNABLE, p_killed := True\<rparr>) ps"
  have two: "upd_nth p (\<lambda>x. x\<lparr>p_killed := True\<rparr>) (upd_nth p (\<lambda>x. x\<lparr>p_state := RUNNABLE\<rparr>) ps) = ?ps"
    by (simp add: upd_nth_def)
  have e: "unlinked (ps ! p) = unlinked (ptable u ! p)" using unlinked_nth [OF m(3), of p] len p by simp
  have ok: "prio_ok (ps ! p)" using home_same_unlinked [OF e] filedD(1) [OF assms(1) p] by simp
  have f: "filed_but {p} (u\<lparr>ptable := ?ps, pLists := pl\<rparr>) (moved p Sleep (Ready q) L)"
    using filed_setp [OF m(2), of "\<lambda>x. x\<lparr>p_state := RUNNABLE, p_killed := True\<rparr>" p] ok by (simp add: prio_ok_def)
  have "home (?ps ! p) = Ready q" using arg_cong [OF e, of p_priority] lp p by (simp add: home_def q_def)
  then have f': "filed (u\<lparr>ptable := ?ps, pLists := pl\<rparr>) (moved p Sleep (Ready q) L)"
    using moved_member [of p Sleep "Ready q" L] by (intro filed_close [OF f]) simp
  have "map unlinked ?ps = map unlinked (upd_nth p (\<lambda>x. x\<lparr>p_state := RUNNABLE, p_killed := True\<rparr>) (ptable u))"
    by (intro unlinked_upd_cong [OF _ m(3)]) (simp add: unlinked_def)
  then show ?thesis
    using m(1) f' two lp p
    by (intro exI [of _ ?ps] exI [of _ pl]) (simp add: run_simps assertState_Done)
qed

lemma filed_home:
  assumes "filed s L" and "is_list l" and "x \<in> set (L l)"
  shows "home (ptable s ! x) = l \<and> x < NPROC"
proof -
  have x: "x < NPROC" using filed_rep [OF assms(1,2)] assms(3) by (auto simp: rep_def)
  have "x \<in> set (L (home (ptable s ! x)))" "is_list (home (ptable s ! x))"
    using filedD(1) [OF assms(1) x] is_list_home by auto
  then have "home (ptable s ! x) = l"
    using assms unfolding filed_but_def lists_are_def by blast
  then show ?thesis using x by simp
qed

lemma home_Ready: "home p = Ready k \<Longrightarrow> p_state p = RUNNABLE \<and> unat (p_priority p) = k"
  by (cases "p_state p") (auto simp: home_def)

lemma quiet_leave: "quiet s \<Longrightarrow> quiet (u\<lparr>locks := locks s, kcpu := kcpu (cs s)\<rparr>)"
  using quiet_cs [of s] by (simp add: quiet_def)

lemma filed_leave [simp]: "filed_but A (u\<lparr>locks := l, kcpu := c\<rparr>) L = filed_but A u L"
  by (rule filed_cong) simp_all

definition with_pid :: "kstate \<Rightarrow> (plist \<Rightarrow> nat list) \<Rightarrow> plist list \<Rightarrow> 32 word \<Rightarrow> nat option" where
  "with_pid s L ls pid = find (\<lambda>x. p_pid (ptable s ! x) = pid) (concat (map L ls))"

lemma find_app: "find P (xs @ ys) = (case find P xs of None \<Rightarrow> find P ys | Some x \<Rightarrow> Some x)"
  by (induction xs) auto

lemma kill_filed:
  assumes "quiet s" and "filed s L"
  shows "\<exists>t L'. kill_p3 pid s = Done (if with_pid s L (kill_order @ [Sleep]) pid = None then - 1 else 0) t \<and> quiet t \<and> filed t L' \<and>
    (case with_pid s L (kill_order @ [Sleep]) pid of None \<Rightarrow> ptable t = ptable s
     | Some p \<Rightarrow> map unlinked (ptable t) = map unlinked (upd_nth p (\<lambda>x. if p_state x = SLEEPING
         then x\<lparr>p_state := RUNNABLE, p_killed := True\<rparr> else x\<lparr>p_killed := True\<rparr>) (ptable s)))"
proof -
  let ?u = "acquired PtableLock s" and ?P = "\<lambda>x. p_pid x = pid"
  have u: "filed ?u L" using assms by simp
  have wp: "with_pid s L (kill_order @ [Sleep]) pid = (case with_pid s L kill_order pid of None \<Rightarrow> with_pid s L [Sleep] pid | Some x \<Rightarrow> Some x)"
    unfolding with_pid_def by (simp only: map_append concat_append find_app)
  have heads: "ready_heads @ [running_hd, embryo_hd, zombie_hd] = map head_of kill_order"
    by (simp add: ready_heads_eq kill_order_def del: upt_Suc)
  have ok: "list_all is_list kill_order" by (auto simp: kill_order_def list_all_iff)
  have s1: "search_lists (ready_heads @ [running_hd, embryo_hd, zombie_hd]) ?P ?u = Done (with_pid s L kill_order pid) ?u"
    unfolding heads using search_lists_find [OF u ok, of ?P] by (simp add: with_pid_def)
  have s2: "search_list sleep_hd ?P ?u = Done (with_pid s L [Sleep] pid) ?u"
    using search_list_find [OF u, of Sleep ?P] by (simp add: with_pid_def)
  show ?thesis
  proof (cases "with_pid s L kill_order pid")
    case (Some p)
    have "p \<in> set (concat (map L kill_order))" using find_member [OF Some [unfolded with_pid_def]] by simp
    then obtain l where l: "l \<in> set kill_order" "p \<in> set (L l)" by auto
    then have "home (ptable s ! p) = l" "l \<noteq> Sleep" using filed_home [OF assms(2), of l p] ok by (auto simp: list_all_iff kill_order_def)
    then have ns: "p_state (ptable s ! p) \<noteq> SLEEPING" by (auto simp: home_def)
    let ?ps = "upd_nth p (\<lambda>x. x\<lparr>p_killed := True\<rparr>) (ptable s)"
    let ?t = "?u\<lparr>ptable := ?ps, locks := locks s, kcpu := kcpu (cs s)\<rparr>"
    have "kill_p3 pid s = Done 0 ?t"
      unfolding kill_p3_def using s1 Some by (simp add: run_simps release_inside [of PtableLock s] assms(1) acquire_quiet [OF assms(1)])
    moreover have "filed ?t L" using filed_killed [OF u, of p] filed_cong [of ?t "?u\<lparr>ptable := ?ps\<rparr>" "{}" L] by simp
    moreover have "quiet ?t" using quiet_leave [OF assms(1), of "?u\<lparr>ptable := ?ps\<rparr>"] by simp
    ultimately show ?thesis
      using Some ns by (intro exI [of _ ?t] exI [of _ L]) (simp add: wp upd_nth_def)
  next
    case None
    show ?thesis
    proof (cases "with_pid s L [Sleep] pid")
      case None': None
      let ?t = "?u\<lparr>locks := locks s, kcpu := kcpu (cs s)\<rparr>"
      have "kill_p3 pid s = Done (- 1) ?t"
        unfolding kill_p3_def using s1 s2 None None' by (simp add: run_simps release_inside [of PtableLock s] assms(1) acquire_quiet [OF assms(1)])
      then show ?thesis
        using None None' quiet_leave [OF assms(1), of ?u] u by (intro exI [of _ ?t] exI [of _ L]) (simp add: wp)
    next
      case (Some p)
      have p: "p \<in> set (L Sleep)" using find_member [OF Some [unfolded with_pid_def]] by simp
      have sl: "p_state (ptable s ! p) = SLEEPING"
        using filed_home [OF assms(2) _ p] by (cases "p_state (ptable s ! p)") (auto simp: home_def)
      let ?q = "unat (p_priority (ptable s ! p))"
      obtain ps pl where k: "sq (move sleep_hd sleep_tl ''error removing from sleep list.'' (ready_hd ?q) (ready_tl ?q) ''error adding to ready list.'' p)
             (sq (setp p (\<lambda>x. x\<lparr>p_state := RUNNABLE\<rparr>))
             (sq (assertState p RUNNABLE)
             (sq (setp p (\<lambda>x. x\<lparr>p_killed := True\<rparr>)) (sq (release PtableLock) (ret 0))))) ?u =
            sq (release PtableLock) (ret (0 :: int)) (?u\<lparr>ptable := ps, pLists := pl\<rparr>)"
          "filed (?u\<lparr>ptable := ps, pLists := pl\<rparr>) (moved p Sleep (Ready ?q) L)"
          "map unlinked ps = map unlinked (upd_nth p (\<lambda>x. x\<lparr>p_state := RUNNABLE, p_killed := True\<rparr>) (ptable s))"
        using kill_sleeper [OF u p, of "''error removing from sleep list.''" "''error adding to ready list.''" "sq (release PtableLock) (ret (0 :: int))"] by auto
      let ?t = "?u\<lparr>ptable := ps, pLists := pl, locks := locks s, kcpu := kcpu (cs s)\<rparr>"
      have "kill_p3 pid s = Done 0 ?t"
        unfolding kill_p3_def
        using s1 s2 None Some k(1)
        by (simp add: bnd_def [of "search_lists _ _"] bnd_def [of "search_list _ _"] bnd_def [of "getp _"] sq_def [of "acquire _"]
            sq_def [of "release _"] getp_Done ret_def release_inside [of PtableLock s] assms(1) bnd_def [of "acquire _"] bnd_def [of "release _"] acquire_quiet [OF assms(1)] Let_def)
      then show ?thesis
        using None Some sl k(2,3) quiet_leave [OF assms(1), of "?u\<lparr>ptable := ps, pLists := pl\<rparr>"]
        by (intro exI [of _ ?t] exI [of _ "moved p Sleep (Ready ?q) L"]) (simp add: wp upd_nth_def)
    qed
  qed
qed

text \<open>\<open>setpriority\<close>: a ready process changes its queue, another one only its priority and budget.\<close>

lemma filed_set_prio:
  assumes "filed u L" and "p \<in> set (L l)" and "l = Sleep \<or> l = Running" and "unat pr \<le> MAXPRIO"
  shows "filed (u\<lparr>ptable := upd_nth p (\<lambda>x. x\<lparr>p_priority := pr, p_budget := b x\<rparr>) (ptable u)\<rparr>) L"
proof (rule filed_setp_same [OF assms(1)])
  have "home (ptable u ! p) = l" using filed_home [OF assms(1) _ assms(2)] assms(3) by auto
  then show "home ((ptable u ! p)\<lparr>p_priority := pr, p_budget := b (ptable u ! p)\<rparr>) = home (ptable u ! p)"
    using assms(3) by (cases "p_state (ptable u ! p)") (auto simp: home_def)
qed (use assms(4) in \<open>simp_all add: prio_ok_def\<close>)

lemma filed_budget:
  assumes "filed_but A u L" and "p < NPROC"
  shows "filed_but A (u\<lparr>ptable := upd_nth p (\<lambda>x. x\<lparr>p_budget := b x\<rparr>) (ptable u)\<rparr>) L"
  by (rule filed_setp_same [OF assms(1)])
    (use assms in \<open>simp_all add: prio_ok_def home_def filed_but_def\<close>)

definition requeue :: "nat \<Rightarrow> (proc \<Rightarrow> 32 word) \<Rightarrow> string \<Rightarrow> string \<Rightarrow> nat \<Rightarrow> nat \<Rightarrow> unit kfun" where
  "requeue p g e1 e2 old new =
     bnd (stateListRemove (ready_hd old) (ready_tl old) p) (\<lambda>r.
     if r \<noteq> 0 then panic e1
     else
     sq (setp p (\<lambda>x. x\<lparr>p_priority := g x\<rparr>))
     (bnd (stateListAdd (ready_hd new) (ready_tl new) p) (\<lambda>r. if r \<noteq> 0 then panic e2 else ret ())))"

lemma requeue_filed:
  assumes "filed u L" and "p \<in> set (L (Ready k))" and "k \<le> MAXPRIO" and "new = unat (g (ptable u ! p))" and "new \<le> MAXPRIO"
    and g: "\<And>x. g (unlinked x) = g x"
  shows "\<exists>ps pl. requeue p g e1 e2 k new u = Done () (u\<lparr>ptable := ps, pLists := pl\<rparr>) \<and>
    filed (u\<lparr>ptable := ps, pLists := pl\<rparr>) (moved p (Ready k) (Ready new) L) \<and>
    map unlinked ps = map unlinked (upd_nth p (\<lambda>x. x\<lparr>p_priority := g x\<rparr>) (ptable u)) \<and> p_next (ps ! p) = None"
proof -
  let ?M = "L(Ready k := remove1 p (L (Ready k)))" and ?f = "\<lambda>x. x\<lparr>p_priority := g x\<rparr>"
  have k: "is_list (Ready k)" using assms(3) by simp
  have hp: "home (ptable u ! p) = Ready k" "p < NPROC" using filed_home [OF assms(1) k assms(2)] by auto
  have len: "length (ptable u) = NPROC" using filedD(2) [OF assms(1)] .
  obtain ps pl where r: "stateListRemove (ready_hd k) (ready_tl k) p u = Done 0 (u\<lparr>ptable := ps, pLists := pl\<rparr>)"
      "filed_but {p} (u\<lparr>ptable := ps, pLists := pl\<rparr>) ?M" "map unlinked ps = map unlinked (ptable u)"
      "\<forall>l. is_list l \<longrightarrow> p \<notin> set (?M l)"
    using filed_remove [OF filed_mono [OF assms(1), of "{p}"] k assms(2)] by auto
  have lp: "length ps = NPROC" using arg_cong [OF r(3), of length] len by simp
  have e: "unlinked (ps ! p) = unlinked (ptable u ! p)" using unlinked_nth [OF r(3), of p] len hp(2) by simp
  have gp: "unat (g (ps ! p)) = new" using arg_cong [OF e, of g] g assms(4) by simp
  have v: "filed_but {p} (u\<lparr>ptable := upd_nth p ?f ps, pLists := pl\<rparr>) ?M"
    using filed_setp [OF r(2), of ?f p] assms(5) gp by (simp add: prio_ok_def)
  have "home (upd_nth p ?f ps ! p) = Ready new"
    using arg_cong [OF e, of p_state] home_Ready [OF hp(1)] lp hp(2) gp by (simp add: home_def)
  then obtain ps' pl' where a: "stateListAdd (ready_hd new) (ready_tl new) p (u\<lparr>ptable := upd_nth p ?f ps, pLists := pl\<rparr>) =
        Done 0 (u\<lparr>ptable := ps', pLists := pl'\<rparr>)"
      "filed (u\<lparr>ptable := ps', pLists := pl'\<rparr>) (moved p (Ready k) (Ready new) L)"
      "map unlinked ps' = map unlinked (upd_nth p ?f ps)" "p_next (ps' ! p) = None"
    using filed_add [OF v hp(2), of "Ready new"] r(4) by (auto simp: moved_def Let_def)
  have "unlinked (?f x) = ?f (unlinked x)" for x using g by (simp add: unlinked_def)
  then have "map unlinked (upd_nth p ?f ps) = map unlinked (upd_nth p ?f (ptable u))"
    by (intro unlinked_upd_cong [OF _ r(3)]) simp
  then show ?thesis
    using r(1) a by (intro exI [of _ ps'] exI [of _ pl']) (simp add: requeue_def run_simps)
qed

lemma setpriority_filed:
  assumes "quiet s" and "filed s L" and "unat pr \<le> MAXPRIO"
  shows "\<exists>r t L'. setpriority pid pr s = Done r t \<and> quiet t \<and> filed t L'"
proof (cases "pid <s 0 \<or> pr <s 0 \<or> of_nat (MAXPRIO + 1) <s pr")
  case True
  then show ?thesis using assms by (auto simp: setpriority_def ret_def)
next
  case False
  let ?u = "acquired PtableLock s" and ?P = "\<lambda>x. p_pid x = pid \<and> pr \<noteq> p_priority x"
  let ?rs = "map Ready [0 ..< MAXPRIO + 1]" and ?Q = "\<lambda>x. p_pid x = pid"
  have u: "filed ?u L" "quiet s" using assms by simp_all
  have s1: "search_lists ready_heads ?P ?u = Done (find (\<lambda>x. ?P (ptable ?u ! x)) (concat (map L ?rs))) ?u" (is "_ = Done ?f1 _")
    unfolding ready_heads_eq by (rule search_lists_find [OF u(1)]) (simp add: list_all_iff)
  have s2: "search_lists [sleep_hd, running_hd] ?Q ?u = Done (find (\<lambda>x. ?Q (ptable ?u ! x)) (L Sleep @ L Running)) ?u" (is "_ = Done ?f2 _")
    using search_lists_find [OF u(1), of "[Sleep, Running]" ?Q] by simp
  note leave = release_inside [of PtableLock s] u(2) acquire_quiet
  have fin: "\<exists>r t L'. setpriority pid pr s = Done r t \<and> quiet t \<and> filed t L'"
    if "setpriority pid pr s = Done r (v\<lparr>locks := locks s, kcpu := kcpu (cs s)\<rparr>)" "filed v M" for r v M
    using that quiet_leave [OF u(2), of v] by (intro exI [of _ r] exI [of _ "v\<lparr>locks := locks s, kcpu := kcpu (cs s)\<rparr>"] exI [of _ M]) simp
  show ?thesis
  proof (cases ?f1)
    case (Some p)
    obtain k where "k < 7" "p \<in> set (L (Ready k))" using find_member [OF Some] by auto
    then have k: "k \<le> MAXPRIO" "p \<in> set (L (Ready k))" by simp_all
    have hp: "unat (p_priority (ptable s ! p)) = k" "p < NPROC"
      using filed_home [OF u(1) _ k(2)] k(1) home_Ready by auto
    let ?e1 = "''Error removing process from current priority''" and ?e2 = "''Error adding process to current priority''"
    obtain ps pl where m: "requeue p (\<lambda>_. pr) ?e1 ?e2 k (unat pr) ?u = Done () (?u\<lparr>ptable := ps, pLists := pl\<rparr>)"
        "filed (?u\<lparr>ptable := ps, pLists := pl\<rparr>) (moved p (Ready k) (Ready (unat pr)) L)"
      using requeue_filed [OF u(1) k(2,1) refl, of "\<lambda>_. pr" ?e1 ?e2] assms(3) by auto
    let ?ps = "upd_nth p (\<lambda>x. x\<lparr>p_budget := BUDGET * (p_priority x + 1)\<rparr>) ps"
    have split: "setpriority pid pr s = sq (requeue p (\<lambda>_. pr) ?e1 ?e2 k (unat pr)) (sq (refill p) (sq (release PtableLock) (ret 0))) ?u"
      using False s1 Some hp(1)
      by (auto simp: setpriority_def requeue_def bnd_def sq_def acquire_quiet u(2) Let_def getp_Done setp_Done ret_def panic_def
          split: outcome.split)
    show ?thesis
      by (rule fin [of 0 "?u\<lparr>ptable := ?ps, pLists := pl\<rparr>"])
        (use split m filed_budget [OF m(2) hp(2)] in \<open>simp_all add: run_simps refill_def leave\<close>)
  next
    case None
    show ?thesis
    proof (cases ?f2)
      case (Some p)
      then obtain l where l: "p \<in> set (L l)" "l = Sleep \<or> l = Running" using find_member [OF Some] by auto
      show ?thesis
        by (rule fin [OF _ filed_set_prio [OF u(1) l assms(3), of "\<lambda>x. BUDGET * (pr + 1)"], of 0])
          (use False s1 s2 None Some in \<open>simp add: setpriority_def run_simps set_prio_def leave\<close>)
    next
      case None': None
      show ?thesis
        by (rule fin [OF _ u(1), of "- 1"])
          (use False s1 s2 None None' in \<open>simp add: setpriority_def run_simps leave\<close>)
    qed
  qed
qed

text \<open>\<open>promoteAll\<close>.\<close>

lemma walk_setp_filed:
  assumes f: "\<And>x. p_next (f x) = p_next x" "\<And>p. prio_ok p \<Longrightarrow> home p = l \<Longrightarrow> prio_ok (f p) \<and> home (f p) = l"
  shows "filed s L \<Longrightarrow> chain (ptable s) h xs \<Longrightarrow> length xs \<le> n \<Longrightarrow>
     (\<And>x. x \<in> set xs \<Longrightarrow> x < NPROC \<and> home (ptable s ! x) = l) \<Longrightarrow>
     \<exists>ps. walk n h (\<lambda>p. setp p f) s = Done () (s\<lparr>ptable := ps\<rparr>) \<and> filed (s\<lparr>ptable := ps\<rparr>) L"
proof (induction xs arbitrary: s h n)
  case Nil
  then show ?case by (intro exI [of _ "ptable s"]) (simp add: ret_def)
next
  case (Cons x xs)
  let ?t = "s\<lparr>ptable := upd_nth x f (ptable s)\<rparr>"
  have x: "x < NPROC" "home (ptable s ! x) = l" using Cons.prems(4) by auto
  have len: "length (ptable s) = NPROC" using filedD(2) [OF Cons.prems(1)] .
  have fx: "prio_ok (f (ptable s ! x))" "home (f (ptable s ! x)) = home (ptable s ! x)"
    using f(2) x filedD(1) [OF Cons.prems(1) x(1)] by auto
  have t: "filed ?t L" using filed_setp_same [OF Cons.prems(1) f(1) fx] .
  have ch: "chain (ptable ?t) (p_next (ptable s ! x)) xs"
    using Cons.prems(2) len x(1) f(1) Cons.prems(4)
    by (auto intro!: chain_frame [of "ptable s" _ xs])
  obtain m where m: "n = Suc m" "length xs \<le> m" using Cons.prems(3) by (cases n) auto
  have "y < NPROC \<and> home (ptable ?t ! y) = l" if "y \<in> set xs" for y
    using Cons.prems(4) [of y] that len fx x by auto
  then obtain ps where "walk m (p_next (ptable s ! x)) (\<lambda>p. setp p f) ?t = Done () (?t\<lparr>ptable := ps\<rparr>)"
      "filed (?t\<lparr>ptable := ps\<rparr>) L"
    using Cons.IH [OF t ch m(2)] by auto
  then show ?case
    using Cons.prems(2) m(1) len x(1) f(1) by (intro exI [of _ ps]) (simp add: bnd_def sq_def setp_Done [of x] nextof_Done)
qed

lemma walk_list_setp_filed:
  assumes "filed s L" and "is_list l" and "\<And>x. p_next (f x) = p_next x"
    and "\<And>p. prio_ok p \<Longrightarrow> home p = l \<Longrightarrow> prio_ok (f p) \<and> home (f p) = l"
  shows "\<exists>ps. walk_list (head_of l) (\<lambda>p. setp p f) s = Done () (s\<lparr>ptable := ps\<rparr>) \<and> filed (s\<lparr>ptable := ps\<rparr>) L"
proof -
  have r: "rep s (head_of l) (tail_of l) (L l)" using filed_rep [OF assms(1,2)] .
  have "chain (ptable s) (pLists s (head_of l)) (L l)" "length (L l) \<le> Suc NPROC"
    using r rep_length [OF r] by (simp_all add: rep_def)
  moreover have "x < NPROC \<and> home (ptable s ! x) = l" if "x \<in> set (L l)" for x
    using filed_home [OF assms(1,2) that] by simp
  ultimately show ?thesis
    using walk_setp_filed [where f = f and l = l and xs = "L l" and n = "Suc NPROC" and h = "pLists s (head_of l)", OF assms(3,4,1)]
    by (simp add: walk_list_def cell_def run_simps del: walk.simps)
qed

definition promoted :: "nat \<Rightarrow> (plist \<Rightarrow> nat list) \<Rightarrow> plist \<Rightarrow> nat list" where
  "promoted i L = (case L (Ready i) of [] \<Rightarrow> L | p # _ \<Rightarrow> moved p (Ready i) (Ready (i - 1)) L)"

lemma promote_level:
  assumes "filed u L" and "0 < i" and "i \<le> MAXPRIO"
  shows "\<exists>ps pl. walk_list (ready_hd i) (promote_ready i) u = Done () (u\<lparr>ptable := ps, pLists := pl\<rparr>) \<and>
    filed (u\<lparr>ptable := ps, pLists := pl\<rparr>) (promoted i L)"
proof (cases "L (Ready i)")
  case Nil
  then show ?thesis
    using walk_list_skip [OF assms(1), of "Ready i" "[]" "[]" "promote_ready i"] assms
    by (intro exI [of _ "ptable u"] exI [of _ "pLists u"]) (simp add: promoted_def ret_def)
next
  case (Cons p zs)
  then have p: "p \<in> set (L (Ready i))" by simp
  have hp: "home (ptable u ! p) = Ready i" "p < NPROC" using filed_home [OF assms(1) _ p] assms(3) by auto
  have ui: "unat (p_priority (ptable u ! p)) = i" using home_Ready [OF hp(1)] by simp
  have new: "i - 1 = unat (p_priority (ptable u ! p) - 1)"
    using ui assms(2) unat_minus_one [of "p_priority (ptable u ! p)"] by fastforce
  have le: "i - 1 \<le> MAXPRIO" using assms(3) by simp
  let ?e1 = "''Error removing process from current priority''" and ?e2 = "''Error adding process to desired priority''"
  obtain ps pl where m: "requeue p (\<lambda>x. p_priority x - 1) ?e1 ?e2 i (i - 1) u = Done () (u\<lparr>ptable := ps, pLists := pl\<rparr>)"
      "filed (u\<lparr>ptable := ps, pLists := pl\<rparr>) (moved p (Ready i) (Ready (i - 1)) L)" "p_next (ps ! p) = None"
    using requeue_filed [OF assms(1) p assms(3), where g = "\<lambda>x. p_priority x - 1" and ?e1.0 = ?e1 and ?e2.0 = ?e2, OF new le] by auto
  let ?ps = "upd_nth p (\<lambda>x. x\<lparr>p_budget := BUDGET * (p_priority x + 1)\<rparr>) ps"
  have "promote_ready i p u = sq (requeue p (\<lambda>x. p_priority x - 1) ?e1 ?e2 i (i - 1)) (refill p) u"
    using assms(2) ui new
    by (auto simp: promote_ready_def requeue_def bnd_def sq_def whenk_def Let_def getp_Done setp_Done ret_def panic_def
        split: outcome.split)
  then have b: "promote_ready i p u = Done () (u\<lparr>ptable := ?ps, pLists := pl\<rparr>)"
    using m(1) by (simp add: run_simps refill_def)
  have lp: "length ps = NPROC" using filedD(2) [OF m(2)] by simp
  have "walk_list (ready_hd i) (promote_ready i) u = Done () (u\<lparr>ptable := ?ps, pLists := pl\<rparr>)"
    using walk_list_skip [OF assms(1), of "Ready i" "[]" "p # zs" "promote_ready i"] Cons assms(3)
      walk_first [of "Suc NPROC" "promote_ready i" p u, OF _ b] m(3) lp hp(2) by (simp del: walk.simps)
  moreover have "filed (u\<lparr>ptable := ?ps, pLists := pl\<rparr>) (moved p (Ready i) (Ready (i - 1)) L)"
    using filed_budget [OF m(2) hp(2)] by simp
  ultimately show ?thesis using Cons by (auto simp: promoted_def)
qed

lemma promote_levels:
  "filed u L \<Longrightarrow> list_all (\<lambda>i. 0 < i \<and> i \<le> MAXPRIO) is \<Longrightarrow>
     \<exists>ps pl. forM is (\<lambda>i. walk_list (ready_hd i) (promote_ready i)) u = Done () (u\<lparr>ptable := ps, pLists := pl\<rparr>) \<and>
       filed (u\<lparr>ptable := ps, pLists := pl\<rparr>) (fold promoted is L)"
proof (induction "is" arbitrary: u L)
  case Nil
  then show ?case by (intro exI [of _ "ptable u"] exI [of _ "pLists u"]) (simp add: ret_def)
next
  case (Cons i "is")
  then obtain ps pl where a: "walk_list (ready_hd i) (promote_ready i) u = Done () (u\<lparr>ptable := ps, pLists := pl\<rparr>)"
      "filed (u\<lparr>ptable := ps, pLists := pl\<rparr>) (promoted i L)"
    using promote_level [of u L i] by auto
  then obtain ps' pl' where "forM is (\<lambda>i. walk_list (ready_hd i) (promote_ready i)) (u\<lparr>ptable := ps, pLists := pl\<rparr>) =
        Done () (u\<lparr>ptable := ps', pLists := pl'\<rparr>)" "filed (u\<lparr>ptable := ps', pLists := pl'\<rparr>) (fold promoted is (promoted i L))"
    using Cons.IH [OF a(2)] Cons.prems(2) by auto
  then show ?case using a(1) by (intro exI [of _ ps'] exI [of _ pl']) (simp add: run_simps)
qed

lemma promoteAll_filed:
  assumes "filed u L"
  shows "\<exists>ps pl. promoteAll u = Done () (u\<lparr>ptable := ps, pLists := pl\<rparr>) \<and>
    filed (u\<lparr>ptable := ps, pLists := pl\<rparr>) (fold promoted [1 ..< MAXPRIO + 1] L)"
proof -
  let ?o = "\<lambda>x. let pr = (if 0 < p_priority x then p_priority x - 1 else p_priority x) in x\<lparr>p_priority := pr, p_budget := BUDGET * (pr + 1)\<rparr>"
  let ?L = "fold promoted [1 ..< MAXPRIO + 1] L"
  have zero: "promote_ready 0 = (\<lambda>p. setp p (\<lambda>x. x\<lparr>p_budget := BUDGET * (p_priority x + 1)\<rparr>))"
    by (rule ext, rule ext) (simp add: promote_ready_def refill_def run_simps)
  have other: "promote_other = (\<lambda>p. setp p ?o)" by (rule ext) (simp add: promote_other_def)
  obtain ps0 where 0: "walk_list (ready_hd 0) (promote_ready 0) u = Done () (u\<lparr>ptable := ps0\<rparr>)" "filed (u\<lparr>ptable := ps0\<rparr>) L"
    using walk_list_setp_filed [OF assms, of "Ready 0" "\<lambda>x. x\<lparr>p_budget := BUDGET * (p_priority x + 1)\<rparr>"] zero
    by (auto simp: prio_ok_def home_def)
  obtain ps1 pl where 1: "forM [1 ..< MAXPRIO + 1] (\<lambda>i. walk_list (ready_hd i) (promote_ready i)) (u\<lparr>ptable := ps0\<rparr>) =
        Done () (u\<lparr>ptable := ps1, pLists := pl\<rparr>)" "filed (u\<lparr>ptable := ps1, pLists := pl\<rparr>) ?L"
    using promote_levels [OF 0(2), of "[1 ..< MAXPRIO + 1]"] by (auto simp: list_all_iff simp del: upt_rec_numeral)
  have o: "prio_ok (?o p) \<and> home (?o p) = l" if "prio_ok p" "home p = l" "l = Sleep \<or> l = Running" for p l
  proof -
    have "unat (p_priority p - 1) \<le> unat (p_priority p)" if "0 < p_priority p"
      using unat_minus_one [of "p_priority p"] that by fastforce
    then show ?thesis using that by (cases "p_state p") (auto simp: prio_ok_def home_def Let_def)
  qed
  obtain ps2 where 2: "walk_list sleep_hd promote_other (u\<lparr>ptable := ps1, pLists := pl\<rparr>) = Done () (u\<lparr>ptable := ps2, pLists := pl\<rparr>)"
      "filed (u\<lparr>ptable := ps2, pLists := pl\<rparr>) ?L"
    using walk_list_setp_filed [OF 1(2), of Sleep ?o] o other by (auto simp: Let_def)
  obtain ps3 where 3: "walk_list running_hd promote_other (u\<lparr>ptable := ps2, pLists := pl\<rparr>) = Done () (u\<lparr>ptable := ps3, pLists := pl\<rparr>)"
      "filed (u\<lparr>ptable := ps3, pLists := pl\<rparr>) ?L"
    using walk_list_setp_filed [OF 2(2), of Running ?o] o other by (auto simp: Let_def)
  have "[0 ..< MAXPRIO + 1] = 0 # [1 ..< MAXPRIO + 1]" by (simp add: upt_rec)
  then have "promoteAll u = Done () (u\<lparr>ptable := ps3, pLists := pl\<rparr>)"
    using 0(1) 1(1) 2(1) 3(1) by (simp add: promoteAll_def run_simps del: upt_rec_numeral upt_Suc)
  then show ?thesis using 3(2) by blast
qed

section \<open>The lists at boot\<close>

definition booted :: "nat \<Rightarrow> plist \<Rightarrow> nat list" where
  "booted k l = (if l = Free then [0 ..< k] else [])"

text \<open>A loop of assignments of null to cells, each round to those of \<open>A i\<close>.\<close>

lemma forM_clear:
  assumes "\<And>i s. \<exists>pl. f i s = Done () (s\<lparr>pLists := pl\<rparr>) \<and> (\<forall>c. pl c = (if c \<in> A i then None else pLists s c))"
  shows "\<exists>pl. forM js f s = Done () (s\<lparr>pLists := pl\<rparr>) \<and> (\<forall>c. pl c = (if \<exists>i \<in> set js. c \<in> A i then None else pLists s c))"
proof (induction js arbitrary: s)
  case Nil
  then show ?case by (intro exI [of _ "pLists s"]) (simp add: ret_def)
next
  case (Cons i js)
  obtain pl where 1: "f i s = Done () (s\<lparr>pLists := pl\<rparr>)" "\<forall>c. pl c = (if c \<in> A i then None else pLists s c)"
    using assms by blast
  obtain pl' where 2: "forM js f (s\<lparr>pLists := pl\<rparr>) = Done () (s\<lparr>pLists := pl'\<rparr>)"
      "\<forall>c. pl' c = (if \<exists>i \<in> set js. c \<in> A i then None else pl c)"
    using Cons [of "s\<lparr>pLists := pl\<rparr>"] by auto
  have "forM (i # js) f s = Done () (s\<lparr>pLists := pl'\<rparr>)" using 1(1) 2(1) by (simp add: bnd_def sq_def)
  moreover have "pl' c = (if \<exists>i \<in> set (i # js). c \<in> A i then None else pLists s c)" for c using 1(2) 2(2) by auto
  ultimately show ?case by blast
qed

lemma initProcessLists_lists:
  assumes "ptable_ok s"
  shows "\<exists>pl. initProcessLists s = Done () (s\<lparr>pLists := pl\<rparr>) \<and> lists_are (s\<lparr>pLists := pl\<rparr>) (booted 0)"
proof -
  have "\<exists>pl. sq (set_cell (ready_hd i) None) (set_cell (ready_tl i) None) t = Done () (t\<lparr>pLists := pl\<rparr>) \<and>
      (\<forall>c. pl c = (if c \<in> {ready_hd i, ready_tl i} then None else pLists t c))" for i t
    by (intro exI [of _ "(pLists t)(ready_hd i := None, ready_tl i := None)"]) (simp add: sq_def bnd_def set_cell_def modify_def)
  from forM_clear [where f = "\<lambda>i. sq (set_cell (ready_hd i) None) (set_cell (ready_tl i) None)" and A = "\<lambda>i. {ready_hd i, ready_tl i}"
    and js = "[0 ..< MAXPRIO + 1]" and s = s, OF this] obtain pl where
    1: "forM [0 ..< MAXPRIO + 1] (\<lambda>i. sq (set_cell (ready_hd i) None) (set_cell (ready_tl i) None)) s = Done () (s\<lparr>pLists := pl\<rparr>)"
      "\<forall>c. pl c = (if \<exists>i \<in> set [0 ..< MAXPRIO + 1]. c \<in> {ready_hd i, ready_tl i} then None else pLists s c)" by blast
  have "\<exists>pl. set_cell i None t = Done () (t\<lparr>pLists := pl\<rparr>) \<and> (\<forall>c. pl c = (if c \<in> {i} then None else pLists t c))" for i t
    by (intro exI [of _ "(pLists t)(i := None)"]) (simp add: set_cell_def modify_def)
  from forM_clear [where f = "\<lambda>c. set_cell c None" and A = "\<lambda>c. {c}"
    and js = "[free_hd, free_tl, sleep_hd, sleep_tl, zombie_hd, zombie_tl, running_hd, running_tl, embryo_hd, embryo_tl]" and s = "s\<lparr>pLists := pl\<rparr>", OF this]
  obtain pl' where
    2: "forM [free_hd, free_tl, sleep_hd, sleep_tl, zombie_hd, zombie_tl, running_hd, running_tl, embryo_hd, embryo_tl]
          (\<lambda>c. set_cell c None) (s\<lparr>pLists := pl\<rparr>) = Done () (s\<lparr>pLists := pl'\<rparr>)"
      "\<forall>c. pl' c = (if c \<in> {free_hd, free_tl, sleep_hd, sleep_tl, zombie_hd, zombie_tl, running_hd, running_tl, embryo_hd, embryo_tl} then None else pl c)"
    by auto
  have "initProcessLists s = Done () (s\<lparr>pLists := pl'\<rparr>)"
    using 1(1) 2(1) by (simp add: initProcessLists_def sq_def [of "forM _ _"] bnd_def [of "forM _ _"] del: upt_rec_numeral forM.simps)
  moreover have "pl' (head_of l) = None" if "is_list l" for l
    using that 1(2) 2(2) by (cases l) (auto simp del: upt_rec_numeral)
  ultimately show ?thesis
    using assms by (intro exI [of _ pl']) (simp add: lists_are_def rep_def booted_def ptable_ok_def)
qed

lemma initFreeList_lists:
  "lists_are s (booted k) \<Longrightarrow> k \<le> n \<Longrightarrow> n \<le> NPROC \<Longrightarrow>
     (\<And>x. x < NPROC \<Longrightarrow> prio_ok (ptable s ! x)) \<Longrightarrow> (\<And>x. x < k \<Longrightarrow> p_state (ptable s ! x) = UNUSED) \<Longrightarrow>
     \<exists>ps pl. forM [k ..< n] (\<lambda>p. sq (setp p (\<lambda>x. x\<lparr>p_state := UNUSED\<rparr>))
         (bnd (stateListAdd free_hd free_tl p) (\<lambda>_. ret ()))) s = Done () (s\<lparr>ptable := ps, pLists := pl\<rparr>) \<and>
       lists_are (s\<lparr>ptable := ps, pLists := pl\<rparr>) (booted n) \<and>
       (\<forall>x < NPROC. prio_ok (ps ! x)) \<and> (\<forall>x < n. p_state (ps ! x) = UNUSED)"
proof (induction "n - k" arbitrary: k s)
  case 0
  then show ?case by (intro exI [of _ "ptable s"] exI [of _ "pLists s"]) (simp add: ret_def)
next
  case (Suc m)
  let ?f = "\<lambda>x. x\<lparr>p_state := UNUSED\<rparr>"
  let ?t = "s\<lparr>ptable := upd_nth k ?f (ptable s)\<rparr>"
  have k: "k < NPROC" "k < n" using Suc.hyps(2) Suc.prems(3) by auto
  have len: "length (ptable s) = NPROC" using Suc.prems(1) by (simp add: lists_are_def ptable_ok_def)
  have "lists_are ?t (booted k)"
    by (rule lists_are_cong [of _ s]) (use Suc.prems(1) len in simp_all)
  then obtain ps pl where a: "stateListAdd free_hd free_tl k ?t = Done 0 (s\<lparr>ptable := ps, pLists := pl\<rparr>)"
      "lists_are (s\<lparr>ptable := ps, pLists := pl\<rparr>) ((booted k)(Free := booted k Free @ [k]))"
      "map unlinked ps = map unlinked (ptable ?t)"
    using add_lists [of ?t "booted k" Free k] k(1) by (auto simp: booted_def)
  have next_l: "(booted k)(Free := booted k Free @ [k]) = booted (Suc k)" by (auto simp: booted_def)
  have e: "unlinked (ps ! x) = unlinked (upd_nth k ?f (ptable s) ! x)" if "x < NPROC" for x
    using unlinked_nth [OF a(3), of x] that len by simp
  have pr: "prio_ok (ps ! x)" if "x < NPROC" for x
    using home_same_unlinked [OF e [OF that]] Suc.prems(4) [OF that] that len by auto
  have st: "p_state (ps ! x) = UNUSED" if "x < Suc k" for x
  proof -
    have "x < NPROC" using that k by simp
    then have "p_state (ps ! x) = p_state (upd_nth k ?f (ptable s) ! x)" using arg_cong [OF e, of x p_state] by simp
    then show ?thesis using that Suc.prems(5) [of x] len k by auto
  qed
  have m: "m = n - Suc k" "Suc k \<le> n" using Suc.hyps(2) by simp_all
  obtain ps' pl' where "forM [Suc k ..< n] (\<lambda>p. sq (setp p ?f) (bnd (stateListAdd free_hd free_tl p) (\<lambda>_. ret ())))
        (s\<lparr>ptable := ps, pLists := pl\<rparr>) = Done () (s\<lparr>ptable := ps', pLists := pl'\<rparr>)"
      "lists_are (s\<lparr>ptable := ps', pLists := pl'\<rparr>) (booted n)" "\<forall>x < NPROC. prio_ok (ps' ! x)" "\<forall>x < n. p_state (ps' ! x) = UNUSED"
    using Suc.hyps(1) [OF m(1), of "s\<lparr>ptable := ps, pLists := pl\<rparr>"] m(2) Suc.prems(3) a(2) next_l pr st by auto
  then show ?case
    using a(1) k(2) by (intro exI [of _ ps'] exI [of _ pl']) (simp add: upt_conv_Cons [OF k(2)] bnd_def sq_def setp_Done [of k] ret_def)
qed

lemma boot_filed:
  assumes "inside PtableLock s u" and "ptable_ok u" and "\<And>x. x < NPROC \<Longrightarrow> prio_ok (ptable u ! x)"
  shows "\<exists>ps pl. sq initProcessLists initFreeList u = Done () (u\<lparr>ptable := ps, pLists := pl\<rparr>) \<and>
    filed (u\<lparr>ptable := ps, pLists := pl\<rparr>) (booted NPROC)"
proof -
  obtain pl0 where 0: "initProcessLists u = Done () (u\<lparr>pLists := pl0\<rparr>)" "lists_are (u\<lparr>pLists := pl0\<rparr>) (booted 0)"
    using initProcessLists_lists [OF assms(2)] by blast
  obtain ps pl where 1: "forM [0 ..< NPROC] (\<lambda>p. sq (setp p (\<lambda>x. x\<lparr>p_state := UNUSED\<rparr>))
         (bnd (stateListAdd free_hd free_tl p) (\<lambda>_. ret ()))) (u\<lparr>pLists := pl0\<rparr>) = Done () (u\<lparr>ptable := ps, pLists := pl\<rparr>)"
      "lists_are (u\<lparr>ptable := ps, pLists := pl\<rparr>) (booted NPROC)" "\<forall>x < NPROC. prio_ok (ps ! x)" "\<forall>x < NPROC. p_state (ps ! x) = UNUSED"
    using initFreeList_lists [OF 0(2), of NPROC] assms(3) by (auto simp del: upt_rec_numeral)
  have "initFreeList (u\<lparr>pLists := pl0\<rparr>) = Done () (u\<lparr>ptable := ps, pLists := pl\<rparr>)"
    using 1(1) assms(1) by (simp add: initFreeList_def holding_def bnd_def gets_def inside_def quiet_def del: upt_rec_numeral)
  then show ?thesis
    using 0(1) 1 by (intro exI [of _ ps] exI [of _ pl]) (auto simp: sq_def bnd_def filed_but_def home_def booted_def)
qed

section \<open>Dispatching\<close>

lemma switchuvm_inside:
  assumes "inside lk s u" and "p_pgdir (ptable u ! p) \<noteq> 0"
  shows "switchuvm p u = Done () (u\<lparr>cr3 := v2p (p_pgdir (ptable u ! p))\<rparr>)"
proof -
  have "\<not> eflags_if (kcpu u)" "0 < ncli (kcpu u)" using assms(1) by (auto simp: inside_def quiet_def)
  then show ?thesis
    using assms(2) popped_pushed_off [of "kcpu u"] by (simp add: switchuvm_def run_simps pushcli_eq popcli_eq modify_def pushed_def)
qed

lemma inside_cr3 [simp]: "inside lk s (u\<lparr>cr3 := c\<rparr>) = inside lk s u"
  by (simp add: inside_def)

lemma dispatch_filed:
  assumes "inside PtableLock s u" and "filed u L" and "k \<le> MAXPRIO" and "p \<in> set (L (Ready k))" and "p_pgdir (ptable u ! p) \<noteq> 0"
  shows "\<exists>t. dispatch_p3 k p u = Done () t \<and> inside PtableLock s t \<and> filed t (moved p (Ready k) Running L) \<and>
    curproc t = Some p \<and> p_state (ptable t ! p) = RUNNING"
proof -
  have p: "p < NPROC" using filed_home [OF assms(2) _ assms(4)] assms(3) by simp
  have len: "length (ptable u) = NPROC" using filedD(2) [OF assms(2)] .
  let ?v = "u\<lparr>curproc := Some p, cr3 := v2p (p_pgdir (ptable u ! p))\<rparr>"
  let ?f = "\<lambda>x. x\<lparr>p_state := RUNNING\<rparr>"
  let ?w = "?v\<lparr>ptable := upd_nth p ?f (ptable u)\<rparr>"
  have sw: "switchuvm p (u\<lparr>curproc := Some p\<rparr>) = Done () ?v"
    using switchuvm_inside [of PtableLock s "u\<lparr>curproc := Some p\<rparr>" p] assms(1,5) by simp
  have v: "filed ?v L" using assms(2) filed_cong [of ?v u "{}" L] by simp
  have w: "filed_but {p} ?w L" using filed_setp [OF v, of ?f p] filedD(1) [OF assms(2) p] by simp
  have h: "Running = home (ptable ?w ! p)" using len p by (simp add: home_def)
  let ?e1 = "''problem with removing from ready list.''" and ?e2 = "''problem with adding to running list.''"
  obtain ps pl where m: "move (ready_hd k) (ready_tl k) ?e1 running_hd running_tl ?e2 p ?w = Done () (?w\<lparr>ptable := ps, pLists := pl\<rparr>)"
      "filed (?w\<lparr>ptable := ps, pLists := pl\<rparr>) (moved p (Ready k) Running L)" "map unlinked ps = map unlinked (ptable ?w)"
    using filed_move [OF w, of "Ready k" Running ?e1 ?e2] assms(3,4) h by auto
  have lp: "length ps = NPROC" using arg_cong [OF m(3), of length] len by simp
  have e: "unlinked (ps ! p) = unlinked (ptable ?w ! p)" using unlinked_nth [OF m(3), of p] len p by simp
  have st: "p_state (ps ! p) = RUNNING" using arg_cong [OF e, of p_state] len p by simp
  let ?t = "?w\<lparr>ptable := upd_nth p (\<lambda>x. x\<lparr>p_cpu_ticks_in := ticks u\<rparr>) ps, pLists := pl\<rparr>"
  have "dispatch_p3 k p u = Done () ?t"
    unfolding dispatch_p3_def using sw m(1) st assertState_Done [of "?w\<lparr>ptable := ps, pLists := pl\<rparr>" p RUNNING]
    by (simp add: run_simps modify_def)
  moreover have "filed ?t (moved p (Ready k) Running L)"
    using filed_setp_same [OF m(2), of "\<lambda>x. x\<lparr>p_cpu_ticks_in := ticks u\<rparr>" p] filedD(1) [OF m(2) p]
    by (simp add: prio_ok_def home_def)
  ultimately show ?thesis using assms(1) st lp p by (intro exI [of _ ?t]) simp
qed

lemma wakeup_filed:
  assumes "quiet s" and "filed s L"
  shows "\<exists>t. wakeup_p3 ch s = Done () t \<and> quiet t \<and>
    (case first_sleeper s L ch of None \<Rightarrow> filed t L \<and> ptable t = ptable s
     | Some p \<Rightarrow> filed t (moved p Sleep (Ready (unat (p_priority (ptable s ! p)))) L) \<and>
         map unlinked (ptable t) = map unlinked (upd_nth p (\<lambda>x. x\<lparr>p_state := RUNNABLE\<rparr>) (ptable s)))"
proof -
  let ?u = "acquired PtableLock s"
  have u: "filed ?u L" "first_sleeper ?u L ch = first_sleeper s L ch" using assms by (simp_all add: first_sleeper_def)
  show ?thesis
  proof (cases "first_sleeper s L ch")
    case None
    then have "wakeup1_p3 ch ?u = Done () ?u" using wakeup1_filed [OF u(1), of ch] u(2) by simp
    then have "wakeup_p3 ch s = Done () (?u\<lparr>locks := locks s, kcpu := kcpu (cs s)\<rparr>)"
      using assms(1) by (simp add: wakeup_p3_def run_simps acquire_quiet release_inside [of PtableLock s])
    then show ?thesis using None u(1) quiet_leave [OF assms(1), of ?u] by auto
  next
    case (Some p)
    then obtain ps pl where w: "wakeup1_p3 ch ?u = Done () (?u\<lparr>ptable := ps, pLists := pl\<rparr>)"
        "filed (?u\<lparr>ptable := ps, pLists := pl\<rparr>) (moved p Sleep (Ready (unat (p_priority (ptable s ! p)))) L)"
        "map unlinked ps = map unlinked (upd_nth p (\<lambda>x. x\<lparr>p_state := RUNNABLE\<rparr>) (ptable s))"
      using wakeup1_filed [OF u(1), of ch] u(2) by auto
    let ?t = "?u\<lparr>ptable := ps, pLists := pl, locks := locks s, kcpu := kcpu (cs s)\<rparr>"
    have "wakeup_p3 ch s = Done () ?t"
      using assms(1) w(1) by (simp add: wakeup_p3_def run_simps acquire_quiet release_inside [of PtableLock s])
    then show ?thesis using Some w(2,3) quiet_leave [OF assms(1), of "?u\<lparr>ptable := ps, pLists := pl\<rparr>"] by (intro exI [of _ ?t]) simp
  qed
qed

lemma yield_ok:
  "quiet s \<Longrightarrow> mlfq_ok s \<Longrightarrow> curproc s = Some i \<Longrightarrow> i < NPROC \<Longrightarrow> p_state (ptable s ! i) = RUNNING \<Longrightarrow>
     \<exists>t. yield_p3 s = Switch t \<and> mlfq_ok t"
  using yield_filed unfolding mlfq_ok_def by blast

lemma sleep_ok:
  "sleeper lk s u \<Longrightarrow> mlfq_ok u \<Longrightarrow> curproc u = Some i \<Longrightarrow> i < NPROC \<Longrightarrow> p_state (ptable u ! i) = RUNNING \<Longrightarrow>
     \<exists>t. sleep_p3 ch lk u = Switch t \<and> mlfq_ok t"
  using sleep_filed unfolding mlfq_ok_def by blast

lemma wakeup_ok:
  assumes "quiet s" and "mlfq_ok s"
  shows "\<exists>t. wakeup_p3 ch s = Done () t \<and> quiet t \<and> mlfq_ok t"
proof -
  obtain L where L: "filed s L" using assms(2) by (auto simp: mlfq_ok_def)
  show ?thesis
    using wakeup_filed [OF assms(1) L, of ch] unfolding mlfq_ok_def by (cases "first_sleeper s L ch") auto
qed

lemma kill_ok:
  assumes "quiet s" and "mlfq_ok s"
  shows "\<exists>r t. kill_p3 pid s = Done r t \<and> quiet t \<and> mlfq_ok t"
  using assms kill_filed [OF assms(1)] unfolding mlfq_ok_def by blast

lemma setpriority_ok:
  assumes "quiet s" and "mlfq_ok s" and "unat pr \<le> MAXPRIO"
  shows "\<exists>r t. setpriority pid pr s = Done r t \<and> quiet t \<and> mlfq_ok t"
  using assms(2) setpriority_filed [OF assms(1) _ assms(3)] unfolding mlfq_ok_def by blast

lemma promoteAll_ok: "mlfq_ok s \<Longrightarrow> \<exists>t. promoteAll s = Done () t \<and> mlfq_ok t"
  using promoteAll_filed unfolding mlfq_ok_def by blast

section \<open>Properties\<close>

text \<open>
  C20: the linked lists of process control blocks implement lists.  In the representation
  of twelve disjoint lists, \<open>stateListRemove\<close> takes a member out of its list, reports
  an absent process with \<open>-1\<close> and changes nothing then, and \<open>stateListAdd\<close> appends a
  process that is in no list; the other lists and everything but the links stay as they are.
\<close>

theorem state_lists_refine:
  assumes "lists_are s L" and "is_list l" and "p < NPROC"
  shows "if p \<in> set (L l) then
      \<exists>t. stateListRemove (head_of l) (tail_of l) p s = Done 0 t \<and> lists_are t (L(l := remove1 p (L l))) \<and>
        map unlinked (ptable t) = map unlinked (ptable s)
    else
      stateListRemove (head_of l) (tail_of l) p s = Done (- 1) s \<and>
      ((\<forall>m. is_list m \<longrightarrow> p \<notin> set (L m)) \<longrightarrow>
        (\<exists>t. stateListAdd (head_of l) (tail_of l) p s = Done 0 t \<and> lists_are t (L(l := L l @ [p])) \<and>
          map unlinked (ptable t) = map unlinked (ptable s)))"
proof -
  have r: "rep s (head_of l) (tail_of l) (L l)" using assms(1,2) by (simp add: lists_are_def)
  show ?thesis
  proof (cases "p \<in> set (L l)")
    case True
    then obtain ps pl where "stateListRemove (head_of l) (tail_of l) p s = Done 0 (s\<lparr>ptable := ps, pLists := pl\<rparr>)"
        "lists_are (s\<lparr>ptable := ps, pLists := pl\<rparr>) (L(l := remove1 p (L l)))" "map unlinked ps = map unlinked (ptable s)"
      using remove_lists [OF assms(1,2)] by blast
    then show ?thesis using True by (simp del: fun_upd_apply)
  next
    case False
    have "\<exists>t. stateListAdd (head_of l) (tail_of l) p s = Done 0 t \<and> lists_are t (L(l := L l @ [p])) \<and>
        map unlinked (ptable t) = map unlinked (ptable s)" if new: "\<forall>m. is_list m \<longrightarrow> p \<notin> set (L m)"
    proof -
      obtain ps pl where "stateListAdd (head_of l) (tail_of l) p s = Done 0 (s\<lparr>ptable := ps, pLists := pl\<rparr>)"
          "lists_are (s\<lparr>ptable := ps, pLists := pl\<rparr>) (L(l := L l @ [p]))" "map unlinked ps = map unlinked (ptable s)"
        using add_lists [OF assms] new by blast
      then show ?thesis by simp
    qed
    then show ?thesis using False stateListRemove_missing [OF r False] by simp
  qed
qed

text \<open>
  C22: under the invariant no list operation fails and no walk over a list runs away.
  The running process can always yield and go to sleep, and \<open>wakeup\<close>, \<open>kill\<close>, \<open>setpriority\<close>
  with a valid priority and \<open>promoteAll\<close> always return, each with the invariant again.
\<close>

theorem mlfq_operations_total:
  assumes "quiet s" and "mlfq_ok s" and "curproc s = Some i" and "i < NPROC" and "p_state (ptable s ! i) = RUNNING"
  shows "(\<exists>t. yield_p3 s = Switch t \<and> mlfq_ok t) \<and>
    (\<exists>t. (sleep_p3 ch None :: unit kfun) s = Switch t \<and> mlfq_ok t) \<and>
    (\<exists>t. (sleep_p3 ch (Some lk) :: unit kfun) (acquired lk s) = Switch t \<and> mlfq_ok t) \<and>
    (\<exists>t. wakeup_p3 ch s = Done () t \<and> quiet t \<and> mlfq_ok t) \<and>
    (\<exists>r t. kill_p3 pid s = Done r t \<and> quiet t \<and> mlfq_ok t) \<and>
    (unat pr \<le> MAXPRIO \<longrightarrow> (\<exists>r t. setpriority pid pr s = Done r t \<and> quiet t \<and> mlfq_ok t)) \<and>
    (\<exists>t. promoteAll s = Done () t \<and> mlfq_ok t)"
proof -
  let ?u = "acquired lk s"
  have u: "sleeper (Some lk) s ?u" "mlfq_ok ?u" "curproc ?u = Some i" "p_state (ptable ?u ! i) = RUNNING" "sleeper None s s"
    using assms mlfq_ok_cong [of ?u s] by (simp_all add: sleeper_def)
  show ?thesis
    using yield_ok [OF assms] sleep_ok [OF u(5) assms(2-5)] sleep_ok [OF u(1-3) assms(4) u(4)] wakeup_ok [OF assms(1,2)]
      kill_ok [OF assms(1,2)] setpriority_ok [OF assms(1,2)] promoteAll_ok [OF assms(2)] by blast
qed

text \<open>
  C23: with the feedback queues \<open>wakeup\<close> wakes one process only.  The walk over the sleep
  list follows the link of the process it has just moved, which \<open>stateListAdd\<close> has
  cleared, so it ends at the first sleeper on the channel; every other process keeps its
  state, the others that sleep on the same channel included.
\<close>

theorem wakeup_p3_wakes_one:
  assumes "quiet s" and "filed s L" and "first_sleeper s L ch = Some p"
  shows "\<exists>t. wakeup_p3 ch s = Done () t \<and> p_state (ptable t ! p) = RUNNABLE \<and>
    (\<forall>x < NPROC. x \<noteq> p \<longrightarrow> p_state (ptable t ! x) = p_state (ptable s ! x) \<and> p_chan (ptable t ! x) = p_chan (ptable s ! x))"
proof -
  obtain t where t: "wakeup_p3 ch s = Done () t"
      "map unlinked (ptable t) = map unlinked (upd_nth p (\<lambda>x. x\<lparr>p_state := RUNNABLE\<rparr>) (ptable s))"
    using wakeup_filed [OF assms(1,2), of ch] assms(3) by auto
  have len: "length (ptable s) = NPROC" using filedD(2) [OF assms(2)] .
  have e: "unlinked (ptable t ! x) = unlinked (upd_nth p (\<lambda>x. x\<lparr>p_state := RUNNABLE\<rparr>) (ptable s) ! x)" if "x < NPROC" for x
    using unlinked_nth [OF t(2), of x] that len by simp
  have p: "p < NPROC"
    using find_member [OF assms(3) [unfolded first_sleeper_def]] filed_home [OF assms(2), of Sleep p] by simp
  have "p_state (ptable t ! p) = RUNNABLE" using arg_cong [OF e [OF p], of p_state] len p by simp
  moreover have "p_state (ptable t ! x) = p_state (ptable s ! x) \<and> p_chan (ptable t ! x) = p_chan (ptable s ! x)"
    if "x < NPROC" "x \<noteq> p" for x
    using arg_cong [OF e [OF that(1)], of p_state] arg_cong [OF e [OF that(1)], of p_chan] len that by simp
  ultimately show ?thesis using t(1) by blast
qed

lemma add_past_the_end:
  assumes "pLists v free_hd = Some f"
  shows "\<exists>ps pl. stateListAdd (ready_hd (MAXPRIO + 1)) (ready_tl (MAXPRIO + 1)) p v = Done 0 (v\<lparr>ptable := ps, pLists := pl\<rparr>) \<and>
    pl free_hd = Some p \<and> map unlinked ps = map unlinked (ptable v)"
proof (cases "pLists v 7")
  case None
  then show ?thesis
    by (intro exI [of _ "upd_nth p (\<lambda>x. x\<lparr>p_next := None\<rparr>) (ptable v)"] exI [of _ "(pLists v)(7 := Some p, 14 := Some p)"])
      (simp add: stateListAdd_def run_simps cell_def set_cell_def set_nextof_def modify_def ready_hd_def ready_tl_def)
next
  case (Some g)
  then show ?thesis
    using assms
    by (intro exI [of _ "upd_nth p (\<lambda>x. x\<lparr>p_next := None\<rparr>) (upd_nth f (\<lambda>x. x\<lparr>p_next := Some p\<rparr>) (ptable v))"]
        exI [of _ "(pLists v)(14 := Some p)"])
      (simp add: stateListAdd_def run_simps cell_def set_cell_def set_nextof_def modify_def ready_hd_def ready_tl_def)
qed

lemma find_cong: "(\<And>x. x \<in> set xs \<Longrightarrow> P x = Q x) \<Longrightarrow> find P xs = find Q xs"
  by (induction xs) auto

lemma ready_prio_ok:
  assumes "filed s L" and "x \<in> set (concat (map L (map Ready [0 ..< MAXPRIO + 1])))"
  shows "prio_ok (ptable s ! x)"
proof -
  obtain j where "j < 7" "x \<in> set (L (Ready j))" using assms(2) by auto
  then show ?thesis using filed_home [OF assms(1), of "Ready j" x] filedD(1) [OF assms(1), of x] by simp
qed

text \<open>
  C24: \<open>setpriority\<close> accepts the priority \<open>MAXPRIO + 1\<close>, for which there is no queue.
  The process is then filed in \<open>ready[MAXPRIO + 1]\<close>, which is \<open>readyTail[0]\<close>, with the
  tail \<open>readyTail[MAXPRIO + 1]\<close>, which is the head of the free list: afterwards the
  first free process is this runnable one, and the invariant of the queues is lost.
\<close>

theorem setpriority_overruns_queues:
  assumes "quiet s" and "filed s L" and "L Free \<noteq> []" and "0 \<le>s pid"
    and "with_pid s L (map Ready [0 ..< MAXPRIO + 1]) pid = Some p"
  shows "\<exists>t. setpriority pid (of_nat (MAXPRIO + 1)) s = Done 0 t \<and> pLists t free_hd = Some p \<and>
    p_state (ptable t ! p) = RUNNABLE \<and> \<not> mlfq_ok t"
proof -
  let ?u = "acquired PtableLock s" and ?pr = "of_nat (MAXPRIO + 1) :: 32 word" and ?rs = "map Ready [0 ..< MAXPRIO + 1]"
  let ?P = "\<lambda>x. p_pid x = pid \<and> ?pr \<noteq> p_priority x"
  have u: "filed ?u L" using assms by simp
  have same: "?P (ptable ?u ! x) = (p_pid (ptable s ! x) = pid)" if "x \<in> set (concat (map L ?rs))" for x
    using ready_prio_ok [OF assms(2) that] by (auto simp: prio_ok_def)
  then have "find (\<lambda>x. ?P (ptable ?u ! x)) (concat (map L ?rs)) = Some p"
    using assms(5) find_cong [of "concat (map L ?rs)" "\<lambda>x. ?P (ptable ?u ! x)" "\<lambda>x. p_pid (ptable s ! x) = pid", OF same]
    by (simp only: with_pid_def)
  then have s1: "search_lists ready_heads ?P ?u = Done (Some p) ?u"
    unfolding ready_heads_eq using search_lists_find [OF u, of ?rs ?P] by (simp add: list_all_iff del: upt_rec_numeral)
  obtain k where "k < 7" and pk: "p \<in> set (L (Ready k))"
    using find_member [OF assms(5) [unfolded with_pid_def]] by auto
  then have k: "is_list (Ready k)" by simp
  have hp: "home (ptable s ! p) = Ready k" "p < NPROC" using filed_home [OF assms(2) k pk] by auto
  have len: "length (ptable s) = NPROC" using filedD(2) [OF assms(2)] .
  obtain ps pl where r: "stateListRemove (ready_hd k) (ready_tl k) p ?u = Done 0 (?u\<lparr>ptable := ps, pLists := pl\<rparr>)"
      "filed_but {p} (?u\<lparr>ptable := ps, pLists := pl\<rparr>) (L(Ready k := remove1 p (L (Ready k))))" "map unlinked ps = map unlinked (ptable s)"
    using filed_remove [OF filed_mono [OF u, of "{p}"] k pk] by auto
  let ?v = "?u\<lparr>ptable := upd_nth p (\<lambda>x. x\<lparr>p_priority := ?pr\<rparr>) ps, pLists := pl\<rparr>"
  have "rep (?u\<lparr>ptable := ps, pLists := pl\<rparr>) free_hd free_tl (L Free)" using filed_rep [OF r(2), of Free] by simp
  then obtain f where f: "pLists ?v free_hd = Some f" using assms(3) by (cases "L Free") (auto simp: rep_def)
  obtain ps' pl' where a: "stateListAdd (ready_hd (MAXPRIO + 1)) (ready_tl (MAXPRIO + 1)) p ?v = Done 0 (?v\<lparr>ptable := ps', pLists := pl'\<rparr>)"
      "pl' free_hd = Some p" "map unlinked ps' = map unlinked (ptable ?v)"
    using add_past_the_end [of ?v f p] f by blast
  let ?ps = "upd_nth p (\<lambda>x. x\<lparr>p_budget := BUDGET * (p_priority x + 1)\<rparr>) ps'"
  let ?t = "?u\<lparr>ptable := ?ps, pLists := pl', locks := locks s, kcpu := kcpu (cs s)\<rparr>"
  have lp: "length ps = NPROC" "length ps' = NPROC" using arg_cong [OF r(3), of length] arg_cong [OF a(3), of length] len by simp_all
  have e: "unlinked (ps' ! p) = unlinked ((ps ! p)\<lparr>p_priority := ?pr\<rparr>)" "unlinked (ps ! p) = unlinked (ptable s ! p)"
    using unlinked_nth [OF a(3), of p] unlinked_nth [OF r(3), of p] lp len hp(2) by simp_all
  have st: "p_state (?ps ! p) = RUNNABLE" "p_priority (?ps ! p) = ?pr"
    using arg_cong [OF e(1), of p_state] arg_cong [OF e(2), of p_state] arg_cong [OF e(1), of p_priority] home_Ready [OF hp(1)] lp hp(2)
    by simp_all
  have "\<not> (pid <s 0 \<or> ?pr <s 0 \<or> of_nat (MAXPRIO + 1) <s ?pr)" using assms(4) by (simp add: word_sless_alt word_sle_eq)
  then have "setpriority pid ?pr s = Done 0 ?t"
    using s1 r(1) a(1) home_Ready [OF hp(1)] assms(1)
    by (simp add: setpriority_def run_simps acquire_quiet Let_def refill_def release_inside [of PtableLock s])
  moreover have "\<not> mlfq_ok ?t"
  proof
    assume "mlfq_ok ?t"
    then obtain M where "filed ?t M" by (auto simp: mlfq_ok_def)
    then have "prio_ok (ptable ?t ! p)" using filedD(1) [OF _ hp(2)] by blast
    then show False using st(2) by (simp add: prio_ok_def)
  qed
  ultimately show ?thesis using a(2) st(1) by (intro exI [of _ ?t]) simp
qed

section \<open>An example\<close>

text \<open>Process 0 runs, 1 and 2 sleep on the console, 3 is ready with priority 1, the others are free.\<close>

definition example_proc :: "nat \<Rightarrow> proc" where
  "example_proc i =
     (if i = 0 then zero_proc\<lparr>p_state := RUNNING, p_pid := 1\<rparr>
      else if i = 1 then zero_proc\<lparr>p_state := SLEEPING, p_pid := 2, p_chan := Some ChanInput, p_next := Some 2\<rparr>
      else if i = 2 then zero_proc\<lparr>p_state := SLEEPING, p_pid := 3, p_chan := Some ChanInput\<rparr>
      else if i = 3 then zero_proc\<lparr>p_state := RUNNABLE, p_pid := 4, p_priority := 1\<rparr>
      else zero_proc\<lparr>p_next := if i < 63 then Some (Suc i) else None\<rparr>)"

definition example_cells :: "nat \<Rightarrow> nat option" where
  "example_cells = map_of [(1, 3), (8, 3), (14, 4), (15, 63), (16, 1), (17, 2), (20, 0), (21, 0)]"

definition example_mlfq :: kstate where
  "example_mlfq = kzero\<lparr>ptable := map example_proc [0 ..< NPROC], pLists := example_cells, curproc := Some 0\<rparr>"

fun example_lists :: "plist \<Rightarrow> nat list" where
  "example_lists (Ready i) = (if i = 1 then [3] else [])"
| "example_lists Free = [4 ..< 64]"
| "example_lists Sleep = [1, 2]"
| "example_lists Zombie = []"
| "example_lists Running = [0]"
| "example_lists Embryo = []"

lemma example_nth: "i < NPROC \<Longrightarrow> ptable example_mlfq ! i = example_proc i"
  by (simp add: example_mlfq_def del: upt_rec_numeral)

lemma example_free_chain:
  "4 \<le> k \<Longrightarrow> k < 64 \<Longrightarrow> chain (ptable example_mlfq) (Some k) [k ..< 64]"
proof (induction "63 - k" arbitrary: k)
  case 0
  then have k: "k = 63" by simp
  show ?case by (simp add: k upt_rec example_nth example_proc_def zero_proc_def del: upt_rec_numeral)
next
  case (Suc n)
  then have "chain (ptable example_mlfq) (Some (Suc k)) [Suc k ..< 64]" by auto
  moreover have "p_next (ptable example_mlfq ! k) = Some (Suc k)"
    using Suc by (simp add: example_nth example_proc_def)
  ultimately show ?case using Suc by (simp add: upt_conv_Cons del: upt_rec_numeral)
qed

lemma example_rep: "is_list l \<Longrightarrow> rep example_mlfq (head_of l) (tail_of l) (example_lists l)"
proof (cases l)
  case Free
  then show ?thesis
    using example_free_chain [of 4] by (auto simp: rep_def example_mlfq_def example_cells_def simp del: upt_rec_numeral)
qed (auto simp: rep_def example_nth example_proc_def zero_proc_def, auto simp: example_mlfq_def example_cells_def ready_hd_def ready_tl_def)

lemma example_filed: "filed example_mlfq example_lists"
proof -
  have "set (example_lists l) \<inter> set (example_lists m) = {}" if "l \<noteq> m" for l m
    using that by (cases l; cases m) (auto simp del: upt_rec_numeral)
  moreover have "ptable_ok example_mlfq" by (simp add: example_mlfq_def ptable_ok_def del: upt_rec_numeral)
  ultimately have "lists_are example_mlfq example_lists" using example_rep by (simp add: lists_are_def)
  moreover have "prio_ok (ptable example_mlfq ! x) \<and> x \<in> set (example_lists (home (ptable example_mlfq ! x)))" if "x < NPROC" for x
    using that by (auto simp: example_nth example_proc_def zero_proc_def home_def prio_ok_def simp del: upt_rec_numeral)
  ultimately show ?thesis by (simp add: filed_but_def)
qed

lemma example_mlfq:
  "quiet example_mlfq" "mlfq_ok example_mlfq" "curproc example_mlfq = Some 0" "(0 :: nat) < NPROC"
  "p_state (ptable example_mlfq ! 0) = RUNNING" "lists_are example_mlfq example_lists"
proof -
  show "quiet example_mlfq" by (simp add: example_mlfq_def)
  show "mlfq_ok example_mlfq" "lists_are example_mlfq example_lists"
    using example_filed by (auto simp: mlfq_ok_def filed_but_def)
qed (simp_all add: example_nth example_proc_def, simp add: example_mlfq_def)

theorem state_lists_refine_witness:
  "lists_are example_mlfq example_lists \<and> is_list Sleep \<and> (1 :: nat) < NPROC \<and>
   (\<exists>t. stateListRemove sleep_hd sleep_tl 1 example_mlfq = Done 0 t \<and> lists_are t (example_lists(Sleep := [2])))"
  using state_lists_refine [OF example_mlfq(6), of Sleep 1] example_mlfq(6) by auto

theorem mlfq_operations_total_witness:
  "quiet example_mlfq \<and> mlfq_ok example_mlfq \<and> curproc example_mlfq = Some 0 \<and>
   (\<exists>t. yield_p3 example_mlfq = Switch t \<and> mlfq_ok t) \<and>
   (\<exists>r t. setpriority 4 6 example_mlfq = Done r t \<and> mlfq_ok t)"
  using mlfq_operations_total [OF example_mlfq(1-5), of ChanInput LogLock 4 6] example_mlfq(1-3) by auto

theorem wakeup_p3_wakes_one_witness:
  "quiet example_mlfq \<and> filed example_mlfq example_lists \<and> first_sleeper example_mlfq example_lists ChanInput = Some 1 \<and>
   (\<exists>t. wakeup_p3 ChanInput example_mlfq = Done () t \<and> p_state (ptable t ! 1) = RUNNABLE \<and>
      p_state (ptable t ! 2) = SLEEPING \<and> p_chan (ptable t ! 2) = Some ChanInput)"
proof -
  have f: "first_sleeper example_mlfq example_lists ChanInput = Some 1"
    by (simp add: first_sleeper_def example_nth example_proc_def)
  show ?thesis
    using wakeup_p3_wakes_one [OF example_mlfq(1) example_filed f] f example_mlfq(1) example_filed
    by (fastforce simp: example_nth example_proc_def)
qed

theorem setpriority_overruns_queues_witness:
  "quiet example_mlfq \<and> filed example_mlfq example_lists \<and> example_lists Free \<noteq> [] \<and>
   with_pid example_mlfq example_lists (map Ready [0 ..< MAXPRIO + 1]) 4 = Some 3 \<and>
   (\<exists>t. setpriority 4 7 example_mlfq = Done 0 t \<and> pLists t free_hd = Some 3 \<and> \<not> mlfq_ok t)"
proof -
  have f: "with_pid example_mlfq example_lists (map Ready [0 ..< MAXPRIO + 1]) 4 = Some 3"
    by (simp add: with_pid_def example_nth example_proc_def zero_proc_def upt_rec)
  have n: "example_lists Free \<noteq> []" by simp
  show ?thesis
    using setpriority_overruns_queues [OF example_mlfq(1) example_filed n _ f] f n example_mlfq(1) example_filed
    by (auto simp: word_sle_eq)
qed

end
