(* ===== verification/Mlfq_Steps.thy ===== *)
theory Mlfq_Steps
  imports Mlfq_Lists
begin

text \<open>
  The life of a process among the feedback queues: \<open>allocproc\<close>, \<open>userinit\<close>, \<open>fork\<close>,
  \<open>exit\<close> and \<open>wait\<close> as \<open>CS333_P3P4\<close> selects them keep every process in the list of its
  state, and with the operations of \<open>Mlfq_Lists\<close> they make up the reachable states of
  the queues.  What these operations call in the memory, file and inode layers leaves the
  lists alone.
\<close>

section \<open>What the lists depend on\<close>

text \<open>
  The part of the state the invariant is about: the list cells and, of every process, its
  link, state and priority.
\<close>

definition filing :: "kstate \<Rightarrow> (nat \<Rightarrow> nat option) \<times> (nat option \<times> procstate \<times> 32 word) list" where
  "filing s = (pLists s, map (\<lambda>p. (p_next p, p_state p, p_priority p)) (ptable s))"

lemma filing_acquired [simp]: "filing (acquired lk s) = filing s" "filing (released lk s) = filing s"
  by (simp_all add: filing_def)

lemma filing_nth:
  assumes "filing t = filing s" and "x < length (ptable s)"
  shows "p_next (ptable t ! x) = p_next (ptable s ! x) \<and> p_state (ptable t ! x) = p_state (ptable s ! x) \<and>
    p_priority (ptable t ! x) = p_priority (ptable s ! x)"
proof -
  have m: "map (\<lambda>p. (p_next p, p_state p, p_priority p)) (ptable t) = map (\<lambda>p. (p_next p, p_state p, p_priority p)) (ptable s)"
    using assms(1) by (simp add: filing_def)
  have "length (ptable t) = length (ptable s)" using arg_cong [OF m, of length] by simp
  then show ?thesis using arg_cong [OF m, of "\<lambda>ps. ps ! x"] assms(2) by simp
qed

lemma filing_length: "filing t = filing s \<Longrightarrow> length (ptable t) = length (ptable s)"
  by (auto simp: filing_def dest: map_eq_imp_length_eq)

lemma filed_filing_imp:
  assumes "filing t = filing s" and "filed_but A s L"
  shows "filed_but A t L"
proof -
  have len: "length (ptable s) = NPROC" "length (ptable t) = NPROC"
    using assms(2) filing_length [OF assms(1)] by (simp_all add: filed_but_def lists_are_def ptable_ok_def)
  have "lists_are t L"
    by (rule lists_are_cong [of _ s])
      (use assms len filing_nth [OF assms(1)] in \<open>simp_all add: filed_but_def filing_def\<close>)
  moreover have "home (ptable t ! x) = home (ptable s ! x) \<and> prio_ok (ptable t ! x) = prio_ok (ptable s ! x)" if "x < NPROC" for x
    using filing_nth [OF assms(1), of x] that len by (simp add: home_def prio_ok_def)
  ultimately show ?thesis using assms(2) by (simp add: filed_but_def)
qed

lemma mlfq_ok_filing: "filing t = filing s \<Longrightarrow> mlfq_ok s \<Longrightarrow> mlfq_ok t"
  using filed_filing_imp [of t s "{}"] by (auto simp: mlfq_ok_def)

text \<open>Memory, files and inodes: what \<open>fork\<close> and \<open>wait\<close> call leaves the lists alone.\<close>

lemma keeps_spin [intro]: "keeps f spin"
  by (simp add: keeps_def wp_def spin_def)

lemma keeps_setp:
  assumes "\<And>x. p_next (f x) = p_next x \<and> p_state (f x) = p_state x \<and> p_priority (f x) = p_priority x"
  shows "keeps filing (setp i f)"
  unfolding setp_def
proof (rule keeps_modify)
  fix s :: kstate
  show "filing (s\<lparr>ptable := upd_nth i f (ptable s)\<rparr>) = filing s"
    using map_upd_nth_same [of "\<lambda>p. (p_next p, p_state p, p_priority p)" f i "ptable s"] assms by (simp add: filing_def)
qed

lemma keeps_getp [intro]: "keeps f (getp i)"
  by (simp add: getp_def keeps_gets)

lemma keeps_myproc [intro]: "keeps f myproc"
  by (auto simp: myproc_def)

lemma keeps_pg [intro]: "keeps filing (modify (\<lambda>s. s\<lparr>pg := g s\<rparr>))"
  by (rule keeps_modify) (simp add: filing_def)

lemma keeps_pages [intro]: "keeps filing (entry p k)" "keeps filing (set_entry p k v)" "keeps filing (fill_page p c)"
    "keeps filing (set_page p d)"
  unfolding entry_def set_entry_def fill_page_def set_page_def by auto

lemma keeps_kalloc [intro]: "keeps filing kalloc"
  unfolding kalloc_def by (intro keeps_bnd keeps_sq keeps_whenk keeps_gets keeps_ret keeps_acquire keeps_release keeps_modify)
    (simp_all add: filing_def)

lemma keeps_kfree [intro]: "keeps filing (kfree v)"
  unfolding kfree_def
  by (intro keeps_bnd keeps_sq keeps_if keeps_panic keeps_whenk keeps_gets keeps_ret keeps_acquire keeps_release keeps_modify keeps_pages)
    (simp_all add: filing_def)

lemma keeps_walkpgdir [intro]: "keeps filing (walkpgdir d va a)"
  unfolding walkpgdir_def by (intro keeps_bnd keeps_sq keeps_if keeps_ret keeps_pages keeps_kalloc)

lemma keeps_case_nat [intro]: "keeps f m \<Longrightarrow> (\<And>k. n = Suc k \<Longrightarrow> keeps f (g k)) \<Longrightarrow> keeps f (case n of 0 \<Rightarrow> m | Suc k \<Rightarrow> g k)"
  by (cases n) simp_all

lemma keeps_mappages_loop: "keeps filing (mappages_loop n d a l pa perm)"
proof (induction n d a l pa perm rule: mappages_loop.induct)
  case (1 n d a l pa perm)
  then show ?case
    unfolding mappages_loop.simps [of n]
    by (intro keeps_bnd keeps_sq keeps_if keeps_ret keeps_pages keeps_walkpgdir keeps_case_option keeps_case_prod keeps_panic keeps_case_nat
        keeps_spin)
qed

lemma keeps_mappages [intro]: "keeps filing (mappages d va n pa perm)"
  unfolding mappages_def Let_def by (rule keeps_mappages_loop)

lemma keeps_kmap_loop: "keeps filing (kmap_loop d ks)"
  by (induction ks rule: kmap_loop.induct) (auto intro!: keeps_bnd keeps_ret keeps_if keeps_mappages)

lemma keeps_setupkvm [intro]: "keeps filing setupkvm"
  unfolding setupkvm_def by (intro keeps_bnd keeps_sq keeps_if keeps_ret keeps_pages keeps_kalloc keeps_panic keeps_gets keeps_kmap_loop)

lemma keeps_deallocuvm_loop: "keeps filing (deallocuvm_loop n d a old)"
proof (induction n d a old rule: deallocuvm_loop.induct)
  case (1 n d a old)
  then show ?case
    unfolding deallocuvm_loop.simps [of n]
    by (intro keeps_bnd keeps_sq keeps_if keeps_ret keeps_pages keeps_walkpgdir keeps_case_option keeps_case_prod keeps_panic keeps_case_nat
        keeps_spin keeps_whenk keeps_kfree) auto
qed

lemma keeps_deallocuvm [intro]: "keeps filing (deallocuvm d old new)"
  unfolding deallocuvm_def by (intro keeps_sq keeps_if keeps_ret keeps_deallocuvm_loop)

lemma keeps_freevm [intro]: "keeps filing (freevm d)"
  unfolding freevm_def
  by (intro keeps_bnd keeps_sq keeps_if keeps_panic keeps_deallocuvm keeps_forM keeps_whenk keeps_pages keeps_kfree)

lemma keeps_copyuvm_loop: "keeps filing (copyuvm_loop n d pgdir m i)"
proof (induction n d pgdir m i rule: copyuvm_loop.induct)
  case (1 n d pgdir m i)
  then show ?case
    unfolding copyuvm_loop.simps [of n]
    by (intro keeps_bnd keeps_sq keeps_if keeps_ret keeps_pages keeps_walkpgdir keeps_case_option keeps_case_prod keeps_panic keeps_case_nat
        keeps_spin keeps_kalloc keeps_freevm keeps_pg keeps_mappages)
qed

lemma keeps_copyuvm [intro]: "keeps filing (copyuvm d n)"
  unfolding copyuvm_def by (intro keeps_bnd keeps_if keeps_ret keeps_setupkvm keeps_copyuvm_loop)

lemma keeps_dup [intro]: "keeps filing (filedup i)" "keeps filing (idup i)"
  unfolding filedup_def idup_def getf_def setf_def seti_def
  by (intro keeps_bnd keeps_sq keeps_if keeps_ret keeps_panic keeps_gets keeps_acquire keeps_release keeps_modify; simp add: filing_def)+

lemma keeps_dup_files [intro]: "keeps filing (dup_files i np)"
  unfolding dup_files_def
  by (intro keeps_forM keeps_bnd keeps_getp keeps_case_option keeps_ret keeps_dup keeps_setp) simp

section \<open>A process among the lists\<close>

text \<open>
  The process \<open>p\<close> has the state \<open>st\<close> and every process is in its list; and the moment
  in between, when \<open>p\<close> has been given the state \<open>st\<close> but is still in the list \<open>a\<close>.
\<close>

definition stands :: "nat \<Rightarrow> procstate \<Rightarrow> kstate \<Rightarrow> bool" where
  "stands p st s \<longleftrightarrow> mlfq_ok s \<and> p < NPROC \<and> p_state (ptable s ! p) = st"

definition pends :: "nat \<Rightarrow> plist \<Rightarrow> procstate \<Rightarrow> kstate \<Rightarrow> bool" where
  "pends p a st s \<longleftrightarrow> (\<exists>L. filed_but {p} s L \<and> p \<in> set (L a)) \<and> is_list a \<and> p < NPROC \<and> p_state (ptable s ! p) = st"

lemma mlfq_length: "mlfq_ok s \<Longrightarrow> length (ptable s) = NPROC"
  using filedD(2) by (auto simp: mlfq_ok_def)

lemma mlfq_prio: "mlfq_ok s \<Longrightarrow> x < NPROC \<Longrightarrow> prio_ok (ptable s ! x)"
  using filedD(1) by (auto simp: mlfq_ok_def)

lemma pends_length: "pends p a st s \<Longrightarrow> length (ptable s) = NPROC"
  by (auto simp: pends_def filed_but_def lists_are_def ptable_ok_def)

lemma stands_filing: "stands p st s \<Longrightarrow> filing t = filing s \<Longrightarrow> stands p st t"
  using mlfq_ok_filing [of t s] filing_nth [of t s p] mlfq_length [of s] by (simp add: stands_def)

lemma pends_filing: "pends p a st s \<Longrightarrow> filing t = filing s \<Longrightarrow> pends p a st t"
  using filed_filing_imp [of t s "{p}"] filing_nth [of t s p] pends_length [of p a st s] unfolding pends_def by auto

lemma stands_in: "filed s L \<Longrightarrow> p < NPROC \<Longrightarrow> p \<in> set (L (home (ptable s ! p))) \<and> is_list (home (ptable s ! p))"
  using filedD(1) is_list_home by blast

text \<open>A new state, with the priority as it is.\<close>

lemma stands_pends:
  assumes "stands p st s" and "home (ptable s ! p) = a" and "\<And>x. f x = g x\<lparr>p_state := st'\<rparr>"
    and "\<And>x. p_next (g x) = p_next x \<and> p_priority (g x) = p_priority x"
  shows "pends p a st' (s\<lparr>ptable := upd_nth p f (ptable s)\<rparr>)"
proof -
  have p: "mlfq_ok s" "p < NPROC" using assms(1) by (simp_all add: stands_def)
  then obtain L where L: "filed s L" by (auto simp: mlfq_ok_def)
  have "prio_ok (f (ptable s ! p))" using mlfq_prio [OF p] assms(3,4) by (simp add: prio_ok_def)
  then have "filed_but {p} (s\<lparr>ptable := upd_nth p f (ptable s)\<rparr>) L" using filed_setp [OF L, of f p] assms(3,4) by simp
  then show ?thesis
    using stands_in [OF L p(2)] assms(2,3) p mlfq_length [OF p(1)] by (auto simp: pends_def)
qed

text \<open>Other fields of a process that is not ready.\<close>

lemma stands_setp:
  assumes "stands p st s" and "st \<noteq> RUNNABLE" and "\<And>x. p_next (f x) = p_next x \<and> p_state (f x) = p_state x"
    and "prio_ok (f (ptable s ! p))"
  shows "stands p st (s\<lparr>ptable := upd_nth p f (ptable s)\<rparr>)"
proof -
  have p: "mlfq_ok s" "p < NPROC" "p_state (ptable s ! p) = st" using assms(1) by (simp_all add: stands_def)
  then obtain L where L: "filed s L" by (auto simp: mlfq_ok_def)
  have "home (f (ptable s ! p)) = home (ptable s ! p)" using assms(2,3) p(3) by (cases st) (auto simp: home_def)
  then have "filed (s\<lparr>ptable := upd_nth p f (ptable s)\<rparr>) L" using filed_setp_same [OF L, of f p] assms(3,4) by simp
  then show ?thesis using assms(3) p mlfq_length [OF p(1)] by (auto simp: stands_def mlfq_ok_def)
qed

text \<open>The move that follows the new state.\<close>

lemma pends_move:
  assumes "pends p a st s" and "b = home (ptable s ! p)"
  shows "\<exists>ps pl. move (head_of a) (tail_of a) e1 (head_of b) (tail_of b) e2 p s = Done () (s\<lparr>ptable := ps, pLists := pl\<rparr>) \<and>
    stands p st (s\<lparr>ptable := ps, pLists := pl\<rparr>) \<and> map unlinked ps = map unlinked (ptable s)"
proof -
  obtain L where L: "filed_but {p} s L" "p \<in> set (L a)" "is_list a" "p < NPROC" "p_state (ptable s ! p) = st"
    using assms(1) by (auto simp: pends_def)
  obtain ps pl where m: "move (head_of a) (tail_of a) e1 (head_of b) (tail_of b) e2 p s = Done () (s\<lparr>ptable := ps, pLists := pl\<rparr>)"
      "filed (s\<lparr>ptable := ps, pLists := pl\<rparr>) (moved p a b L)" "map unlinked ps = map unlinked (ptable s)"
    using filed_move [OF L(1,3,2) assms(2)] by blast
  have "unlinked (ps ! p) = unlinked (ptable s ! p)" using unlinked_nth [OF m(3), of p] L(4) pends_length [OF assms(1)] by simp
  then have "p_state (ps ! p) = st" using L(5) unlinked_fields by metis
  then show ?thesis using m L(4) by (auto simp: stands_def mlfq_ok_def)
qed

section \<open>Creating and reaping processes\<close>

lemma wp_keeps: "keeps filing m \<Longrightarrow> (\<And>a t. filing t = filing s \<Longrightarrow> Q a t) \<Longrightarrow> wp m Q s"
  by (rule wp_mono [OF keeps_wp])

lemma wp_stands:
  assumes "keeps filing m" and "stands p st s" and "\<And>a t. stands p st t \<Longrightarrow> Q a t"
  shows "wp m Q s"
  by (rule wp_keeps [OF assms(1)]) (rule assms(3) [OF stands_filing [OF assms(2)]])

lemma wp_pends:
  assumes "keeps filing m" and "pends p a st s" and "\<And>x t. pends p a st t \<Longrightarrow> Q x t"
  shows "wp m Q s"
  by (rule wp_keeps [OF assms(1)]) (rule assms(3) [OF pends_filing [OF assms(2)]])

lemma wp_restate:
  assumes "stands p st s" and "home (ptable s ! p) = a" and "\<And>x. f x = g x\<lparr>p_state := st'\<rparr>"
    and "\<And>x. p_next (g x) = p_next x \<and> p_priority (g x) = p_priority x"
    and "\<And>t. pends p a st' t \<Longrightarrow> Q () t"
  shows "wp (setp p f) Q s"
  using stands_pends [OF assms(1-4)] assms(5) by (simp add: wp_def setp_Done)

lemma wp_refile:
  assumes "pends p a st s" and "b = home (ptable s ! p)" and "\<And>t. stands p st t \<Longrightarrow> Q () t"
  shows "wp (move (head_of a) (tail_of a) e1 (head_of b) (tail_of b) e2 p) Q s"
  using pends_move [OF assms(1,2), of e1 e2] assms(3) by (auto simp: wp_def)

lemma wp_assertState: "stands p st s \<Longrightarrow> Q () s \<Longrightarrow> wp (assertState p st') Q s"
  by (simp add: assertState_def wp_def bnd_def getp_Done panic_def ret_def)

lemma keeps_filing_locks [intro]: "keeps filing (acquire lk)" "keeps filing (release lk)"
  by (auto intro!: keeps_acquire keeps_release)

definition new_proc :: "nat option \<Rightarrow> kstate \<Rightarrow> bool" where
  "new_proc r s \<longleftrightarrow> mlfq_ok s \<and> (case r of None \<Rightarrow> True | Some p \<Rightarrow> stands p EMBRYO s)"

lemma stands_ok: "stands p st s \<Longrightarrow> mlfq_ok s"
  by (simp add: stands_def)

lemma pends_home: "pends p a st s \<Longrightarrow> st \<noteq> RUNNABLE \<Longrightarrow> home (ptable s ! p) = list_of st 0"
  by (cases st) (simp_all add: pends_def home_def)

lemma stands_home: "stands p st s \<Longrightarrow> st \<noteq> RUNNABLE \<Longrightarrow> home (ptable s ! p) = list_of st 0"
  by (cases st) (simp_all add: stands_def home_def)

lemma free_head:
  assumes "mlfq_ok s" and "pLists s free_hd = Some i"
  shows "stands i UNUSED s"
proof -
  obtain L where L: "filed s L" using assms(1) by (auto simp: mlfq_ok_def)
  have "chain (ptable s) (Some i) (L Free)" using filed_rep [OF L, of Free] assms(2) by (simp add: rep_def)
  then have "i \<in> set (L Free)" by (cases "L Free") auto
  then have h: "home (ptable s ! i) = Free" "i < NPROC" using filed_home [OF L, of Free i] by auto
  then have "p_state (ptable s ! i) = UNUSED" by (cases "p_state (ptable s ! i)") (auto simp: home_def)
  then show ?thesis using assms(1) h by (simp add: stands_def)
qed

lemma wp_retire:
  assumes "pends p a st s" and "st \<noteq> RUNNABLE" and "\<And>t. stands p st t \<Longrightarrow> wp n Q t"
    and "b = list_of st 0" and "h = head_of a" and "l = tail_of a" and "h' = head_of b" and "l' = tail_of b"
  shows "wp (sq (move h l e1 h' l' e2 p) (sq (assertState p st) n)) Q s"
  using wp_refile [OF assms(1), of b "\<lambda>_. wp (sq (assertState p st) n) Q"] pends_home [OF assms(1,2)] assms(3-8)
  by (simp add: wp_sq wp_assertState)

lemma alloc_fails:
  assumes "stands i EMBRYO s"
  shows "wp (sq (setp i (\<lambda>p. p\<lparr>p_state := UNUSED\<rparr>))
      (sq (move embryo_hd embryo_tl e1 free_hd free_tl e2 i) (sq (assertState i UNUSED) (ret None)))) new_proc s"
proof -
  have h: "home (ptable s ! i) = Embryo" using stands_home [OF assms] by simp
  have n: "wp (ret None) new_proc t" if "stands i UNUSED t" for t using that by (simp add: wp_ret new_proc_def stands_ok)
  show ?thesis
    unfolding wp_sq [of "setp _ _"]
    by (rule wp_restate [OF assms h, where g = id]; (rule wp_retire [where a = Embryo and b = Free])?) (simp_all add: n)
qed

lemma alloc_stack:
  assumes "stands i EMBRYO s"
  shows "wp (bnd kalloc (\<lambda>ks. sq (setp i (\<lambda>p. p\<lparr>p_kstack := ks\<rparr>))
      (if ks = 0 then sq (setp i (\<lambda>p. p\<lparr>p_state := UNUSED\<rparr>))
          (sq (move embryo_hd embryo_tl e1 free_hd free_tl e2 i) (sq (assertState i UNUSED) (ret None)))
       else sq (setp i (\<lambda>p. p\<lparr>p_context := g ks\<rparr>)) (ret (Some i))))) new_proc s"
proof -
  have "wp (sq (setp i (\<lambda>p. p\<lparr>p_context := v\<rparr>)) (ret (Some i))) new_proc t" if "stands i EMBRYO t" for v t
    unfolding wp_sq wp_ret by (rule wp_stands [OF keeps_setp that]) (simp_all add: new_proc_def stands_ok)
  then show ?thesis
    unfolding wp_bnd wp_sq [of "setp i (\<lambda>p. p\<lparr>p_kstack := _\<rparr>)"]
    by (intro wp_stands [OF keeps_kalloc assms] wp_stands [OF keeps_setp]) (auto simp: alloc_fails)
qed

lemma alloc_numbers:
  assumes "stands i EMBRYO s"
  shows "stands i EMBRYO (s\<lparr>ptable := upd_nth i (\<lambda>p. p\<lparr>p_pid := pid, p_start_ticks := now, p_uid := 0, p_gid := 0,
       p_cpu_ticks_in := 0, p_cpu_ticks_total := 0, p_priority := 0, p_budget := BUDGET\<rparr>) (ptable s)\<rparr>)"
  by (rule stands_setp [OF assms]) (simp_all add: prio_ok_def)

lemma allocproc_new:
  assumes "mlfq_ok s"
  shows "wp allocproc_p3 new_proc s"
proof -
  let ?f = "\<lambda>pid now p. p\<lparr>p_pid := pid, p_start_ticks := now, p_uid := 0, p_gid := 0, p_cpu_ticks_in := 0, p_cpu_ticks_total := 0,
     p_priority := 0, p_budget := BUDGET\<rparr>"
  have none: "wp (sq (release PtableLock) (ret None)) new_proc t" if "mlfq_ok t" for t
    unfolding wp_sq wp_ret using mlfq_ok_filing [OF _ that] by (intro wp_keeps keeps_filing_locks) (auto simp: new_proc_def)
  have rest: "wp (bnd (gets nextpid) (\<lambda>pid. bnd (gets ticks) (\<lambda>now.
         sq (modify (\<lambda>s. s\<lparr>nextpid := nextpid s + 1\<rparr>)) (sq (setp i (?f pid now)) (sq (release PtableLock) n))))) new_proc t"
    if t: "stands i EMBRYO t" and n: "\<And>u. stands i EMBRYO u \<Longrightarrow> wp n new_proc u" for i n t
  proof -
    let ?u = "t\<lparr>nextpid := nextpid t + 1\<rparr>"
    have "stands i EMBRYO ?u" using stands_filing [OF t, of ?u] by (simp add: filing_def)
    then have "stands i EMBRYO (?u\<lparr>ptable := upd_nth i (?f (nextpid t) (ticks t)) (ptable ?u)\<rparr>)" by (rule alloc_numbers)
    then have "wp (sq (release PtableLock) n) new_proc (?u\<lparr>ptable := upd_nth i (?f (nextpid t) (ticks t)) (ptable ?u)\<rparr>)"
      unfolding wp_sq by (rule wp_stands [OF keeps_filing_locks(2)]) (rule n)
    then show ?thesis by (simp add: wp_bnd wp_sq wp_gets wp_modify setp_def)
  qed
  have taken: "wp (sq (setp i (\<lambda>p. p\<lparr>p_state := EMBRYO\<rparr>)) (sq (move free_hd free_tl e1 embryo_hd embryo_tl e2 i)
      (sq (assertState i EMBRYO) m))) new_proc t"
    if t: "stands i UNUSED t" and m: "\<And>u. stands i EMBRYO u \<Longrightarrow> wp m new_proc u" for i m t e1 e2
  proof -
    have h: "home (ptable t ! i) = Free" using stands_home [OF t] by simp
    show ?thesis
      unfolding wp_sq [of "setp _ _"]
      by (rule wp_restate [OF t h, where g = id]; (rule wp_retire [where a = Free and b = Embryo])?) (simp_all add: m)
  qed
  have first: "wp (bnd (cell free_hd) (\<lambda>h. case h of None \<Rightarrow> sq (release PtableLock) (ret None) | Some i \<Rightarrow> m i)) new_proc t"
    if "mlfq_ok t" and "\<And>i. stands i UNUSED t \<Longrightarrow> wp (m i) new_proc t" for m t
    using that none [OF that(1)] free_head [OF that(1)] by (simp add: wp_bnd cell_def wp_gets wp_case_option split: option.split)
  show ?thesis
    unfolding allocproc_p3_def wp_sq [of "acquire _"]
    by (intro wp_keeps [OF keeps_filing_locks(1)] first taken rest alloc_stack) (auto intro: mlfq_ok_filing [OF _ assms])
qed

lemma wp_seq: "wp (sq m n) Q = wp m (\<lambda>_. wp n Q)" "wp (bnd m k) Q = wp m (\<lambda>a. wp (k a) Q)" "wp (ret a) Q = Q a"
  by (simp_all add: wp_sq wp_bnd wp_ret fun_eq_iff)

text \<open>The embryo is made ready, in \<open>userinit\<close> and in \<open>fork\<close>.\<close>

lemma make_ready_pending:
  assumes "pends p Embryo RUNNABLE s"
  shows "wp (make_ready e p) (\<lambda>_. stands p RUNNABLE) s"
proof -
  let ?q = "unat (p_priority (ptable s ! p))"
  have h: "Ready ?q = home (ptable s ! p)" using assms by (simp add: pends_def home_def)
  have "wp (sq (move (head_of Embryo) (tail_of Embryo) e (head_of (Ready ?q)) (tail_of (Ready ?q)) ''error adding to ready list.'' p)
      (assertState p RUNNABLE)) (\<lambda>_. stands p RUNNABLE) s"
    unfolding wp_sq by (rule wp_refile [OF assms h]) (simp add: wp_assertState)
  then show ?thesis by (simp add: make_ready_def wp_bnd Let_def getp_def wp_gets)
qed

lemma publish_ready:
  assumes "stands p EMBRYO s"
  shows "wp (sq (setp p (\<lambda>x. x\<lparr>p_state := RUNNABLE\<rparr>)) (sq (acquire PtableLock) (sq (make_ready e p) (release PtableLock))))
      (\<lambda>_. stands p RUNNABLE) s" (is ?userinit)
    and "wp (sq (acquire PtableLock) (sq (setp p (\<lambda>x. x\<lparr>p_state := RUNNABLE\<rparr>)) (sq (make_ready e p) (release PtableLock))))
      (\<lambda>_. stands p RUNNABLE) s" (is ?fork)
proof -
  have rdy: "wp (make_ready e p) (\<lambda>_. wp (release PtableLock) (\<lambda>_. stands p RUNNABLE)) t" if "pends p Embryo RUNNABLE t" for t
    by (rule wp_mono [OF make_ready_pending [OF that]], rule wp_stands [OF keeps_filing_locks(2)])
  have set: "wp (setp p (\<lambda>x. x\<lparr>p_state := RUNNABLE\<rparr>)) Q t"
    if "stands p EMBRYO t" "\<And>u. pends p Embryo RUNNABLE u \<Longrightarrow> Q () u" for Q t
    by (rule wp_restate [OF that(1), where g = id]) (use stands_home [OF that(1)] that(2) in simp_all)
  show ?userinit unfolding wp_sq by (intro set [OF assms] wp_pends [OF keeps_filing_locks(1)] rdy)
  show ?fork unfolding wp_sq by (intro wp_stands [OF keeps_filing_locks(1) assms] set rdy)
qed

lemma drop_embryo:
  assumes "stands p EMBRYO s"
  shows "wp (bnd (getp p) (\<lambda>q. sq (kfree (p_kstack q)) (sq (setp p (\<lambda>q. q\<lparr>p_kstack := 0, p_state := UNUSED\<rparr>))
      (sq (acquire PtableLock) (sq (move embryo_hd embryo_tl e1 free_hd free_tl e2 p) (sq (assertState p UNUSED)
      (sq (release PtableLock) (ret r)))))))) (\<lambda>_. mlfq_ok) s"
proof -
  have rel: "wp (sq (release PtableLock) (ret r)) (\<lambda>_. mlfq_ok) t" if "stands p UNUSED t" for t
    unfolding wp_sq wp_ret by (rule wp_stands [OF keeps_filing_locks(2) that]) (rule stands_ok)
  have mv: "wp (sq (move embryo_hd embryo_tl e1 free_hd free_tl e2 p) (sq (assertState p UNUSED) (sq (release PtableLock) (ret r))))
      (\<lambda>_. mlfq_ok) t" if "pends p Embryo UNUSED t" for t
    by (rule wp_retire [OF that _ rel, where b = Free]) simp_all
  have set: "wp (setp p (\<lambda>q. q\<lparr>p_kstack := 0, p_state := UNUSED\<rparr>)) Q t"
    if "stands p EMBRYO t" "\<And>u. pends p Embryo UNUSED u \<Longrightarrow> Q () u" for Q t
    by (rule wp_restate [OF that(1), where g = "\<lambda>q. q\<lparr>p_kstack := 0\<rparr>"]) (use stands_home [OF that(1)] that(2) in simp_all)
  show ?thesis
    unfolding wp_bnd getp_def wp_gets wp_sq [of "kfree _"] wp_sq [of "setp _ _"] wp_sq [of "acquire _"]
    by (intro wp_stands [OF keeps_kfree assms] set wp_pends [OF keeps_filing_locks(1)] mv)
qed

lemma stands_seq:
  assumes "stands p st s" and "keeps filing m"
  shows "(\<And>t. stands p st t \<Longrightarrow> wp n Q t) \<Longrightarrow> wp (sq m n) Q s"
    and "(\<And>a t. stands p st t \<Longrightarrow> wp (k a) Q t) \<Longrightarrow> wp (bnd m k) Q s"
  unfolding wp_seq by (rule wp_stands [OF assms(2,1)], simp)+

lemma fork_filed:
  assumes "mlfq_ok s"
  shows "wp fork_p3 (\<lambda>_. mlfq_ok) s"
proof -
  have pub: "wp (sq (acquire PtableLock) (sq (setp np (\<lambda>x. x\<lparr>p_state := RUNNABLE\<rparr>)) (sq (make_ready e np) (sq (release PtableLock)
      (sq (setp np (\<lambda>q. q\<lparr>p_uid := u, p_gid := g\<rparr>)) (ret r)))))) (\<lambda>_. mlfq_ok) t" if "stands np EMBRYO t" for np e u g r t
  proof -
    have "wp (setp np (\<lambda>q. q\<lparr>p_uid := u, p_gid := g\<rparr>)) (\<lambda>_. mlfq_ok) v" if "stands np RUNNABLE v" for v
      by (rule wp_stands [OF keeps_setp that]) (simp_all add: stands_ok)
    then show ?thesis using wp_mono [OF publish_ready(2) [OF that, of e]] by (simp add: wp_seq)
  qed
  have cwd: "keeps filing (case c of None \<Rightarrow> panic e | Some c \<Rightarrow> bnd (idup c) (\<lambda>c'. setp np (\<lambda>q. q\<lparr>p_cwd := Some c'\<rparr>)))" for c e np
    by (intro keeps_case_option keeps_panic keeps_bnd keeps_dup keeps_setp) simp
  have kid: "wp (bnd myproc (\<lambda>i. bnd (getp i) (\<lambda>p. m i p))) (\<lambda>_. mlfq_ok) t"
    if "stands np EMBRYO t" and "\<And>i p u. stands np EMBRYO u \<Longrightarrow> wp (m i p) (\<lambda>_. mlfq_ok) u" for np m t
    unfolding wp_bnd by (rule wp_stands [OF keeps_myproc that(1)], rule wp_stands [OF keeps_getp], assumption, rule that(2))
  have go: "wp (case r of None \<Rightarrow> ret x | Some np \<Rightarrow> m np) (\<lambda>_. mlfq_ok) t"
    if "new_proc r t" and "\<And>np. stands np EMBRYO t \<Longrightarrow> wp (m np) (\<lambda>_. mlfq_ok) t" for r x m t
    using that by (cases r) (simp_all add: new_proc_def wp_ret)
  have new: "wp (sq (setp np (\<lambda>q. q\<lparr>p_sz := a, p_parent := b, p_tf := c\<rparr>)) (sq (dup_files i np)
      (sq (case w of None \<Rightarrow> panic ''null cwd'' | Some c \<Rightarrow> bnd (idup c) (\<lambda>c'. setp np (\<lambda>q. q\<lparr>p_cwd := Some c'\<rparr>)))
      (sq (setp np (\<lambda>q. q\<lparr>p_name := nm\<rparr>)) (bnd (getp np) k))))) (\<lambda>_. mlfq_ok) t"
    if t: "stands np EMBRYO t" and k: "\<And>q v. stands np EMBRYO v \<Longrightarrow> wp (k q) (\<lambda>_. mlfq_ok) v" for np a b c i w nm k t
    by (rule stands_seq(1) [OF t keeps_setp], simp, erule stands_seq(1) [OF _ keeps_dup_files], erule stands_seq(1) [OF _ cwd],
        erule stands_seq(1) [OF _ keeps_setp], simp, erule stands_seq(2) [OF _ keeps_getp], erule k)
  show ?thesis
    unfolding fork_p3_def wp_bnd [of allocproc_p3]
    apply (rule wp_mono [OF allocproc_new [OF assms]], erule go, erule kid, erule stands_seq(2) [OF _ keeps_copyuvm],
        erule stands_seq(1) [OF _ keeps_setp], simp)
    by (auto intro!: drop_embryo new pub)
qed

text \<open>\<open>wait\<close> reaps a zombie, fails, or sleeps.\<close>

lemma wp_then: "(\<And>a t. wp (k a) Q t) \<Longrightarrow> wp (bnd m k) Q s" "(\<And>t. wp n Q t) \<Longrightarrow> wp (sq m n) Q s"
  unfolding wp_bnd wp_sq by (auto intro: wp_DoneI)

lemma wp_branch: "wp m Q s \<Longrightarrow> wp n Q s \<Longrightarrow> wp (if c then m else n) Q s"
    "wp m Q s \<Longrightarrow> (\<And>y. wp (k y) Q s) \<Longrightarrow> wp (case x of None \<Rightarrow> m | Some y \<Rightarrow> k y) Q s"
    "wp (panic e) Q s" "wp switch_away Q s"
  by (auto simp: wp split: option.split)

lemma wp_sched_any: "wp sched Q s"
  unfolding sched_def by (intro wp_then wp_branch)

lemma wp_sleep_any: "wp (sleep_p3 ch lk) Q s"
  unfolding sleep_p3_def by (intro wp_then wp_branch wp_sched_any)

lemma zombie_child:
  assumes "filed s L" and "find (\<lambda>x. P (ptable s ! x)) (L Zombie) = Some j"
  shows "stands j ZOMBIE s"
proof -
  have h: "home (ptable s ! j) = Zombie" "j < NPROC" using filed_home [OF assms(1), of Zombie j] find_member [OF assms(2)] by auto
  then have "p_state (ptable s ! j) = ZOMBIE" by (cases "p_state (ptable s ! j)") (auto simp: home_def)
  then show ?thesis using assms(1) h(2) by (auto simp: stands_def mlfq_ok_def)
qed

lemma reap_filed:
  assumes "stands j ZOMBIE s"
  shows "wp (bnd (getp j) (\<lambda>p. sq (kfree (p_kstack p)) (sq (setp j (\<lambda>p. p\<lparr>p_kstack := 0\<rparr>)) (sq (freevm (p_pgdir p))
      (sq (setp j (\<lambda>p. p\<lparr>p_state := UNUSED\<rparr>)) (sq (move zombie_hd zombie_tl e1 free_hd free_tl e2 j) (sq (assertState j UNUSED)
      (sq (setp j (\<lambda>p. p\<lparr>p_pid := 0, p_parent := None, p_name := [], p_killed := False\<rparr>)) (sq (release PtableLock) (ret (p_pid p))))))))))) (\<lambda>_. mlfq_ok) s"
proof -
  have fin: "wp (sq (setp j (\<lambda>p. p\<lparr>p_pid := 0, p_parent := None, p_name := [], p_killed := False\<rparr>)) (sq (release PtableLock) (ret r)))
      (\<lambda>_. mlfq_ok) t" if "stands j UNUSED t" for r t
    by (rule stands_seq(1) [OF that keeps_setp], simp, erule stands_seq(1) [OF _ keeps_filing_locks(2)]) (simp add: wp_ret stands_ok)
  have mv: "wp (sq (setp j (\<lambda>p. p\<lparr>p_state := UNUSED\<rparr>)) (sq (move zombie_hd zombie_tl e1 free_hd free_tl e2 j) (sq (assertState j UNUSED) n)))
      (\<lambda>_. mlfq_ok) t" if t: "stands j ZOMBIE t" and n: "\<And>u. stands j UNUSED u \<Longrightarrow> wp n (\<lambda>_. mlfq_ok) u" for n t
  proof -
    have h: "home (ptable t ! j) = Zombie" using stands_home [OF t] by simp
    show ?thesis
      unfolding wp_sq [of "setp _ _"]
      by (rule wp_restate [OF t h, where g = id]; (rule wp_retire [where a = Zombie and b = Free])?) (simp_all add: n)
  qed
  show ?thesis
    by (rule stands_seq(2) [OF assms keeps_getp], erule stands_seq(1) [OF _ keeps_kfree], erule stands_seq(1) [OF _ keeps_setp], simp,
        erule stands_seq(1) [OF _ keeps_freevm], erule mv, erule fin)
qed

lemma wait_filed:
  assumes "mlfq_ok s"
  shows "wp wait_p3 (\<lambda>_. mlfq_ok) s"
proof -
  have loop: "wp wait_loop_p3 (\<lambda>_. mlfq_ok) t" if t: "mlfq_ok t" for t
  proof -
    obtain L where L: "filed t L" using t by (auto simp: mlfq_ok_def)
    have z: "search_list zombie_hd P t = Done (find (\<lambda>x. P (ptable t ! x)) (L Zombie)) t" for P
      using search_list_find [OF L, of Zombie P] by simp
    have o: "\<exists>r. search_lists (ready_heads @ [sleep_hd, embryo_hd, running_hd]) P t = Done r t" for P
    proof -
      have e: "ready_heads @ [sleep_hd, embryo_hd, running_hd] = map head_of (map Ready [0 ..< MAXPRIO + 1] @ [Sleep, Embryo, Running])"
        by (simp add: ready_heads_eq del: upt_Suc)
      show ?thesis unfolding e using search_lists_find [OF L, of "map Ready [0 ..< MAXPRIO + 1] @ [Sleep, Embryo, Running]" P]
        by (auto simp: list_all_iff)
    qed
    have rel: "wp (sq (release PtableLock) (ret (- 1))) (\<lambda>_. mlfq_ok) t"
      unfolding wp_sq wp_ret by (rule wp_keeps [OF keeps_filing_locks(2)]) (rule mlfq_ok_filing [OF _ t])
    have none: "wp (bnd (search_lists (ready_heads @ [sleep_hd, embryo_hd, running_hd]) P) (\<lambda>kid. bnd (getp i) (\<lambda>me.
        if kid = None \<or> p_killed me then sq (release PtableLock) (ret (- 1)) else sleep_p3 (ChanProc i) (Some PtableLock))))
        (\<lambda>_. mlfq_ok) t" for P i
      using o [of P] rel by (auto simp: wp_bnd wp_def [of "search_lists _ _"] getp_def wp_gets intro: wp_sleep_any)
    have "wp (bnd (search_list zombie_hd P) (\<lambda>r. case r of Some j \<Rightarrow> m j | None \<Rightarrow> n)) (\<lambda>_. mlfq_ok) t"
      if "wp n (\<lambda>_. mlfq_ok) t" and "\<And>j. stands j ZOMBIE t \<Longrightarrow> wp (m j) (\<lambda>_. mlfq_ok) t" for P m n
      using that zombie_child [OF L, of P] by (simp add: wp_bnd wp_def [of "search_list _ _"] z split: option.split)
    from this [OF none reap_filed] show ?thesis
      unfolding wait_loop_p3_def wp_bnd [of myproc] myproc_def wp_gets wp_seq(2) wp_case_option 
      by (simp add: wp_seq wp_gets wp_panic wp_ret split: option.split)
  qed
  show ?thesis
    unfolding wait_p3_def wp_sq by (rule wp_keeps [OF keeps_filing_locks(1)]) (rule loop [OF mlfq_ok_filing [OF _ assms]])
qed

section \<open>Exiting\<close>

lemma keeps_walk_list: "(\<And>p. keeps f (body p)) \<Longrightarrow> keeps f (walk_list h body)"
proof -
  assume "\<And>p. keeps f (body p)"
  then have "keeps f (walk n q body)" for n q
    by (induction n q body rule: walk.induct) (auto simp: nextof_def intro!: keeps_ret keeps_spin keeps_sq keeps_bnd keeps_getp)
  then show ?thesis by (auto simp: walk_list_def cell_def intro!: keeps_bnd keeps_gets)
qed

text \<open>A walk whose body always returns and leaves the lists alone comes to its end.\<close>

lemma walk_returns:
  assumes "\<And>p s. \<exists>t. body p s = Done () t" and "\<And>p. keeps filing (body p)"
  shows "chain (ptable s) h xs \<Longrightarrow> set xs \<subseteq> {..<length (ptable s)} \<Longrightarrow> length xs \<le> n \<Longrightarrow> \<exists>t. walk n h body s = Done () t"
proof (induction xs arbitrary: h n s)
  case Nil
  then show ?case by (auto simp: ret_def)
next
  case (Cons x xs)
  then obtain m where m: "n = Suc m" "h = Some x" "length xs \<le> m" by (cases n) auto
  obtain t where t: "body x s = Done () t" using assms(1) by blast
  have f: "filing t = filing s" using keepsD [OF assms(2) t] .
  have sub: "set xs \<subseteq> {..<length (ptable s)}" "x < length (ptable s)" using Cons.prems(2) by simp_all
  have "p_next (ptable t ! y) = p_next (ptable s ! y)" if "y < length (ptable s)" for y using filing_nth [OF f that] by simp
  then have c: "chain (ptable t) (p_next (ptable t ! x)) xs"
    using Cons.prems(1) sub chain_frame [of "ptable s" "p_next (ptable s ! x)" xs "ptable t"] by auto
  have "set xs \<subseteq> {..<length (ptable t)}" using sub(1) filing_length [OF f] by simp
  then obtain u where "walk m (p_next (ptable t ! x)) body t = Done () u" using Cons.IH [OF c _ m(3)] by blast
  then show ?case using t m(1,2) by (simp add: sq_def bnd_def nextof_Done)
qed

definition adopted :: "kstate \<Rightarrow> kstate \<Rightarrow> bool" where
  "adopted u t \<longleftrightarrow> (\<exists>ps. t = u\<lparr>ptable := ps\<rparr>) \<and> filing t = filing u"

lemma adopted_trans: "adopted u t \<Longrightarrow> adopted t v \<Longrightarrow> adopted u v"
  by (auto simp: adopted_def)

lemma adopt_walk:
  assumes "mlfq_ok u" and "is_list l"
  shows "\<exists>t. walk_list (head_of l) (adopt i) u = Done () t \<and> adopted u t"
proof -
  obtain L where L: "filed u L" using assms(1) by (auto simp: mlfq_ok_def)
  have r: "rep u (head_of l) (tail_of l) (L l)" using filed_rep [OF L assms(2)] .
  have d: "\<exists>t. adopt i p s = Done () t" for p s by (simp add: adopt_def run_simps)
  have k: "keeps filing (adopt i p)" for p
    unfolding adopt_def by (intro keeps_bnd keeps_whenk keeps_getp keeps_gets keeps_setp) simp
  have k': "keeps (\<lambda>s. s\<lparr>ptable := []\<rparr>) (adopt i p)" for p
    unfolding adopt_def setp_def by (intro keeps_bnd keeps_whenk keeps_getp keeps_gets keeps_modify) simp
  have "set (L l) \<subseteq> {..<length (ptable u)}" "length (L l) \<le> Suc NPROC" "chain (ptable u) (pLists u (head_of l)) (L l)"
    using r rep_length [OF r] mlfq_length [OF assms(1)] by (simp_all add: rep_def)
  then obtain t where t: "walk_list (head_of l) (adopt i) u = Done () t"
    using walk_returns [of "adopt i" u "pLists u (head_of l)" "L l" "Suc NPROC", OF d k] 
    by (auto simp: walk_list_def cell_def run_simps simp del: walk.simps)
  have "t\<lparr>ptable := []\<rparr> = u\<lparr>ptable := []\<rparr>" using keepsD [OF keeps_walk_list [OF k'] t] .
  then have "t = u\<lparr>ptable := ptable t\<rparr>" by (cases t; cases u) simp
  then show ?thesis using t keepsD [OF keeps_walk_list [OF k] t] by (auto simp: adopted_def)
qed

lemma adopt_walks:
  "mlfq_ok u \<Longrightarrow> list_all is_list ls \<Longrightarrow>
     \<exists>t. forM ls (\<lambda>l. walk_list (head_of l) (adopt i)) u = Done () t \<and> adopted u t"
proof (induction ls arbitrary: u)
  case Nil
  then show ?case by (auto simp: ret_def adopted_def intro: exI [of _ "ptable u"])
next
  case (Cons l ls)
  then obtain t where t: "walk_list (head_of l) (adopt i) u = Done () t" "adopted u t" using adopt_walk [of u l i] by auto
  have "mlfq_ok t" using t(2) mlfq_ok_filing [of t u] Cons.prems(1) by (simp add: adopted_def)
  then obtain v where "forM ls (\<lambda>l. walk_list (head_of l) (adopt i)) t = Done () v" "adopted t v" using Cons by auto
  then show ?case using t adopted_trans by (auto simp: run_simps)
qed

lemma parent_woken:
  assumes "stands i RUNNING u"
  shows "\<exists>ps pl. (case r of None \<Rightarrow> ret () | Some q \<Rightarrow> wakeup1_p3 (ChanProc q)) u = Done () (u\<lparr>ptable := ps, pLists := pl\<rparr>) \<and>
    stands i RUNNING (u\<lparr>ptable := ps, pLists := pl\<rparr>)"
proof (cases r)
  case None
  then show ?thesis using assms by (intro exI [of _ "ptable u"] exI [of _ "pLists u"]) (simp add: ret_def)
next
  case (Some q)
  obtain L where L: "filed u L" using assms by (auto simp: stands_def mlfq_ok_def)
  have i: "i < NPROC" "p_state (ptable u ! i) = RUNNING" "length (ptable u) = NPROC"
    using assms filedD(2) [OF L] by (simp_all add: stands_def)
  show ?thesis
  proof (cases "first_sleeper u L (ChanProc q)")
    case None
    then show ?thesis using wakeup1_filed [OF L, of "ChanProc q"] assms \<open>r = Some q\<close>
      by (intro exI [of _ "ptable u"] exI [of _ "pLists u"]) simp
  next
    case (Some p)
    obtain ps pl where w: "wakeup1_p3 (ChanProc q) u = Done () (u\<lparr>ptable := ps, pLists := pl\<rparr>)"
        "filed (u\<lparr>ptable := ps, pLists := pl\<rparr>) (moved p Sleep (Ready (unat (p_priority (ptable u ! p)))) L)"
        "map unlinked ps = map unlinked (upd_nth p (\<lambda>x. x\<lparr>p_state := RUNNABLE\<rparr>) (ptable u))"
      using wakeup1_filed [OF L, of "ChanProc q"] Some by auto
    have "home (ptable u ! p) = Sleep"
      using find_member [OF Some [unfolded first_sleeper_def]] filed_home [OF L, of Sleep p] by simp
    then have "p \<noteq> i" using i(2) by (auto simp: home_def)
    then have e: "unlinked (ps ! i) = unlinked (ptable u ! i)" using unlinked_nth [OF w(3), of i] i by simp
    have "p_state (ps ! i) = RUNNING" using i(2) arg_cong [OF e, of p_state] by simp
    then have "stands i RUNNING (u\<lparr>ptable := ps, pLists := pl\<rparr>)" using w(2) i(1) by (auto simp: stands_def mlfq_ok_def)
    then show ?thesis using w(1) \<open>r = Some q\<close> by auto
  qed
qed

lemma children_adopted:
  assumes "stands i RUNNING u"
  shows "\<exists>ps. (\<forall>n :: 'a kfun. sq (forM [0 ..< MAXPRIO + 1] (\<lambda>k. walk_list (ready_hd k) (adopt i))) (sq (walk_list sleep_hd (adopt i))
      (sq (walk_list embryo_hd (adopt i)) (sq (walk_list running_hd (adopt i)) n))) u = n (u\<lparr>ptable := ps\<rparr>)) \<and>
    stands i RUNNING (u\<lparr>ptable := ps\<rparr>)"
proof -
  have fm: "forM (map g xs) f = forM xs (\<lambda>x. f (g x))" for g :: "nat \<Rightarrow> plist" and xs and f :: "plist \<Rightarrow> unit kfun"
    by (induction xs) simp_all
  have u: "mlfq_ok u" using stands_ok [OF assms] .
  obtain a where a: "forM (map Ready [0 ..< MAXPRIO + 1]) (\<lambda>l. walk_list (head_of l) (adopt i)) u = Done () a" "adopted u a"
    using adopt_walks [OF u, of "map Ready [0 ..< MAXPRIO + 1]" i] by (auto simp: list_all_iff)
  have ok: "mlfq_ok v" if "adopted u v" for v using that mlfq_ok_filing [OF _ u] by (simp add: adopted_def)
  obtain b where b: "walk_list sleep_hd (adopt i) a = Done () b" "adopted u b"
    using adopt_walk [OF ok [OF a(2)], of Sleep i] adopted_trans [OF a(2)] by auto
  obtain c where c: "walk_list embryo_hd (adopt i) b = Done () c" "adopted u c"
    using adopt_walk [OF ok [OF b(2)], of Embryo i] adopted_trans [OF b(2)] by auto
  obtain d where d: "walk_list running_hd (adopt i) c = Done () d" "adopted u d"
    using adopt_walk [OF ok [OF c(2)], of Running i] adopted_trans [OF c(2)] by auto
  have "forM [0 ..< MAXPRIO + 1] (\<lambda>k. walk_list (ready_hd k) (adopt i)) u = Done () a"
    using a(1) unfolding fm by simp
  moreover obtain ps where "d = u\<lparr>ptable := ps\<rparr>" using d(2) by (auto simp: adopted_def)
  ultimately show ?thesis
    using b(1) c(1) d stands_filing [OF assms, of d] by (intro exI [of _ ps]) (simp add: sq_def bnd_def adopted_def del: upt_Suc forM.simps)
qed

lemma exit_table_ok:
  assumes "quiet s" and "mlfq_ok s" and "curproc s = Some i" and "i < NPROC" and "p_state (ptable s ! i) = RUNNING"
  shows "\<exists>t. (exit_table i :: 'a kfun) s = Switch t \<and> stands i ZOMBIE t"
proof -
  let ?u = "acquired PtableLock s"
  have u: "stands i RUNNING ?u" using assms mlfq_ok_filing [of ?u s] by (simp add: stands_def)
  obtain ps pl where w: "(case p_parent (ptable s ! i) of None \<Rightarrow> ret () | Some q \<Rightarrow> wakeup1_p3 (ChanProc q)) ?u =
        Done () (?u\<lparr>ptable := ps, pLists := pl\<rparr>)" "stands i RUNNING (?u\<lparr>ptable := ps, pLists := pl\<rparr>)"
    using parent_woken [OF u] by blast
  let ?v = "?u\<lparr>ptable := ps, pLists := pl\<rparr>"
  obtain qs where k: "\<forall>n :: 'a kfun. sq (forM [0 ..< MAXPRIO + 1] (\<lambda>k. walk_list (ready_hd k) (adopt i))) (sq (walk_list sleep_hd (adopt i))
      (sq (walk_list embryo_hd (adopt i)) (sq (walk_list running_hd (adopt i)) n))) ?v = n (?v\<lparr>ptable := qs\<rparr>)"
    "stands i RUNNING (?v\<lparr>ptable := qs\<rparr>)"
    using children_adopted [OF w(2)] by blast
  let ?w = "?v\<lparr>ptable := upd_nth i (\<lambda>p. p\<lparr>p_state := ZOMBIE\<rparr>) qs\<rparr>"
  have z: "pends i Running ZOMBIE ?w"
    using stands_pends [of i RUNNING "?v\<lparr>ptable := qs\<rparr>" Running "\<lambda>p. p\<lparr>p_state := ZOMBIE\<rparr>" ZOMBIE id] stands_home [of i RUNNING "?v\<lparr>ptable := qs\<rparr>"] k
    by simp
  obtain rs pl' where m: "move running_hd running_tl ''Error removing from running.'' zombie_hd zombie_tl ''error adding to zombie list.'' i ?w =
      Done () (?w\<lparr>ptable := rs, pLists := pl'\<rparr>)" "stands i ZOMBIE (?w\<lparr>ptable := rs, pLists := pl'\<rparr>)"
    using pends_move [OF z, of Zombie "''Error removing from running.''" "''error adding to zombie list.''"] pends_home [OF z] by auto
  let ?t = "?w\<lparr>ptable := rs, pLists := pl'\<rparr>"
  have st: "p_state (ptable ?t ! i) = ZOMBIE" using m(2) by (simp add: stands_def)
  then have "assertState i ZOMBIE ?t = Done () ?t" "sched ?t = Switch ?t"
    using sched_inside [of s ?t i] assms(1,3) by (simp_all add: assertState_Done)
  then have "(exit_table i :: 'a kfun) s = Switch ?t"
    unfolding exit_table_def using w(1) m(1) k(1)
    by (simp add: bnd_def [of "getp i"] sq_def [of "acquire _"] bnd_def [of "acquire _"] sq_def [of "case_option _ _ _"]
        bnd_def [of "case_option _ _ _"] sq_def [of "setp _ _"] bnd_def [of "setp _ _"] sq_def [of "move _ _ _ _ _ _ _"]
        bnd_def [of "move _ _ _ _ _ _ _"] sq_def [of "assertState _ _"] bnd_def [of "assertState _ _"] getp_Done setp_Done
        acquire_quiet [OF assms(1)] del: upt_Suc upt_rec_numeral)
  then show ?thesis using m(2) by blast
qed

text \<open>\<open>wait\<close> without a zombie child.\<close>

lemma wait_sleeps:
  assumes "quiet s" and "mlfq_ok s" and "curproc s = Some i" and "i < NPROC" and "p_state (ptable s ! i) = RUNNING"
    and "\<And>x. x < NPROC \<Longrightarrow> p_state (ptable s ! x) = ZOMBIE \<Longrightarrow> p_parent (ptable s ! x) \<noteq> Some i" and "wait_p3 s = Switch t"
  shows "mlfq_ok t"
proof -
  let ?u = "acquired PtableLock s"
  have u: "mlfq_ok ?u" using mlfq_ok_filing [of ?u s] assms(2) by simp
  then obtain L where L: "filed ?u L" by (auto simp: mlfq_ok_def)
  have "p_parent (ptable s ! x) \<noteq> Some i" if "x \<in> set (L Zombie)" for x
  proof -
    have "home (ptable s ! x) = Zombie" "x < NPROC" using filed_home [OF L _ that] by simp_all
    moreover from this have "p_state (ptable s ! x) = ZOMBIE" by (cases "p_state (ptable s ! x)") (auto simp: home_def)
    ultimately show ?thesis using assms(6) by blast
  qed
  then have z: "search_list zombie_hd (\<lambda>x. p_parent x = Some i) ?u = Done None ?u"
    using search_list_find [OF L, of Zombie "\<lambda>x. p_parent x = Some i"] by (simp add: find_None_iff)
  have heads: "ready_heads @ [sleep_hd, embryo_hd, running_hd] = map head_of (map Ready [0 ..< MAXPRIO + 1] @ [Sleep, Embryo, Running])"
    by (simp add: ready_heads_eq del: upt_Suc)
  obtain r where r: "search_lists (ready_heads @ [sleep_hd, embryo_hd, running_hd]) (\<lambda>x. p_parent x = Some i) ?u = Done r ?u"
    unfolding heads using search_lists_find [OF L, of "map Ready [0 ..< MAXPRIO + 1] @ [Sleep, Embryo, Running]"] by (auto simp: list_all_iff)
  have sl: "sleeper (Some PtableLock) s ?u" using assms(1) by (simp add: sleeper_def)
  obtain v where "(sleep_p3 (ChanProc i) (Some PtableLock) :: 32 word kfun) ?u = Switch v" "mlfq_ok v"
    using sleep_ok [OF sl u, of i] assms(3-5) by auto
  then show ?thesis
    using assms(7) z r release_inside [OF inside_acquired [OF assms(1)], of PtableLock]
    by (auto simp: wait_p3_def wait_loop_p3_def run_simps acquire_quiet [OF assms(1)] myproc_Done assms(3) split: if_splits)
qed

section \<open>Every reachable state\<close>

text \<open>
  The states the queues go through: the first section of \<open>userinit\<close>, then every operation
  that calls \<open>stateListAdd\<close> or \<open>stateListRemove\<close>.  \<open>exit\<close> enters with the section that
  holds the table lock; the files it closes before that and all other code (system calls,
  interrupts, the lock operations, the switch of the current process) are steps \<open>other\<close>,
  which may change everything but the list cells and the links, states and priorities.
  A priority change is one the queues have room for.
\<close>

inductive mlfq_reach :: "kstate \<Rightarrow> bool" where
  boot: "quiet s \<Longrightarrow> ptable_ok s \<Longrightarrow> list_all prio_ok (ptable s) \<Longrightarrow>
    sq initProcessLists initFreeList (acquired PtableLock s) = Done () t \<Longrightarrow> mlfq_reach t"
| other: "mlfq_reach s \<Longrightarrow> filing t = filing s \<Longrightarrow> mlfq_reach t"
| alloc: "mlfq_reach s \<Longrightarrow> allocproc_p3 s = Done r t \<Longrightarrow> mlfq_reach t"
| publish: "mlfq_reach s \<Longrightarrow> p < NPROC \<Longrightarrow> p_state (ptable s ! p) = EMBRYO \<Longrightarrow>
    sq (setp p (\<lambda>x. x\<lparr>p_state := RUNNABLE\<rparr>)) (sq (acquire PtableLock) (sq (make_ready e p) (release PtableLock))) s = Done () t \<Longrightarrow>
    mlfq_reach t"
| fork: "mlfq_reach s \<Longrightarrow> fork_p3 s = Done r t \<Longrightarrow> mlfq_reach t"
| exit: "mlfq_reach s \<Longrightarrow> quiet s \<Longrightarrow> curproc s = Some i \<Longrightarrow> i < NPROC \<Longrightarrow> p_state (ptable s ! i) = RUNNING \<Longrightarrow>
    (exit_table i :: unit kfun) s = Switch t \<Longrightarrow> mlfq_reach t"
| wait: "mlfq_reach s \<Longrightarrow> wait_p3 s = Done r t \<Longrightarrow> mlfq_reach t"
| wait_sleep: "mlfq_reach s \<Longrightarrow> quiet s \<Longrightarrow> curproc s = Some i \<Longrightarrow> i < NPROC \<Longrightarrow> p_state (ptable s ! i) = RUNNING \<Longrightarrow>
    (\<And>x. x < NPROC \<Longrightarrow> p_state (ptable s ! x) = ZOMBIE \<Longrightarrow> p_parent (ptable s ! x) \<noteq> Some i) \<Longrightarrow>
    wait_p3 s = Switch t \<Longrightarrow> mlfq_reach t"
| dispatch: "mlfq_reach u \<Longrightarrow> inside PtableLock s u \<Longrightarrow>
    p_state (ptable u ! p) = RUNNABLE \<Longrightarrow> unat (p_priority (ptable u ! p)) = k \<Longrightarrow> p < NPROC \<Longrightarrow>
    p_pgdir (ptable u ! p) \<noteq> 0 \<Longrightarrow> dispatch_p3 k p u = Done () t \<Longrightarrow> mlfq_reach t"
| yield: "mlfq_reach s \<Longrightarrow> quiet s \<Longrightarrow> curproc s = Some i \<Longrightarrow> i < NPROC \<Longrightarrow> p_state (ptable s ! i) = RUNNING \<Longrightarrow>
    yield_p3 s = Switch t \<Longrightarrow> mlfq_reach t"
| sleep: "mlfq_reach u \<Longrightarrow> sleeper lk s u \<Longrightarrow> curproc u = Some i \<Longrightarrow> i < NPROC \<Longrightarrow> p_state (ptable u ! i) = RUNNING \<Longrightarrow>
    (sleep_p3 ch lk :: unit kfun) u = Switch t \<Longrightarrow> mlfq_reach t"
| wakeup: "mlfq_reach s \<Longrightarrow> quiet s \<Longrightarrow> wakeup_p3 ch s = Done () t \<Longrightarrow> mlfq_reach t"
| kill: "mlfq_reach s \<Longrightarrow> quiet s \<Longrightarrow> kill_p3 pid s = Done r t \<Longrightarrow> mlfq_reach t"
| setpriority: "mlfq_reach s \<Longrightarrow> quiet s \<Longrightarrow> unat pr \<le> MAXPRIO \<Longrightarrow> setpriority pid pr s = Done r t \<Longrightarrow> mlfq_reach t"
| promote: "mlfq_reach s \<Longrightarrow> promoteAll s = Done () t \<Longrightarrow> mlfq_reach t"

text \<open>
  C21: the queues stay consistent.  In every state that boot, the creation of processes
  (\<open>allocproc\<close>, \<open>userinit\<close>, \<open>fork\<close>), dispatching, yielding, sleeping, waking, killing, exiting,
  waiting for children, priority changes up to \<open>MAXPRIO\<close> and promotion lead to, in any
  order and with any other kernel code in between, every process is a member of exactly
  one list, the one of its state and, when it is ready, of its priority; the lists are
  well linked and priorities are in range.
\<close>

theorem mlfq_reachable_ok:
  assumes "mlfq_reach s"
  shows "mlfq_ok s"
  using assms
proof induction
  case (boot s t)
  obtain ps pl where "sq initProcessLists initFreeList (acquired PtableLock s) = Done () ((acquired PtableLock s)\<lparr>ptable := ps, pLists := pl\<rparr>)"
      "filed ((acquired PtableLock s)\<lparr>ptable := ps, pLists := pl\<rparr>) (booted NPROC)"
    using boot_filed [OF inside_acquired [OF boot(1)]] boot(2,3) by (auto simp: list_all_length ptable_ok_def)
  then show ?case using boot(4) by (auto simp: mlfq_ok_def)
next
  case (other s t)
  then show ?case using mlfq_ok_filing by blast
next
  case (alloc s r t)
  then show ?case using wp_DoneD [OF allocproc_new] by (auto simp: new_proc_def)
next
  case (publish s p e t)
  then have "stands p EMBRYO s" by (simp add: stands_def)
  then show ?case using wp_DoneD [OF publish_ready(1) publish.hyps(4)] stands_ok by blast
next
  case (fork s r t)
  then show ?case using wp_DoneD [OF fork_filed] by blast
next
  case (exit s i t)
  then show ?case using exit_table_ok [where 'a = unit, of s i] stands_ok by auto
next
  case (wait s r t)
  then show ?case using wp_DoneD [OF wait_filed] by blast
next
  case (wait_sleep s i t)
  show ?case by (rule wait_sleeps [OF wait_sleep.hyps(2) wait_sleep.IH wait_sleep.hyps(3-7)])
next
  case (dispatch u s p k t)
  obtain L where L: "filed u L" using dispatch.IH by (auto simp: mlfq_ok_def)
  have "prio_ok (ptable u ! p)" "p \<in> set (L (home (ptable u ! p)))" using filedD(1) [OF L] dispatch.hyps by auto
  then have "k \<le> MAXPRIO" "p \<in> set (L (Ready k))" using dispatch.hyps by (auto simp: home_def prio_ok_def)
  then show ?case using dispatch_filed [OF dispatch.hyps(2) L] dispatch.hyps by (fastforce simp: mlfq_ok_def)
next
  case (yield s i t)
  then show ?case using yield_ok [of s i] by simp
next
  case (sleep u lk s i ch t)
  then show ?case using sleep_ok [where 'a = unit, of lk s u i ch] by simp
next
  case (wakeup s ch t)
  then show ?case using wakeup_ok [of s ch] by simp
next
  case (kill s pid r t)
  then show ?case using kill_ok [of s pid] by simp
next
  case (setpriority s pr pid r t)
  then show ?case using setpriority_ok [of s pr pid] by simp
next
  case (promote s t)
  then show ?case using promoteAll_ok [of s] by simp
qed

section \<open>An example: the life of a process\<close>

definition settled :: "kstate \<Rightarrow> kstate" where
  "settled s = s\<lparr>locks := locks kzero, kcpu := kcpu kzero, curproc := Some 0, use_lock := False, kfreelist := 4096\<rparr>"

lemma settled [simp]:
  "quiet (settled s)" "filing (settled s) = filing s" "ptable (settled s) = ptable s" "pLists (settled s) = pLists s"
  "use_lock (settled s) = False" "kfreelist (settled s) = 4096" "curproc (settled s) = Some 0"
  by (simp_all add: settled_def filing_def kzero_def zero_cpu_def quiet_def free_lock_def)

lemma settled_reach: "mlfq_reach s \<Longrightarrow> mlfq_reach (settled s)"
  by (erule mlfq_reach.other) simp

lemma alloc_first:
  assumes "mlfq_ok s" and "pLists s free_hd = Some i"
  shows "\<exists>t. allocproc_p3 (settled s) = Done (Some i) t"
proof -
  let ?u = "acquired PtableLock (settled s)"
  let ?f = "\<lambda>p. p\<lparr>p_state := EMBRYO\<rparr>"
  have u: "stands i UNUSED ?u" using stands_filing [OF free_head [OF assms], of ?u] by simp
  then have p: "pends i Free EMBRYO (?u\<lparr>ptable := upd_nth i ?f (ptable s)\<rparr>)"
    using stands_pends [OF u, of Free ?f EMBRYO id] stands_home [OF u] by simp
  obtain ps pl where m: "move free_hd free_tl ''error removing from free list.'' embryo_hd embryo_tl ''error adding to embryo list.'' i
        (?u\<lparr>ptable := upd_nth i ?f (ptable s)\<rparr>) = Done () (?u\<lparr>ptable := ps, pLists := pl\<rparr>)" "p_state (ps ! i) = EMBRYO"
    using pends_move [OF p, of Embryo "''error removing from free list.''" "''error adding to embryo list.''"] pends_home [OF p]
    by (auto simp: stands_def)
  have in_u: "inside PtableLock (settled s) ?u" by simp
  show ?thesis
    using m assms(2)
    by (simp add: allocproc_p3_def run_simps cell_def acquire_quiet assertState_Done modify_def kalloc_def
        release_inside [of PtableLock "settled s"] inside_def)
qed

lemma publish_first:
  assumes "stands p EMBRYO s"
  shows "\<exists>t. sq (setp p (\<lambda>x. x\<lparr>p_state := RUNNABLE\<rparr>)) (sq (acquire PtableLock) (sq (make_ready e p) (release PtableLock))) (settled s) =
      Done () t \<and> stands p RUNNABLE t"
proof -
  let ?f = "\<lambda>x. x\<lparr>p_state := RUNNABLE\<rparr>"
  let ?v = "(settled s)\<lparr>ptable := upd_nth p ?f (ptable s)\<rparr>"
  let ?u = "acquired PtableLock ?v"
  have s: "stands p EMBRYO (settled s)" using stands_filing [OF assms] by simp
  have "pends p Embryo RUNNABLE ?v" using stands_pends [OF s, of Embryo ?f RUNNABLE id] stands_home [OF s] by simp
  then have u: "pends p Embryo RUNNABLE ?u" by (rule pends_filing) simp
  let ?q = "unat (p_priority (ptable ?u ! p))"
  have h: "Ready ?q = home (ptable ?u ! p)" using u by (simp add: pends_def home_def)
  have q: "quiet ?v" by (simp add: quiet_def settled_def kzero_def zero_cpu_def free_lock_def)
  obtain ps pl where m: "move embryo_hd embryo_tl e (ready_hd ?q) (ready_tl ?q) ''error adding to ready list.'' p ?u =
      Done () (?u\<lparr>ptable := ps, pLists := pl\<rparr>)" "p_state (ps ! p) = RUNNABLE"
    using pends_move [OF u h, of e "''error adding to ready list.''"] by (auto simp: stands_def)
  then have "\<exists>t. sq (setp p ?f) (sq (acquire PtableLock) (sq (make_ready e p) (release PtableLock))) (settled s) = Done () t"
    by (simp add: run_simps acquire_quiet [OF q] make_ready_def Let_def assertState_Done release_inside [of PtableLock ?v] q)
  then show ?thesis using wp_DoneD [OF publish_ready(1) [OF s]] by blast
qed

theorem mlfq_reachable_ok_witness:
  "\<exists>s t. mlfq_reach s \<and> p_state (ptable s ! 0) = RUNNING \<and> (exit_table 0 :: unit kfun) (settled s) = Switch t \<and>
     mlfq_reach t \<and> p_state (ptable t ! 0) = ZOMBIE \<and> mlfq_ok t"
proof -
  have k: "quiet kzero" "ptable_ok kzero" "list_all prio_ok (ptable kzero)"
    by (simp_all add: kzero_def zero_cpu_def quiet_def free_lock_def ptable_ok_def prio_ok_def zero_proc_def list_all_length)
  obtain a where a: "sq initProcessLists initFreeList (acquired PtableLock kzero) = Done () a" "filed a (booted NPROC)"
    using boot_filed [OF inside_acquired [OF k(1)]] k(2,3) by (auto simp: list_all_length ptable_ok_def)
  then have ra: "mlfq_reach a" "mlfq_ok a" using mlfq_reach.boot [OF k] by (auto simp: mlfq_ok_def)
  have "chain (ptable a) (pLists a free_hd) [0 ..< NPROC]" using filed_rep [OF a(2), of Free] by (simp add: rep_def booted_def)
  then have "pLists a free_hd = Some 0" by (simp add: upt_rec)
  then obtain b where b: "allocproc_p3 (settled a) = Done (Some 0) b" using alloc_first [OF ra(2)] by blast
  have rb: "mlfq_reach b" using mlfq_reach.alloc [OF settled_reach [OF ra(1)] b] .
  have "mlfq_ok (settled a)" using mlfq_ok_filing [OF settled(2) ra(2)] .
  then have sb: "stands 0 EMBRYO b" using wp_DoneD [OF allocproc_new b] by (simp add: new_proc_def)
  obtain c where c: "sq (setp 0 (\<lambda>x. x\<lparr>p_state := RUNNABLE\<rparr>)) (sq (acquire PtableLock) (sq (make_ready [] 0) (release PtableLock))) (settled b) =
      Done () c" "stands 0 RUNNABLE c" using publish_first [OF sb] by blast
  have rc: "mlfq_reach c"
    using mlfq_reach.publish [OF settled_reach [OF rb] _ _ c(1)] sb by (simp add: stands_def)
  let ?c = "(settled c)\<lparr>ptable := upd_nth 0 (\<lambda>p. p\<lparr>p_pgdir := 4096\<rparr>) (ptable c)\<rparr>"
  have fc: "filing ?c = filing c"
    using keepsD [OF keeps_setp [of "\<lambda>p. p\<lparr>p_pgdir := 4096\<rparr>" 0], of "settled c" "()" ?c] by (simp add: setp_Done)
  let ?d = "acquired PtableLock ?c"
  have q: "quiet ?c" by (simp add: quiet_def settled_def kzero_def zero_cpu_def free_lock_def)
  have rd: "mlfq_reach ?d" by (rule mlfq_reach.other [OF rc]) (simp add: fc)
  have sd: "stands 0 RUNNABLE ?d" by (rule stands_filing [OF c(2)]) (simp add: fc)
  have pg: "p_pgdir (ptable ?d ! 0) \<noteq> 0" using mlfq_length [OF stands_ok [OF c(2)]] by simp
  obtain L where L: "filed ?d L" using stands_ok [OF sd] by (auto simp: mlfq_ok_def)
  let ?k = "unat (p_priority (ptable ?d ! 0))"
  have hk: "?k \<le> MAXPRIO" "0 \<in> set (L (Ready ?k))"
    using filedD(1) [OF L, of 0] sd by (simp_all add: stands_def home_def prio_ok_def)
  obtain e where e: "dispatch_p3 ?k 0 ?d = Done () e" "p_state (ptable e ! 0) = RUNNING" "mlfq_ok e"
    using dispatch_filed [OF inside_acquired [OF q] L hk pg] unfolding mlfq_ok_def by blast
  have re: "mlfq_reach e"
    using mlfq_reach.dispatch [OF rd inside_acquired [OF q] _ refl _ pg e(1)] sd by (simp add: stands_def)
  have "mlfq_ok (settled e)" using mlfq_ok_filing [OF settled(2) e(3)] .
  then obtain t where t: "(exit_table 0 :: unit kfun) (settled e) = Switch t" "stands 0 ZOMBIE t"
    using exit_table_ok [of "settled e" 0] e(2) by auto
  have "mlfq_reach t" using mlfq_reach.exit [OF settled_reach [OF re] _ _ _ _ t(1)] e(2) by simp
  then show ?thesis using re e(2) t mlfq_reachable_ok by (auto simp: stands_def)
qed

end
