(* ===== verification/Blocks.thy ===== *)
theory Blocks
  imports Inode
begin

text \<open>
  The block and inode layer of \<open>fs.c\<close> inside a transaction: one access to a block
  through the buffer cache and the log, the free map, and inodes on disk.  The contents
  of the disk are \<open>bview\<close>, what a reader sees.
\<close>

section \<open>One access to a block\<close>

text \<open>Inside a transaction; the log slots and the buffers that are left for it.\<close>

definition txn :: "kstate \<Rightarrow> bool" where
  "txn s \<longleftrightarrow> bio_ok s \<and> log_inv s \<and> 1 \<le> lg_outstanding (klog s)"

definition room_for :: "nat \<Rightarrow> kstate \<Rightarrow> bool" where
  "room_for n s \<longleftrightarrow> lh_n (lg_lh (klog s)) + int n \<le> int LOGSIZE \<and>
     lh_n (lg_lh (klog s)) + int n \<le> int (lg_size (klog s)) - 1 \<and> n < card (spare s)"

text \<open>A block a file system operation may write: on the disk and outside the log.\<close>

definition home_block :: "kstate \<Rightarrow> nat \<Rightarrow> bool" where
  "home_block s b \<longleftrightarrow> b < disksize s \<and> b < 2 ^ 32 \<and> b \<notin> log_area (klog s)"

definition same_log :: "log \<Rightarrow> log \<Rightarrow> bool" where
  "same_log l l' \<longleftrightarrow> lg_start l' = lg_start l \<and> lg_size l' = lg_size l \<and> lg_outstanding l' = lg_outstanding l \<and>
     lg_committing l' = lg_committing l \<and> lg_dev l' = lg_dev l"

text \<open>What an operation that logs at most \<open>k\<close> new blocks leaves alone.\<close>

definition fs_to :: "nat \<Rightarrow> kstate \<Rightarrow> kstate \<Rightarrow> bool" where
  "fs_to k s t \<longleftrightarrow> txn t \<and> same_rest s t \<and> same_log (klog s) (klog t) \<and>
     busy_block t = busy_block s \<and> (\<forall>j c. hold s j c \<longrightarrow> hold t j c) \<and> (\<forall>n. room_for (n + k) s \<longrightarrow> room_for n t)"

lemma fs_to_trans: "fs_to j s t \<Longrightarrow> fs_to k t u \<Longrightarrow> fs_to (j + k) s u"
  unfolding fs_to_def same_log_def using same_rest_trans by (auto simp: ac_simps)

lemma fs_to_refl: "txn s \<Longrightarrow> fs_to 0 s s"
  by (simp add: fs_to_def same_log_def)

lemma fs_to_home: "fs_to k s t \<Longrightarrow> home_block t = home_block s"
  by (simp add: fs_to_def same_rest_def same_log_def home_block_def log_area_def fun_eq_iff)

lemma fs_to_sb: "fs_to k s t \<Longrightarrow> sb t = sb s" "fs_to k s t \<Longrightarrow> icache t = icache s" "fs_to k s t \<Longrightarrow> txn t"
  by (simp_all add: fs_to_def same_rest_def)

lemma room_for_mono: "room_for n s \<Longrightarrow> m \<le> n \<Longrightarrow> room_for m s"
  by (auto simp: room_for_def)

text \<open>\<open>bread\<close>, and what can follow it: releasing the buffer, or changing it, logging it and releasing it.\<close>

lemma block_get:
  assumes "txn s" and "\<not> busy_block s b" and "home_block s b" and "room_for 0 s"
  obtains i t where "bread ROOTDEV b s = Done i t" "bdata i t = Done (bview s b) t" "bread_post s b i t" "txn t"
    "b \<in> pinned t \<or> bview t b = disk t b"
proof -
  have ok: "bio_ok s" using assms(1) by (simp add: txn_def)
  have sp: "spare s \<noteq> {}" using assms(4) by (auto simp: room_for_def)
  obtain i t where t: "bread ROOTDEV b s = Done i t" "bread_post s b i t"
    using bread_twp [OF ok assms(2) sp] assms(3) by (auto simp: twp_iff home_block_def)
  have bt: "bio_ok t" "hold t i b" "bview t = bview s" "disk t = disk s" "pinned t = pinned s" "klog t = klog s" "same_rest s t"
    using t(2) by (auto simp: bread_post_def)
  have "bdata i t = Done (bview s b) t"
    using hold_data [OF bt(1,2)] bt(3) by (simp add: bdata_def bnd_def getb_eq ret_def)
  moreover have "txn t" using assms(1) bt by (simp add: txn_def log_inv_def same_rest_def)
  moreover have "b \<in> pinned t \<or> bview t b = disk t b" using bc.clean [OF ok assms(2)] bt(3-5) by auto
  ultimately show ?thesis using that t by blast
qed

lemma block_access:
  assumes "txn s" and "\<not> busy_block s b" and "home_block s b" and "room_for 0 s"
  obtains i t where "bread ROOTDEV b s = Done i t" "bdata i t = Done (bview s b) t"
    "txn t" "same_rest s t" "klog t = klog s" "bview t = bview s" "hold t i b" "\<And>c. busy_block t c = (c = b \<or> busy_block s c)"
    "\<And>j c. hold s j c \<Longrightarrow> hold t j c" "card (spare t) + (if b \<in> pinned s then 0 else 1) = card (spare s)"
    "\<exists>u. brelse i t = Done () u \<and> fs_to 0 s u \<and> bview u = bview s"
proof -
  obtain i t where t: "bread ROOTDEV b s = Done i t" "bdata i t = Done (bview s b) t" "bread_post s b i t" "txn t"
      "b \<in> pinned t \<or> bview t b = disk t b"
    by (rule block_get [OF assms])
  have bt: "bio_ok t" "hold t i b" "same_rest s t" "klog t = klog s" "bview t = bview s" "disk t = disk s" "pinned t = pinned s"
    "\<And>c. busy_block t c = (c = b \<or> busy_block s c)" "\<And>j c. hold s j c \<Longrightarrow> hold t j c \<and> j \<noteq> i"
    "card (spare t) + (if b \<in> pinned s then 0 else 1) = card (spare s)"
    using t(3) by (auto simp: bread_post_def)
  obtain u where u: "brelse i t = Done () u" "let_go t i b u" using brelse_twp [OF bt(1,2) t(5)] by (auto simp: twp_iff)
  have ut: "bio_ok u" "same_rest s u" "klog u = klog s" "pinned u = pinned s"
    using u(2) bt(4,7) same_rest_trans [OF bt(3)] by (auto simp: let_go_def)
  have "txn u" using assms(1) ut by (simp add: txn_def log_inv_def same_rest_def)
  moreover have "busy_block u = busy_block s" using u(2) bt(8) assms(2) by (auto simp: let_go_def fun_eq_iff)
  moreover have "hold u j c" if "hold s j c" for j c using u(2) bt(9) [OF that] by (auto simp: let_go_def)
  moreover have "card (spare u) = card (spare s)" using u(2) bt(7,10) by (auto simp: let_go_def)
  ultimately have "fs_to 0 s u" using ut by (simp add: fs_to_def same_log_def room_for_def)
  moreover have "bview u = bview s" using u(2) bt(5) by (simp add: let_go_def)
  ultimately show ?thesis using that [OF t(1,2,4) bt(3-5,2,8) _ bt(10)] bt(9) u(1) by blast
qed

lemma block_update:
  assumes "txn s" and "\<not> busy_block s b" and "home_block s b" and "room_for 1 s"
  obtains i t u v w where "bread ROOTDEV b s = Done i t" "bdata i t = Done (bview s b) t"
    "set_bdata i d t = Done () u" "log_write i u = Done () v" "brelse i v = Done () w"
    "fs_to 1 s w" "bview w = (bview s)(b := d)"
proof -
  have r0: "room_for 0 s" using assms(4) by (auto simp: room_for_def)
  obtain i t where t: "bread ROOTDEV b s = Done i t" "bdata i t = Done (bview s b) t"
    "txn t" "same_rest s t" "klog t = klog s" "bview t = bview s" "hold t i b" "\<And>c. busy_block t c = (c = b \<or> busy_block s c)"
    "\<And>j c. hold s j c \<Longrightarrow> hold t j c" "card (spare t) + (if b \<in> pinned s then 0 else 1) = card (spare s)"
    using block_access [OF assms(1-3) r0] by metis
  have ok: "bio_ok t" "log_inv t" "1 \<le> lg_outstanding (klog t)" using t(3) by (simp_all add: txn_def)
  let ?u = "t\<lparr>kbcache := upd_buf i (\<lambda>x. x\<lparr>b_data := d\<rparr>) (kbcache t)\<rparr>"
  have u: "set_bdata i d t = Done () ?u" "wrote t b d ?u"
    using set_data_wrote [OF ok(1) t(7), of "\<lambda>_. d"] by (simp_all add: set_bdata_def setb_eq)
  have uk: "bio_ok ?u" "hold ?u i b" "klog ?u = klog s" "pinned ?u = pinned t"
    using u(2) t(5,7) by (auto simp: wrote_def)
  obtain v where v: "log_write i ?u = Done () v" "log_write_post ?u b v"
    using log_write_twp [OF uk(1,2)] ok(3) uk(3) t(5) assms(4) by (auto simp: twp_iff room_for_def)
  have lu: "log_inv ?u" using ok(2) u(2) by (simp add: log_inv_def wrote_def same_rest_def)
  have hb: "b < disksize ?u" "b < 4294967296" "b \<notin> log_area (klog ?u)"
    using assms(3) t(4) uk(3) u(2) by (auto simp: home_block_def same_rest_def wrote_def)
  have n: "lh_n (lg_lh (klog ?u)) < int LOGSIZE" using assms(4) uk(3) by (simp add: room_for_def)
  have lv: "log_inv v" "lh_n (lg_lh (klog v)) = lh_n (lg_lh (klog s)) + (if b \<in> logged (klog s) then 0 else 1)"
    using log_write_inv [OF lu v(2) hb n] uk(3) by simp_all
  have ps: "pinned t = pinned s" "pinned s = logged (klog s)" using ok(2) assms(1) t(5) by (auto simp: txn_def log_inv_def)
  have vk: "bio_ok v" "hold v i b" "pinned v = insert b (pinned s)" "same_rest ?u v" "bview v = bview ?u" "busy_block v = busy_block ?u"
    "hold v = hold ?u" "spare v = spare ?u" "same_log (klog s) (klog v)"
    using v(2) uk ps by (auto simp: log_write_post_def same_log_def)
  obtain w where w: "brelse i v = Done () w" "let_go v i b w" using brelse_twp [OF vk(1,2)] vk(3) by (auto simp: twp_iff)
  have wk: "bio_ok w" "same_rest v w" "klog w = klog v" "pinned w = pinned v" "bview w = bview v" "card (spare w) = card (spare v)"
    using w(2) vk(3) by (auto simp: let_go_def)
  have sr: "same_rest s w" using t(4) u(2) vk(4) wk(2) same_rest_trans by (auto simp: wrote_def intro: same_rest_trans)
  have "log_inv w" using lv(1) wk by (simp add: log_inv_def same_rest_def)
  then have "txn w" using assms(1) wk(1,3) vk(9) by (simp add: txn_def same_log_def)
  moreover have "busy_block w = busy_block s"
    using w(2) vk(6) u(2) t(8) assms(2) by (auto simp: let_go_def wrote_def fun_eq_iff)
  moreover have "hold w j c" if "hold s j c" for j c
  proof -
    have "\<not> hold s i b" "j \<noteq> i"
      using that t(7) t(9) [OF that] assms(2) by (auto simp: hold_def caches_def busy_block_def)
    then show ?thesis using w(2) t(9) [OF that] vk(7) u(2) by (auto simp: let_go_def wrote_def)
  qed
  moreover have "room_for n w" if "room_for (n + 1) s" for n
    using that lv(2) vk(8,9) wk(3,6) u(2) t(10) ps by (auto simp: room_for_def same_log_def wrote_def split: if_splits)
  ultimately have "fs_to 1 s w" using sr vk(9) wk(3) by (simp add: fs_to_def)
  moreover have "bview w = (bview s)(b := d)" using wk(5) vk(5) u(2) t(6) by (simp add: wrote_def)
  ultimately show ?thesis using that [OF t(1,2) u(1) v(1) w(1)] by blast
qed

section \<open>The free map\<close>

lemma bit_used_iff: "bit_used d bi = bit (d (bi div 8)) (bi mod 8)"
  by (simp add: bit_used_def push_bit_of_1 and_exp_eq_0_iff_not_bit)

lemma same_bit: "(x :: nat) div 8 = y div 8 \<Longrightarrow> x mod 8 = y mod 8 \<Longrightarrow> x = y"
  by (metis div_mult_mod_eq)

lemma bit_mask: "m < 8 \<Longrightarrow> bit (2 ^ n :: byte) m = (m = n)"
  by (auto simp: bit_exp_iff possible_bit_word)

lemma bit_used_mark_used: "bit_used (mark_used bi d) bj = (bj = bi \<or> bit_used d bj)"
proof (cases "bj div 8 = bi div 8")
  case True
  then have "bj mod 8 = bi mod 8 \<longleftrightarrow> bj = bi" using same_bit by blast
  then show ?thesis using True by (simp add: bit_used_iff mark_used_def bit_or_iff bit_mask push_bit_of_1) blast
qed (auto simp: bit_used_iff mark_used_def)

lemma bit_used_mark_free: "bit_used (mark_free bi d) bj = (bj \<noteq> bi \<and> bit_used d bj)"
proof (cases "bj div 8 = bi div 8")
  case True
  then have "bj mod 8 = bi mod 8 \<longleftrightarrow> bj = bi" using same_bit by blast
  then show ?thesis using True by (simp add: bit_used_iff mark_free_def bit_and_iff bit_not_iff bit_mask push_bit_of_1 possible_bit_word) blast
qed (auto simp: bit_used_iff mark_free_def)

lemma free_bit_Some:
  "free_bit d b sz bi = Some x \<Longrightarrow> bi \<le> x \<and> x < BPB \<and> b + x < sz \<and> \<not> bit_used d x \<and> (\<forall>y. bi \<le> y \<longrightarrow> y < x \<longrightarrow> bit_used d y)"
proof (induction d b sz bi rule: free_bit.induct)
  case (1 d b sz bi)
  show ?case
  proof (cases "bi < BPB \<and> b + bi < sz \<and> bit_used d bi")
    case True
    then have "free_bit d b sz (bi + 1) = Some x" using "1.prems" by (subst (asm) free_bit.simps) simp
    then have "bi + 1 \<le> x \<and> x < BPB \<and> b + x < sz \<and> \<not> bit_used d x \<and> (\<forall>y. bi + 1 \<le> y \<longrightarrow> y < x \<longrightarrow> bit_used d y)"
      using "1.IH" True by simp
    then show ?thesis using True by (metis Suc_eq_plus1 Suc_leD le_neq_implies_less less_eq_Suc_le)
  next
    case False
    then show ?thesis using "1.prems" by (subst (asm) free_bit.simps) (auto split: if_splits)
  qed
qed

lemma free_bit_None:
  "free_bit d b sz bi = None \<Longrightarrow> bi \<le> y \<Longrightarrow> y < BPB \<Longrightarrow> b + y < sz \<Longrightarrow> bit_used d y"
proof (induction d b sz bi rule: free_bit.induct)
  case (1 d b sz bi)
  have le: "bi < BPB \<and> b + bi < sz" using "1.prems" by simp
  then have "bit_used d bi" "free_bit d b sz (bi + 1) = None"
    using "1.prems"(1) by (subst (asm) free_bit.simps, simp split: if_splits)+
  then show ?case using "1.IH" le "1.prems" by (cases "y = bi") auto
qed

definition used :: "kstate \<Rightarrow> nat \<Rightarrow> bool" where
  "used s b = bit_used (bview s (BBLOCK b (sb s))) (b mod BPB)"

text \<open>
  The free map lies in blocks of its own outside the log, and the blocks it calls free
  are neither of the map nor of the log nor in anybody's hands.
\<close>

definition map_ok :: "kstate \<Rightarrow> bool" where
  "map_ok s \<longleftrightarrow> (\<forall>b < sb_size (sb s). home_block s (BBLOCK b (sb s)) \<and> \<not> busy_block s (BBLOCK b (sb s)) \<and>
     (\<not> used s b \<longrightarrow> home_block s b \<and> \<not> busy_block s b \<and> (\<forall>c < sb_size (sb s). BBLOCK c (sb s) \<noteq> b)))"

lemma BBLOCK_same: "BBLOCK b k = BBLOCK c k \<longleftrightarrow> b div BPB = c div BPB"
  by (simp add: BBLOCK_def)

lemma fs_to_room: "fs_to k s t \<Longrightarrow> room_for m s \<Longrightarrow> n + k \<le> m \<Longrightarrow> room_for n t"
  unfolding fs_to_def using room_for_mono by blast

lemma fs_to_busy: "fs_to k s t \<Longrightarrow> busy_block t = busy_block s"
  by (simp add: fs_to_def)

lemma bzero_spec:
  assumes "txn s" and "\<not> busy_block s b" and "home_block s b" and "room_for 1 s"
  shows "\<exists>t. bzero ROOTDEV b s = Done () t \<and> fs_to 1 s t \<and> bview t = (bview s)(b := memset (bview s b) 0 0 BSIZE)"
proof -
  obtain i t u v w where a: "bread ROOTDEV b s = Done i t" "bdata i t = Done (bview s b) t"
    "set_bdata i (memset (bview s b) 0 0 BSIZE) t = Done () u" "log_write i u = Done () v" "brelse i v = Done () w"
    "fs_to 1 s w" "bview w = (bview s)(b := memset (bview s b) 0 0 BSIZE)"
    by (rule block_update [OF assms])
  then show ?thesis by (simp add: bzero_def bnd_def sq_def)
qed

text \<open>The state after the allocation of \<open>a\<close>.\<close>

definition allocated :: "nat \<Rightarrow> kstate \<Rightarrow> kstate \<Rightarrow> bool" where
  "allocated a s t \<longleftrightarrow> fs_to 2 s t \<and>
     bview t = (bview s)(BBLOCK a (sb s) := mark_used (a mod BPB) (bview s (BBLOCK a (sb s))),
                         a := memset (bview s a) 0 0 BSIZE)"

lemma allocated_used:
  assumes "allocated a s t" and "map_ok s" and "a < sb_size (sb s)" and "\<not> used s a" and "c < sb_size (sb s)"
  shows "used t c = (c = a \<or> used s c)"
proof -
  have k: "sb t = sb s" using assms(1) fs_to_sb(1) [of 2 s t] by (simp add: allocated_def)
  have n: "BBLOCK c (sb s) \<noteq> a" using assms(2-5) by (auto simp: map_ok_def)
  have "c mod BPB = a mod BPB \<longleftrightarrow> c = a" if "BBLOCK c (sb s) = BBLOCK a (sb s)"
    using that by (metis BBLOCK_same div_mult_mod_eq)
  then show ?thesis
    using assms(1) k n by (auto simp: used_def allocated_def bit_used_mark_used)
qed

lemma allocated_map_ok:
  assumes "allocated a s t" and "map_ok s" and "a < sb_size (sb s)" and "\<not> used s a"
  shows "map_ok t"
proof -
  have f: "fs_to 2 s t" using assms(1) by (simp add: allocated_def)
  have k: "sb t = sb s" "busy_block t = busy_block s" "home_block t = home_block s"
    using fs_to_sb(1) [OF f] fs_to_busy [OF f] fs_to_home [OF f] by simp_all
  have "\<not> used s b" if "\<not> used t b" "b < sb_size (sb s)" for b using allocated_used [OF assms that(2)] that(1) by blast
  then show ?thesis using assms(2) k unfolding map_ok_def by auto
qed

lemma balloc_found:
  assumes "txn s" and "map_ok s" and "room_for 2 s" and "b < sb_size (sb s)" and "b mod BPB = 0"
    and x: "free_bit (bview s (BBLOCK b (sb s))) b (sb_size (sb s)) 0 = Some bi"
  shows "\<exists>t. balloc_loop ROOTDEV b (Suc n) s = Done (b + bi) t \<and> allocated (b + bi) s t \<and> \<not> used s (b + bi) \<and> b + bi < sb_size (sb s)"
proof -
  let ?k = "sb s" and ?B = "BBLOCK b (sb s)"
  have fb: "bi < BPB" "b + bi < sb_size ?k" "\<not> bit_used (bview s ?B) bi" using free_bit_Some [OF x] by auto
  have md: "(b + bi) mod BPB = bi" "BBLOCK (b + bi) ?k = ?B" using assms(5) fb(1) by (auto simp: BBLOCK_def)
  then have free: "\<not> used s (b + bi)" using fb(3) by (simp add: used_def)
  then have a: "home_block s (b + bi)" "\<not> busy_block s (b + bi)" "?B \<noteq> b + bi" using assms(2,4) fb(2) by (auto simp: map_ok_def)
  have B: "\<not> busy_block s ?B" "home_block s ?B" using assms(2,4) by (auto simp: map_ok_def)
  have r: "room_for 1 s" using room_for_mono [OF assms(3)] by simp
  obtain i t u v w where m: "bread ROOTDEV ?B s = Done i t" "bdata i t = Done (bview s ?B) t"
    "set_bdata i (mark_used bi (bview s ?B)) t = Done () u" "log_write i u = Done () v" "brelse i v = Done () w"
    "fs_to 1 s w" "bview w = (bview s)(?B := mark_used bi (bview s ?B))"
    by (rule block_update [OF assms(1) B r])
  have w: "txn w" "\<not> busy_block w (b + bi)" "home_block w (b + bi)" "room_for 1 w"
    using m(6) a fs_to_home [OF m(6)] fs_to_busy [OF m(6)] fs_to_sb(3) [OF m(6)] fs_to_room [OF m(6) assms(3)] by simp_all
  obtain z where z: "bzero ROOTDEV (b + bi) w = Done () z" "fs_to 1 w z" "bview z = (bview w)(b + bi := memset (bview w (b + bi)) 0 0 BSIZE)"
    using bzero_spec [OF w] by blast
  have "fs_to 2 s z" using fs_to_trans [OF m(6) z(2)] by (simp only: one_add_one)
  then have "allocated (b + bi) s z" using z(3) m(7) a(3) md by (auto simp: allocated_def)
  moreover have "balloc_loop ROOTDEV b (Suc n) s = Done (b + bi) z"
    using m z(1) x assms(4) by (simp add: bnd_def sq_def gets_def ret_def)
  ultimately show ?thesis using free fb(2) by blast
qed

lemma balloc_skip:
  assumes "txn s" and "map_ok s" and "room_for 0 s" and "b < sb_size (sb s)"
    and x: "free_bit (bview s (BBLOCK b (sb s))) b (sb_size (sb s)) 0 = None"
  shows "\<exists>t. balloc_loop ROOTDEV b (Suc n) s = balloc_loop ROOTDEV (b + BPB) n t \<and> fs_to 0 s t \<and> bview t = bview s"
proof -
  let ?B = "BBLOCK b (sb s)"
  have B: "\<not> busy_block s ?B" "home_block s ?B" using assms(2,4) by (auto simp: map_ok_def)
  obtain i t where m: "bread ROOTDEV ?B s = Done i t" "bdata i t = Done (bview s ?B) t"
      "\<exists>u. brelse i t = Done () u \<and> fs_to 0 s u \<and> bview u = bview s"
    using block_access [OF assms(1) B assms(3)] by metis
  then show ?thesis using x assms(4) by (auto simp: bnd_def sq_def gets_def)
qed

lemma allocated_after: "fs_to 0 s s' \<Longrightarrow> bview s' = bview s \<Longrightarrow> allocated a s' t \<Longrightarrow> allocated a s t"
  unfolding allocated_def using fs_to_trans [of 0 s s' 2 t, unfolded add_0] fs_to_sb(1) [of 0 s s'] by simp

lemma map_ok_after:
  assumes "fs_to k s t" and "bview t = bview s" and "map_ok s"
  shows "map_ok t" "used t = used s"
  using assms(2,3) fs_to_home [OF assms(1)] fs_to_busy [OF assms(1)] fs_to_sb(1) [OF assms(1)]
  by (simp_all add: map_ok_def used_def [abs_def])

lemma used_of_map_block:
  assumes "b mod BPB = 0" and "free_bit (bview s (BBLOCK b (sb s))) b (sb_size (sb s)) 0 = None"
    and "b \<le> c" and "c < b + BPB" and "c < sb_size (sb s)"
  shows "used s c"
proof -
  obtain y where y: "c = b + y" "y < BPB" using assms(3,4) by (metis add_less_cancel_left le_iff_add)
  have "c mod BPB = y" "BBLOCK c (sb s) = BBLOCK b (sb s)" using y assms(1) by (auto simp: BBLOCK_def)
  then show ?thesis using free_bit_None [OF assms(2), of y] y assms(5) by (simp add: used_def)
qed

lemma balloc_loop_spec:
  "txn s \<Longrightarrow> map_ok s \<Longrightarrow> room_for 2 s \<Longrightarrow> b mod BPB = 0 \<Longrightarrow> (\<And>c. c < b \<Longrightarrow> c < sb_size (sb s) \<Longrightarrow> used s c) \<Longrightarrow>
     x < sb_size (sb s) \<Longrightarrow> \<not> used s x \<Longrightarrow> x < b + n * BPB \<Longrightarrow>
     \<exists>a t. balloc_loop ROOTDEV b n s = Done a t \<and> allocated a s t \<and> a < sb_size (sb s) \<and> \<not> used s a \<and> (\<forall>c < a. used s c)"
proof (induction n arbitrary: b s)
  case 0
  then show ?case using "0.prems"(5) [of x] by simp
next
  case (Suc n)
  have b: "b < sb_size (sb s)" using Suc.prems(5) [of x] Suc.prems(6,7) by fastforce
  show ?case
  proof (cases "free_bit (bview s (BBLOCK b (sb s))) b (sb_size (sb s)) 0")
    case (Some bi)
    then obtain t where t: "balloc_loop ROOTDEV b (Suc n) s = Done (b + bi) t" "allocated (b + bi) s t"
        "\<not> used s (b + bi)" "b + bi < sb_size (sb s)"
      using balloc_found [OF Suc.prems(1-3) b Suc.prems(4)] by blast
    have "used s c" if c: "c < b + bi" for c
    proof (cases "c < b")
      case False
      then obtain y where y: "c = b + y" by (metis le_iff_add not_less)
      then have "y < bi" "bi < BPB" "bit_used (bview s (BBLOCK b (sb s))) y" using c free_bit_Some [OF Some] by auto
      then show ?thesis using y Suc.prems(4) by (auto simp: used_def BBLOCK_def)
    qed (use Suc.prems(5) b in auto)
    then show ?thesis using t by blast
  next
    case None
    obtain u where u: "balloc_loop ROOTDEV b (Suc n) s = balloc_loop ROOTDEV (b + BPB) n u" "fs_to 0 s u" "bview u = bview s"
      using balloc_skip [OF Suc.prems(1,2) room_for_mono [OF Suc.prems(3)] b None] by auto
    have k: "sb u = sb s" "txn u" "room_for 2 u" "map_ok u" "used u = used s"
      using fs_to_sb [OF u(2)] fs_to_room [OF u(2) Suc.prems(3), of 2] map_ok_after [OF u(2,3) Suc.prems(2)] by simp_all
    have "used u c" if "c < b + BPB" "c < sb_size (sb u)" for c
      using used_of_map_block [OF Suc.prems(4) None, of c] Suc.prems(5) [of c] that k by (cases "c < b") auto
    then have "\<exists>a t. balloc_loop ROOTDEV (b + BPB) n u = Done a t \<and> allocated a u t \<and> a < sb_size (sb u) \<and> \<not> used u a \<and> (\<forall>c < a. used u c)"
      using Suc.prems(4,6-8) k by (intro Suc.IH) (auto simp: algebra_simps)
    then show ?thesis using u k allocated_after [OF u(2,3)] by auto
  qed
qed

lemma balloc_loop_full:
  "txn s \<Longrightarrow> map_ok s \<Longrightarrow> room_for 0 s \<Longrightarrow> b mod BPB = 0 \<Longrightarrow> (\<And>c. c < sb_size (sb s) \<Longrightarrow> used s c) \<Longrightarrow>
     balloc_loop ROOTDEV b n s = Panic ''balloc: out of blocks''"
proof (induction n arbitrary: b s)
  case 0
  then show ?case by (simp add: panic_def)
next
  case (Suc n)
  show ?case
  proof (cases "b < sb_size (sb s)")
    case True
    have "free_bit (bview s (BBLOCK b (sb s))) b (sb_size (sb s)) 0 = None"
    proof (rule ccontr)
      assume "free_bit (bview s (BBLOCK b (sb s))) b (sb_size (sb s)) 0 \<noteq> None"
      then obtain bi where x: "free_bit (bview s (BBLOCK b (sb s))) b (sb_size (sb s)) 0 = Some bi" by blast
      have "used s (b + bi)" "bi < BPB" using Suc.prems(5) [of "b + bi"] free_bit_Some [OF x] by auto
      then show False using free_bit_Some [OF x] Suc.prems(4) by (auto simp: used_def BBLOCK_def)
    qed
    then obtain u where u: "balloc_loop ROOTDEV b (Suc n) s = balloc_loop ROOTDEV (b + BPB) n u" "fs_to 0 s u" "bview u = bview s"
      using balloc_skip [OF Suc.prems(1-3) True] by auto
    have k: "sb u = sb s" "txn u" "room_for 0 u" "map_ok u" "used u = used s"
      using fs_to_sb [OF u(2)] fs_to_room [OF u(2) Suc.prems(3), of 0] map_ok_after [OF u(2,3) Suc.prems(2)] by simp_all
    have "balloc_loop ROOTDEV (b + BPB) n u = Panic ''balloc: out of blocks''"
      using k Suc.prems(4,5) by (intro Suc.IH) auto
    then show ?thesis using u(1) by simp
  next
    case False
    then show ?thesis by (simp add: bnd_def gets_def panic_def)
  qed
qed

lemma balloc_spec:
  assumes "txn s" and "map_ok s" and "room_for 2 s" and "\<exists>x < sb_size (sb s). \<not> used s x"
  shows "\<exists>a t. balloc ROOTDEV s = Done a t \<and> allocated a s t \<and> a < sb_size (sb s) \<and> \<not> used s a \<and> (\<forall>c < a. used s c)"
proof -
  obtain x where x: "x < sb_size (sb s)" "\<not> used s x" using assms(4) by blast
  have "x < 0 + Suc (sb_size (sb s) div BPB) * BPB" using x(1) by simp
  then show ?thesis using balloc_loop_spec [OF assms(1-3), of 0 x] x by (simp add: balloc_def bnd_def gets_def del: balloc_loop.simps)
qed

text \<open>
  C25: \<open>balloc\<close> allocates the first free block.  Inside a transaction with room for two
  blocks, when the map has a free block, \<open>balloc\<close> returns the lowest one; afterwards
  that block is in use and reads as zeros, every other bit of the map and the contents of
  every other block outside the map are as before, and the file system is again in a
  state in which \<open>balloc\<close> can be called.  When every block is in use it panics.
\<close>

theorem balloc_first_free:
  assumes "txn s" and "map_ok s" and "room_for 2 s"
  shows "if \<exists>x < sb_size (sb s). \<not> used s x then
      \<exists>a t. balloc ROOTDEV s = Done a t \<and> a < sb_size (sb s) \<and> \<not> used s a \<and> (\<forall>c < a. used s c) \<and>
        (\<forall>c < sb_size (sb s). used t c = (c = a \<or> used s c)) \<and> (\<forall>i < BSIZE. bview t a i = 0) \<and>
        (\<forall>b. b \<noteq> a \<and> b \<noteq> BBLOCK a (sb s) \<longrightarrow> bview t b = bview s b) \<and> txn t \<and> map_ok t
    else balloc ROOTDEV s = Panic ''balloc: out of blocks''"
proof (cases "\<exists>x < sb_size (sb s). \<not> used s x")
  case True
  obtain a t where t: "balloc ROOTDEV s = Done a t" "allocated a s t" "a < sb_size (sb s)" "\<not> used s a" "\<forall>c < a. used s c"
    using balloc_spec [OF assms True] by blast
  have "bview t a i = 0" if "i < BSIZE" for i
    using t(2) that by (simp add: allocated_def memset_filled filled_def)
  moreover have "bview t b = bview s b" if "b \<noteq> a" "b \<noteq> BBLOCK a (sb s)" for b using t(2) that by (simp add: allocated_def)
  moreover have "txn t" using t(2) by (simp add: allocated_def fs_to_def)
  ultimately show ?thesis
    using True t allocated_used [OF t(2) assms(2) t(3,4)] allocated_map_ok [OF t(2) assms(2) t(3,4)] by auto
next
  case False
  then show ?thesis
    using balloc_loop_full [OF assms(1,2) room_for_mono [OF assms(3)], of 0] by (simp add: balloc_def bnd_def gets_def del: balloc_loop.simps)
qed

section \<open>Freeing a block\<close>

text \<open>The superblock on disk is the one in memory, and nobody holds it.\<close>

definition super_ok :: "kstate \<Rightarrow> bool" where
  "super_ok s \<longleftrightarrow> dec_sb (bview s 1) = sb s \<and> home_block s 1 \<and> \<not> busy_block s 1"

lemma readsb_spec:
  assumes "txn s" and "super_ok s" and "room_for 0 s"
  shows "\<exists>t. readsb ROOTDEV s = Done (sb s) t \<and> fs_to 0 s t \<and> bview t = bview s"
proof -
  have b: "\<not> busy_block s 1" "home_block s 1" using assms(2) by (simp_all add: super_ok_def)
  obtain i t where m: "bread ROOTDEV 1 s = Done i t" "bdata i t = Done (bview s 1) t"
      "\<exists>u. brelse i t = Done () u \<and> fs_to 0 s u \<and> bview u = bview s"
    using block_access [OF assms(1) b assms(3)] by metis
  then show ?thesis using assms(2) by (auto simp: readsb_def bnd_def sq_def ret_def super_ok_def)
qed

lemma sb_same: "sb s = k \<Longrightarrow> s\<lparr>sb := k\<rparr> = s" for s :: kstate
  by auto

text \<open>
  C26: \<open>bfree\<close> is the inverse of \<open>balloc\<close> on the free map: it clears the bit of a block in
  use and no other bit, and panics on a block that is free already.
\<close>

theorem bfree_frees:
  assumes "txn s" and "map_ok s" and "super_ok s" and "room_for 1 s" and "b < sb_size (sb s)"
  shows "if used s b then
      \<exists>t. bfree ROOTDEV b s = Done () t \<and> txn t \<and> (\<forall>c < sb_size (sb s). used t c = (c \<noteq> b \<and> used s c)) \<and>
        (\<forall>c. c \<noteq> BBLOCK b (sb s) \<longrightarrow> bview t c = bview s c)
    else bfree ROOTDEV b s = Panic ''freeing free block''"
proof -
  let ?B = "BBLOCK b (sb s)"
  obtain u where u: "readsb ROOTDEV s = Done (sb s) u" "fs_to 0 s u" "bview u = bview s"
    using readsb_spec [OF assms(1,3) room_for_mono [OF assms(4)]] by auto
  have k: "sb u = sb s" "txn u" "home_block u = home_block s" "busy_block u = busy_block s" "room_for 1 u"
    using fs_to_sb [OF u(2)] fs_to_home [OF u(2)] fs_to_busy [OF u(2)] fs_to_room [OF u(2) assms(4)] by simp_all
  have B: "\<not> busy_block u ?B" "home_block u ?B" using assms(2,5) k by (auto simp: map_ok_def)
  show ?thesis
  proof (cases "used s b")
    case True
    obtain i t v x w where m: "bread ROOTDEV ?B u = Done i t" "bdata i t = Done (bview u ?B) t"
      "set_bdata i (mark_free (b mod BPB) (bview u ?B)) t = Done () v" "log_write i v = Done () x" "brelse i x = Done () w"
      "fs_to 1 u w" "bview w = (bview u)(?B := mark_free (b mod BPB) (bview u ?B))"
      by (rule block_update [OF k(2) B k(5)])
    have "bfree ROOTDEV b s = Done () w"
      using u(1,3) m True k(1) by (simp add: bfree_def bnd_def sq_def modify_def sb_same used_def)
    moreover have "used w c = (c \<noteq> b \<and> used s c)" for c
    proof -
      have "c mod BPB = b mod BPB \<longleftrightarrow> c = b" if "BBLOCK c (sb s) = ?B" using that by (metis BBLOCK_same div_mult_mod_eq)
      then show ?thesis using m(7) u(3) k(1) fs_to_sb(1) [OF m(6)] by (auto simp: used_def bit_used_mark_free)
    qed
    ultimately show ?thesis using True m(7) u(3) fs_to_sb(3) [OF m(6)] by auto
  next
    case False
    obtain i t where m: "bread ROOTDEV ?B u = Done i t" "bdata i t = Done (bview u ?B) t"
      using block_access [OF k(2) B room_for_mono [OF k(5)]] by (metis le0)
    then show ?thesis
      using u(1,3) False k(1) by (simp add: bfree_def bnd_def sq_def modify_def sb_same used_def panic_def)
  qed
qed

section \<open>Inodes on disk\<close>

text \<open>The fields of an inode in the ranges of their C types.\<close>

definition dinode_ok :: "dinode \<Rightarrow> bool" where
  "dinode_ok di \<longleftrightarrow> - 32768 \<le> di_type di \<and> di_type di < 32768 \<and> - 32768 \<le> di_major di \<and> di_major di < 32768 \<and>
     - 32768 \<le> di_minor di \<and> di_minor di < 32768 \<and> - 32768 \<le> di_nlink di \<and> di_nlink di < 32768 \<and>
     di_uid di < 65536 \<and> di_gid di < 65536 \<and> di_mode di < 2 ^ 32 \<and> di_size di < 2 ^ 32 \<and>
     (\<forall>k \<le> NDIRECT. di_addrs di k < 2 ^ 32)"

text \<open>Equality of two inodes up to addresses an inode does not have.\<close>

definition same_dinode :: "dinode \<Rightarrow> dinode \<Rightarrow> bool" where
  "same_dinode x y \<longleftrightarrow> di_type x = di_type y \<and> di_major x = di_major y \<and> di_minor x = di_minor y \<and> di_nlink x = di_nlink y \<and>
     di_uid x = di_uid y \<and> di_gid x = di_gid y \<and> di_mode x = di_mode y \<and> di_size x = di_size y \<and>
     (\<forall>k \<le> NDIRECT. di_addrs x k = di_addrs y k)"

lemma nat16_small: "nat16 v < 65536"
  by (simp add: nat16_def nat_less_iff)

lemma put_addrs_get16: "q + 2 \<le> p \<or> p + 4 * (NDIRECT + 1) \<le> q \<Longrightarrow> get16 (put_addrs p a d) q = get16 d q"
  and put_addrs_get32: "q + 4 \<le> p \<or> p + 4 * (NDIRECT + 1) \<le> q \<Longrightarrow> get32 (put_addrs p a d) q = get32 d q"
proof -
  have 1: "get16 (fold (\<lambda>k. put32 (p + 4 * k) (a k)) [0 ..< n] d) q = get16 d q" if "n \<le> NDIRECT + 1" "q + 2 \<le> p \<or> p + 4 * (NDIRECT + 1) \<le> q" for n
    using that by (induction n) (auto simp: enc)
  have 2: "get32 (fold (\<lambda>k. put32 (p + 4 * k) (a k)) [0 ..< n] d) q = get32 d q" if "n \<le> NDIRECT + 1" "q + 4 \<le> p \<or> p + 4 * (NDIRECT + 1) \<le> q" for n
    using that by (induction n) (auto simp: enc)
  show "q + 2 \<le> p \<or> p + 4 * (NDIRECT + 1) \<le> q \<Longrightarrow> get16 (put_addrs p a d) q = get16 d q"
    "q + 4 \<le> p \<or> p + 4 * (NDIRECT + 1) \<le> q \<Longrightarrow> get32 (put_addrs p a d) q = get32 d q"
    unfolding put_addrs_def using 1 [of "NDIRECT + 1"] 2 [of "NDIRECT + 1"] by simp_all
qed

lemma put_addrs_same: "k \<le> NDIRECT \<Longrightarrow> a k < 2 ^ 32 \<Longrightarrow> get32 (put_addrs p a d) (p + 4 * k) = a k"
proof -
  assume k: "k \<le> NDIRECT" "a k < 2 ^ 32"
  have "get32 (fold (\<lambda>k. put32 (p + 4 * k) (a k)) [0 ..< n] d) (p + 4 * k) = a k" if "k < n" for n
    using that
  proof (induction n)
    case (Suc n)
    then show ?case using k(2) by (cases "k = n") (auto simp: enc)
  qed simp
  then show ?thesis unfolding put_addrs_def using k(1) by simp
qed

lemma dec_enc_dinode:
  assumes "dinode_ok di"
  shows "same_dinode (dec_dinode (enc_dinode p di d) p) di"
  using assms
  by (auto simp: same_dinode_def dec_dinode_def enc_dinode_def dinode_ok_def put_addrs_get16 put_addrs_get32 put_addrs_same
      enc sint16_nat16 nat16_small)

lemma dec_enc_dinode_other:
  assumes "q + 64 \<le> p \<or> p + 64 \<le> q"
  shows "same_dinode (dec_dinode (enc_dinode p di d) q) (dec_dinode d q)"
  using assms
  by (auto simp: same_dinode_def dec_dinode_def enc_dinode_def put_addrs_get16 put_addrs_get32 enc)

definition disk_inode :: "kstate \<Rightarrow> nat \<Rightarrow> dinode" where
  "disk_inode s n = dec_dinode (bview s (IBLOCK n (sb s))) (dinode_off n)"

lemma icache_update [simp]:
  "bview (s\<lparr>icache := x\<rparr>) = bview s" "pinned (s\<lparr>icache := x\<rparr>) = pinned s"
  "busy_block (s\<lparr>icache := x\<rparr>) = busy_block s" "hold (s\<lparr>icache := x\<rparr>) = hold s"
  "spare (s\<lparr>icache := x\<rparr>) = spare s" "bio_ok (s\<lparr>icache := x\<rparr>) = bio_ok s"
  "txn (s\<lparr>icache := x\<rparr>) = txn s" "room_for n (s\<lparr>icache := x\<rparr>) = room_for n s" "home_block (s\<lparr>icache := x\<rparr>) = home_block s"
proof -
  show e: "bview (s\<lparr>icache := x\<rparr>) = bview s" "pinned (s\<lparr>icache := x\<rparr>) = pinned s"
    "busy_block (s\<lparr>icache := x\<rparr>) = busy_block s" "hold (s\<lparr>icache := x\<rparr>) = hold s" "spare (s\<lparr>icache := x\<rparr>) = spare s"
    by (rule bio_cong, simp, simp)+
  show b: "bio_ok (s\<lparr>icache := x\<rparr>) = bio_ok s"
    using bio_cong(6) [of "s\<lparr>icache := x\<rparr>" s] by (simp add: bio_ok_def ptable_ok_def)
  show "txn (s\<lparr>icache := x\<rparr>) = txn s" "room_for n (s\<lparr>icache := x\<rparr>) = room_for n s" "home_block (s\<lparr>icache := x\<rparr>) = home_block s"
    by (simp_all add: txn_def log_inv_def room_for_def home_block_def e b fun_eq_iff)
qed

lemma dinode_apart: "n div IPB = m div IPB \<Longrightarrow> n \<noteq> m \<Longrightarrow> dinode_off n + 64 \<le> dinode_off m \<or> dinode_off m + 64 \<le> dinode_off n"
proof -
  assume "n div IPB = m div IPB" "n \<noteq> m"
  then have "n mod IPB \<noteq> m mod IPB" by (metis div_mult_mod_eq)
  then show ?thesis by (auto simp: dinode_off_def)
qed

lemma same_dinode_refl [simp]: "same_dinode x x"
  by (simp add: same_dinode_def)

lemma iupdate_spec:
  assumes "txn s" and "i < length (icache s)" and "ip = icache s ! i" and "i_dev ip = ROOTDEV" and "room_for 1 s"
    and b: "home_block s (IBLOCK (i_inum ip) (sb s))" "\<not> busy_block s (IBLOCK (i_inum ip) (sb s))"
  shows "\<exists>t. iupdate i s = Done () t \<and> fs_to 1 s t \<and>
    bview t = (bview s)(IBLOCK (i_inum ip) (sb s) := enc_dinode (dinode_off (i_inum ip)) (dinode_of ip) (bview s (IBLOCK (i_inum ip) (sb s))))"
proof -
  let ?B = "IBLOCK (i_inum ip) (sb s)"
  obtain j t u v w where m: "bread ROOTDEV ?B s = Done j t" "bdata j t = Done (bview s ?B) t"
    "set_bdata j (enc_dinode (dinode_off (i_inum ip)) (dinode_of ip) (bview s ?B)) t = Done () u" "log_write j u = Done () v" "brelse j v = Done () w"
    "fs_to 1 s w" "bview w = (bview s)(?B := enc_dinode (dinode_off (i_inum ip)) (dinode_of ip) (bview s ?B))"
    by (rule block_update [OF assms(1) b(2,1) assms(5)])
  then show ?thesis
    using assms(3,4) by (simp add: iupdate_def bnd_def sq_def geti_def gets_def)
qed

lemma iupdate_inodes:
  assumes "bview t = (bview s)(IBLOCK n (sb s) := enc_dinode (dinode_off n) di (bview s (IBLOCK n (sb s))))" and "sb t = sb s" and "dinode_ok di"
  shows "same_dinode (disk_inode t n) di" "m \<noteq> n \<Longrightarrow> same_dinode (disk_inode t m) (disk_inode s m)"
proof -
  show "same_dinode (disk_inode t n) di" using assms dec_enc_dinode by (simp add: disk_inode_def)
  assume mn: "m \<noteq> n"
  show "same_dinode (disk_inode t m) (disk_inode s m)"
  proof (cases "IBLOCK m (sb s) = IBLOCK n (sb s)")
    case True
    then have "dinode_off m + 64 \<le> dinode_off n \<or> dinode_off n + 64 \<le> dinode_off m"
      using dinode_apart [of m n] mn by (simp add: IBLOCK_def)
    then show ?thesis using assms(1,2) True dec_enc_dinode_other by (simp add: disk_inode_def)
  qed (use assms(1,2) in \<open>simp add: disk_inode_def\<close>)
qed

lemma ilock_read_spec:
  assumes "txn s" and "i < length (icache s)" and "ip = icache s ! i" and "i_dev ip = ROOTDEV" and "room_for 0 s" and "\<not> i_valid ip"
    and b: "home_block s (IBLOCK (i_inum ip) (sb s))" "\<not> busy_block s (IBLOCK (i_inum ip) (sb s))"
    and ty: "di_type (disk_inode s (i_inum ip)) \<noteq> 0"
  shows "\<exists>t. ilock_read i s = Done () t \<and> bview t = bview s \<and> txn t \<and>
    icache t = (icache s)[i := (load_dinode (disk_inode s (i_inum ip)) ip)\<lparr>i_valid := True\<rparr>]"
proof -
  let ?B = "IBLOCK (i_inum ip) (sb s)" and ?di = "disk_inode s (i_inum ip)"
  obtain j t where t: "bread ROOTDEV ?B s = Done j t" "bdata j t = Done (bview s ?B) t" "bread_post s ?B j t" "txn t"
      "?B \<in> pinned t \<or> bview t ?B = disk t ?B"
    by (rule block_get [OF assms(1) b(2,1) assms(5)])
  let ?t = "t\<lparr>icache := upd_nth i (load_dinode ?di) (icache t)\<rparr>"
  have bt: "bio_ok ?t" "hold ?t j ?B" "?B \<in> pinned ?t \<or> bview ?t ?B = disk ?t ?B" "icache t = icache s" "bview t = bview s" "klog t = klog s"
    using t(3-5) by (auto simp: bread_post_def txn_def same_rest_def)
  obtain u where u: "brelse j ?t = Done () u" "let_go ?t j ?B u" using brelse_twp [OF bt(1-3)] by (auto simp: twp_iff)
  have uk: "bview u = bview s" "icache u = upd_nth i (load_dinode ?di) (icache s)" using u(2) bt(4,5) by (auto simp: let_go_def same_rest_def)
  have "txn u" using u(2) t(4) by (auto simp: let_go_def txn_def log_inv_def same_rest_def)
  moreover have "ilock_read i s = Done () (u\<lparr>icache := upd_nth i (\<lambda>ip. ip\<lparr>i_valid := True\<rparr>) (icache u)\<rparr>)"
    using t(1,2) u(1) assms(3,4,6) ty bt(4)
    by (simp add: ilock_read_def bnd_def sq_def geti_def seti_def gets_def modify_def ret_def Let_def disk_inode_def)
  ultimately show ?thesis using uk assms(2,3) by (auto simp: upd_nth_def)
qed

text \<open>
  C27: an inode survives its way to the disk and back.  \<open>iupdate\<close> of an inode whose
  fields are in the ranges of their C types changes no other inode and no other block,
  and when the cache slot is later loaded again by \<open>ilock\<close> every field has the value
  that was written.
\<close>

theorem iupdate_ilock_roundtrip:
  assumes "txn s" and "i < length (icache s)" and "ip = icache s ! i" and "i_dev ip = ROOTDEV" and "room_for 1 s"
    and "home_block s (IBLOCK (i_inum ip) (sb s))" and "\<not> busy_block s (IBLOCK (i_inum ip) (sb s))"
    and "dinode_ok (dinode_of ip)" and "i_type ip \<noteq> 0"
    and "i_dev q = ROOTDEV" and "i_inum q = i_inum ip" and "\<not> i_valid q"
  shows "\<exists>t. iupdate i s = Done () t \<and> (\<forall>m. m \<noteq> i_inum ip \<longrightarrow> same_dinode (disk_inode t m) (disk_inode s m)) \<and>
    (\<forall>b. b \<noteq> IBLOCK (i_inum ip) (sb s) \<longrightarrow> bview t b = bview s b) \<and>
    (\<exists>u. ilock_read i (t\<lparr>icache := (icache t)[i := q]\<rparr>) = Done () u \<and> same_dinode (dinode_of (icache u ! i)) (dinode_of ip))"
proof -
  obtain t where t: "iupdate i s = Done () t" "fs_to 1 s t"
    "bview t = (bview s)(IBLOCK (i_inum ip) (sb s) := enc_dinode (dinode_off (i_inum ip)) (dinode_of ip) (bview s (IBLOCK (i_inum ip) (sb s))))"
    using iupdate_spec [OF assms(1-7)] by blast
  have k: "sb t = sb s" "icache t = icache s" "txn t" "room_for 0 t" "home_block t = home_block s" "busy_block t = busy_block s"
    using fs_to_sb [OF t(2)] fs_to_room [OF t(2) assms(5)] fs_to_home [OF t(2)] fs_to_busy [OF t(2)] by simp_all
  note di = iupdate_inodes [OF t(3) k(1) assms(8)]
  let ?v = "t\<lparr>icache := (icache t)[i := q]\<rparr>"
  have dv: "disk_inode ?v = disk_inode t" by (simp add: disk_inode_def fun_eq_iff)
  have ty: "di_type (disk_inode ?v (i_inum q)) \<noteq> 0"
    using di(1) assms(9,11) dv by (auto simp: same_dinode_def dinode_of_def)
  obtain u where u: "ilock_read i ?v = Done () u"
      "icache u = (icache ?v)[i := (load_dinode (disk_inode ?v (i_inum q)) q)\<lparr>i_valid := True\<rparr>]"
    using ilock_read_spec [of ?v i q] k assms(2,6,7,10-12) ty by auto
  have "same_dinode (dinode_of (icache u ! i)) (dinode_of ip)"
    using u(2) di(1) assms(2,11) k(2) dv by (auto simp: same_dinode_def dinode_of_def load_dinode_def)
  then show ?thesis using t(1,3) di(2) u(1) by auto
qed

section \<open>An example\<close>

text \<open>
  A disk of 2000 blocks with the superblock in block 1, the log from block 2 on, inodes
  from block 40 on and the free map in block 60, where blocks 0 to 103 are in use.
\<close>

definition example_sb :: superblock where
  "example_sb = \<lparr>sb_size = 1000, sb_nblocks = 900, sb_ninodes = 100, sb_nlog = 31, sb_logstart = 2, sb_inodestart = 40, sb_bmapstart = 60\<rparr>"

definition example_super :: bytes where
  "example_super = put32 24 60 (put32 20 40 (put32 16 2 (put32 12 31 (put32 8 100 (put32 4 900 (put32 0 1000 zeros))))))"

definition example_disk :: "nat \<Rightarrow> bytes" where
  "example_disk b = (if b = 1 then example_super else if b = 60 then (\<lambda>i. if i < 13 then 255 else 0) else zeros)"

definition example_inode :: inode where
  "example_inode = zero_inode\<lparr>i_dev := ROOTDEV, i_inum := 5, i_ref := 1, i_valid := True, i_type := 2, i_nlink := 1, i_size := 700\<rparr>"

lemma sb_update [simp]:
  "bview (s\<lparr>sb := x\<rparr>) = bview s" "pinned (s\<lparr>sb := x\<rparr>) = pinned s"
  "busy_block (s\<lparr>sb := x\<rparr>) = busy_block s" "spare (s\<lparr>sb := x\<rparr>) = spare s" "bio_ok (s\<lparr>sb := x\<rparr>) = bio_ok s"
proof -
  show "bview (s\<lparr>sb := x\<rparr>) = bview s" "pinned (s\<lparr>sb := x\<rparr>) = pinned s"
    "busy_block (s\<lparr>sb := x\<rparr>) = busy_block s" "spare (s\<lparr>sb := x\<rparr>) = spare s"
    by (rule bio_cong, simp, simp)+
  show "bio_ok (s\<lparr>sb := x\<rparr>) = bio_ok s"
    using bio_cong(6) [of "s\<lparr>sb := x\<rparr>" s] by (simp add: bio_ok_def ptable_ok_def)
qed

lemma example_fs:
  "\<exists>s. txn s \<and> room_for 20 s \<and> bview s = example_disk \<and> sb s = example_sb \<and> disksize s = 2000 \<and> (\<forall>b. \<not> busy_block s b) \<and>
     log_area (klog s) = {2 .. 32} \<and> icache s = [example_inode]"
proof -
  obtain a where a: "bio_ok a" "disksize a = 2000" "\<forall>b. \<not> busy_block a b" "card (spare a) = NBUF" "pinned a = {}" "bview a = example_disk"
    using boot_example [where d = example_disk and n = 2000] by blast
  let ?s = "a\<lparr>klog := example_log, sb := example_sb, icache := [example_inode]\<rparr>"
  have "log_inv ?s" using a by (simp add: log_inv_def log_geom_def logged_def example_log_def)
  then show ?thesis
    using a by (intro exI [of _ ?s]) (simp add: txn_def log_inv_def room_for_def example_log_def log_area_def)
qed

lemma example_map:
  assumes "bview s = example_disk" and "sb s = example_sb" and "b < 1000"
  shows "used s b = (b < 104)" "BBLOCK b (sb s) = 60"
proof -
  show B: "BBLOCK b (sb s) = 60" using assms by (simp add: BBLOCK_def example_sb_def)
  have "b mod 4096 = b" using assms(3) by simp
  moreover have "b div 8 < 13 \<longleftrightarrow> b < 104" by linarith
  moreover have "bit (255 :: byte) (b mod 8)"
  proof -
    have "(255 :: byte) = mask 8" by (simp add: mask_eq_exp_minus_1)
    then show ?thesis by (simp only: bit_mask_iff) (simp add: possible_bit_word)
  qed
  ultimately show "used s b = (b < 104)" unfolding used_def B assms(1) by (auto simp: bit_used_iff example_disk_def)
qed

lemma example_ok:
  assumes "bview s = example_disk" "sb s = example_sb" "disksize s = 2000" "\<forall>b. \<not> busy_block s b" "log_area (klog s) = {2 .. 32}"
  shows "map_ok s" "super_ok s"
proof -
  have sz: "sb_size (sb s) = 1000" using assms(2) by (simp add: example_sb_def)
  show "map_ok s"
    unfolding map_ok_def sz using example_map [OF assms(1,2)] assms(3-5) by (auto simp: home_block_def)
  show "super_ok s"
    using assms by (simp add: super_ok_def home_block_def example_disk_def example_super_def example_sb_def dec_sb_def enc)
qed

theorem balloc_first_free_witness:
  "\<exists>s a t. txn s \<and> map_ok s \<and> room_for 2 s \<and> balloc ROOTDEV s = Done a t \<and> a = 104 \<and> used t 104 \<and> \<not> used t 105"
proof -
  obtain s where s: "txn s" "room_for 20 s" "bview s = example_disk" "sb s = example_sb" "disksize s = 2000"
      "\<forall>b. \<not> busy_block s b" "log_area (klog s) = {2 .. 32}"
    using example_fs by blast
  have m: "map_ok s" "room_for 2 s" using example_ok [OF s(3-7)] room_for_mono [OF s(2)] by simp_all
  have sz: "sb_size (sb s) = 1000" using s(4) by (simp add: example_sb_def)
  note u = example_map [OF s(3,4)]
  have "\<exists>x < sb_size (sb s). \<not> used s x" using u(1) [of 104] sz by (intro exI [of _ 104]) simp
  then obtain a t where t: "balloc ROOTDEV s = Done a t" "a < 1000" "\<not> used s a" "\<forall>c < a. used s c"
      "\<forall>c < 1000. used t c = (c = a \<or> used s c)"
    using balloc_first_free [OF s(1) m] sz by auto
  have "\<not> a < 104" using t(2,3) u(1) [of a] by simp
  moreover have "\<not> 104 < a" using t(4) u(1) [of 104] by auto
  ultimately have "a = 104" by simp
  then show ?thesis using s(1) m t u(1) [of 105] by auto
qed

theorem bfree_frees_witness:
  "\<exists>s t. txn s \<and> map_ok s \<and> super_ok s \<and> room_for 1 s \<and> used s 100 \<and> bfree ROOTDEV 100 s = Done () t \<and> \<not> used t 100 \<and>
     bfree ROOTDEV 200 s = Panic ''freeing free block''"
proof -
  obtain s where s: "txn s" "room_for 20 s" "bview s = example_disk" "sb s = example_sb" "disksize s = 2000"
      "\<forall>b. \<not> busy_block s b" "log_area (klog s) = {2 .. 32}"
    using example_fs by blast
  have m: "map_ok s" "super_ok s" "room_for 1 s" using example_ok [OF s(3-7)] room_for_mono [OF s(2)] by simp_all
  have sz: "sb_size (sb s) = 1000" using s(4) by (simp add: example_sb_def)
  have u: "used s 100" "\<not> used s 200" using example_map [OF s(3,4)] by simp_all
  obtain t where "bfree ROOTDEV 100 s = Done () t" "\<not> used t 100"
    using bfree_frees [OF s(1) m, of 100] u sz by auto
  moreover have "bfree ROOTDEV 200 s = Panic ''freeing free block''" using bfree_frees [OF s(1) m, of 200] u sz by simp
  ultimately show ?thesis using s(1) m u by blast
qed

theorem iupdate_ilock_roundtrip_witness:
  "\<exists>s t u. txn s \<and> room_for 1 s \<and> icache s ! 0 = example_inode \<and> iupdate 0 s = Done () t \<and>
     ilock_read 0 (t\<lparr>icache := (icache t)[0 := zero_inode\<lparr>i_dev := ROOTDEV, i_inum := 5\<rparr>]\<rparr>) = Done () u \<and> i_size (icache u ! 0) = 700"
proof -
  obtain s where s: "txn s" "room_for 20 s" "bview s = example_disk" "sb s = example_sb" "disksize s = 2000"
      "\<forall>b. \<not> busy_block s b" "log_area (klog s) = {2 .. 32}" "icache s = [example_inode]"
    using example_fs by blast
  have r: "room_for 1 s" using room_for_mono [OF s(2)] by simp
  have ip: "0 < length (icache s)" "example_inode = icache s ! 0" "i_dev example_inode = ROOTDEV" using s(8) by (simp_all add: example_inode_def)
  have b: "home_block s (IBLOCK (i_inum example_inode) (sb s))" "\<not> busy_block s (IBLOCK (i_inum example_inode) (sb s))"
    using s(4-7) by (simp_all add: home_block_def IBLOCK_def example_inode_def example_sb_def)
  have d: "dinode_ok (dinode_of example_inode)" "i_type example_inode \<noteq> 0"
    by (simp_all add: dinode_ok_def dinode_of_def example_inode_def zero_inode_def)
  let ?q = "zero_inode\<lparr>i_dev := ROOTDEV, i_inum := 5\<rparr>"
  have q: "i_dev ?q = ROOTDEV" "i_inum ?q = i_inum example_inode" "\<not> i_valid ?q" by (simp_all add: example_inode_def zero_inode_def)
  obtain t u where "iupdate 0 s = Done () t" "ilock_read 0 (t\<lparr>icache := (icache t)[0 := ?q]\<rparr>) = Done () u"
      "same_dinode (dinode_of (icache u ! 0)) (dinode_of example_inode)"
    using iupdate_ilock_roundtrip [OF s(1) ip r b d q] by blast
  then show ?thesis using s(1) r ip(2) by (auto simp: same_dinode_def dinode_of_def example_inode_def)
qed

end
