(* ===== verification/Paths.thy ===== *)
theory Paths
  imports Dir
begin

text \<open>
  Path names: \<open>namex\<close> (\<open>fs.c\<close>), which consumes the path with \<open>skipelem\<close> and keeps the
  current element in a buffer of \<open>DIRSIZ\<close> bytes, is a walk over the list of the path's
  components.
\<close>

section \<open>Components\<close>

definition components :: "byte list \<Rightarrow> byte list list" where
  "components path = filter (\<lambda>x. x \<noteq> []) (split_on SLASH path)"

lemma components_slash [simp]: "components (SLASH # path) = components path" "components [] = []"
  by (simp_all add: components_def)

lemma components_dropWhile: "components (dropWhile (\<lambda>c. c = SLASH) path) = components path"
  by (induction path) auto

lemma components_element:
  assumes "path \<noteq> []" and "hd path \<noteq> SLASH"
  shows "components path = takeWhile (\<lambda>c. c \<noteq> SLASH) path # components (dropWhile (\<lambda>c. c \<noteq> SLASH) path)"
proof -
  have ne: "takeWhile (\<lambda>c. c \<noteq> SLASH) path \<noteq> []" using assms by (cases path) auto
  show ?thesis
  proof (cases "dropWhile (\<lambda>c. c \<noteq> SLASH) path")
    case Nil
    have s: "split_on SLASH path = [takeWhile (\<lambda>c. c \<noteq> SLASH) path]" using split_on_first [of SLASH path] unfolding Nil by simp
    show ?thesis unfolding Nil unfolding components_def s using ne by simp
  next
    case (Cons c rest)
    then have "c = SLASH" using hd_dropWhile [of "\<lambda>c. c \<noteq> SLASH" path] by simp
    moreover have s: "split_on SLASH path = takeWhile (\<lambda>c. c \<noteq> SLASH) path # split_on SLASH rest"
      using split_on_first [of SLASH path] unfolding Cons by simp
    ultimately show ?thesis unfolding Cons unfolding components_def s using ne by simp
  qed
qed

text \<open>One step of \<open>skipelem\<close> takes the first component, cut to the length of a name.\<close>

lemma skipelem_None: "skipelem path name = None \<longleftrightarrow> components path = []"
proof
  let ?p = "dropWhile (\<lambda>c. c = SLASH) path"
  show "components path = []" if "skipelem path name = None"
  proof -
    have "?p = []" using that unfolding skipelem_def Let_def by (metis option.distinct(1))
    then show ?thesis using components_dropWhile [of path] by (simp only: components_slash)
  qed
  show "skipelem path name = None" if c: "components path = []"
  proof (rule ccontr)
    assume "skipelem path name \<noteq> None"
    then have ne: "?p \<noteq> []" unfolding skipelem_def Let_def by metis
    then have "hd ?p \<noteq> SLASH" by (rule hd_dropWhile)
    then show False using components_element [OF ne] components_dropWhile [of path] c by simp
  qed
qed

lemma skipelem_Some:
  assumes "skipelem path name = Some (path', name')" and "0 \<notin> set path"
  obtains e where "components path = e # components path'" "cstrn name' 0 DIRSIZ = take DIRSIZ e" "0 \<notin> set e" "0 \<notin> set path'"
    "components path' = [] \<longleftrightarrow> path' = []"
proof -
  let ?p = "dropWhile (\<lambda>c. c = SLASH) path"
  let ?e = "takeWhile (\<lambda>c. c \<noteq> SLASH) ?p"
  let ?r = "dropWhile (\<lambda>c. c \<noteq> SLASH) ?p"
  have ne: "?p \<noteq> []" and p': "path' = dropWhile (\<lambda>c. c = SLASH) ?r"
    and n': "name' = (if DIRSIZ \<le> length ?e then blit DIRSIZ 0 (bytes_of ?e) 0 name
                    else (blit (length ?e) 0 (bytes_of ?e) 0 name)(length ?e := 0))"
    using assms(1) by (auto simp: skipelem_def Let_def split: if_splits)
  have "hd ?p \<noteq> SLASH" using ne by (rule hd_dropWhile)
  then have c: "components path = ?e # components path'"
    using components_element [OF ne] by (simp add: components_dropWhile p')
  have z: "0 \<notin> set ?p" using assms(2) by (auto dest: set_dropWhileD)
  then have ze: "0 \<notin> set ?e" and zp: "0 \<notin> set path'"
    unfolding p' by (auto dest!: set_dropWhileD set_takeWhileD)
  have nm: "cstrn name' 0 DIRSIZ = take DIRSIZ ?e"
    using ze unfolding n' by (intro cstrn_list) (auto simp: blit_def bytes_of_def)
  have "components path' = [] \<longleftrightarrow> path' = []"
  proof
    assume h: "components path' = []"
    show "path' = []"
    proof (rule ccontr)
      assume ne': "path' \<noteq> []"
      then have "hd path' \<noteq> SLASH" unfolding p' by (rule hd_dropWhile)
      then show False using components_element [OF ne'] h by simp
    qed
  qed simp
  then show ?thesis using that c nm ze zp by blast
qed

section \<open>The walk\<close>

lemma cstrn_two: "cstrn (two x y) 0 DIRSIZ = cstrn x 0 DIRSIZ" "cstrn (two x y) DIRSIZ DIRSIZ = cstrn y 0 DIRSIZ"
proof -
  show "cstrn (two x y) 0 DIRSIZ = cstrn x 0 DIRSIZ" by (rule cstrn_cong) (simp add: two_def)
  have "cstrn m (p + k) n = cstrn (\<lambda>i. m (p + i)) k n" for m p k n
  proof (induction n arbitrary: k)
    case (Suc n)
    show ?case using Suc.IH [of "k + 1"] by simp
  qed simp
  from this [of "two x y" DIRSIZ 0] have "cstrn (two x y) DIRSIZ DIRSIZ = cstrn (\<lambda>i. two x y (DIRSIZ + i)) 0 DIRSIZ" by simp
  also have "\<dots> = cstrn y 0 DIRSIZ" by (rule cstrn_cong) (simp add: two_def)
  finally show "cstrn (two x y) DIRSIZ DIRSIZ = cstrn y 0 DIRSIZ" .
qed

lemma namecmp_eq_0: "namecmp x y = 0 \<longleftrightarrow> cstrn x 0 DIRSIZ = cstrn y 0 DIRSIZ"
  unfolding namecmp_def strncmp_eq_0 by (simp only: cstrn_two)

lemma dirlookup_loop_cong:
  "cstrn x 0 DIRSIZ = cstrn y 0 DIRSIZ \<Longrightarrow> dirlookup_loop i x off n = dirlookup_loop i y off n"
  by (induction n arbitrary: off) (simp_all add: namecmp_eq_0 cong: if_cong)

lemma dirlookup_cong: "cstrn x 0 DIRSIZ = cstrn y 0 DIRSIZ \<Longrightarrow> dirlookup i x = dirlookup i y"
  unfolding dirlookup_def by (simp only: dirlookup_loop_cong [of x y])

text \<open>
  The walk along a list of names from the inode \<open>i\<close>: every inode on the way is locked
  for its lookup and released after it, and must be a directory.  With \<open>parent\<close> the walk
  stops at the last directory.
\<close>

fun walk_names :: "nat \<Rightarrow> byte list list \<Rightarrow> bool \<Rightarrow> byte list \<Rightarrow> (nat \<times> byte list) option kfun" where
  "walk_names i [] parent nm = (if parent then sq (iput i) (ret None) else ret (Some (i, nm)))"
| "walk_names i (e # es) parent nm =
     sq (ilock i)
     (bnd (geti i) (\<lambda>ip.
     if i_type ip \<noteq> T_DIR then sq (iunlockput i) (ret None)
     else if parent \<and> es = [] then sq (iunlock i) (ret (Some (i, e)))
     else
     bnd (dirlookup i (bytes_of e)) (\<lambda>r.
     case r of
       None \<Rightarrow> sq (iunlockput i) (ret None)
     | Some (nxt, _) \<Rightarrow> sq (iunlockput i) (walk_names nxt es parent e))))"

definition named :: "(nat \<times> bytes) option \<Rightarrow> (nat \<times> byte list) option" where
  "named = map_option (\<lambda>(i, nm). (i, cstrn nm 0 DIRSIZ))"

definition with_name :: "(nat \<times> bytes) option kfun \<Rightarrow> (nat \<times> byte list) option kfun" where
  "with_name m = bnd m (\<lambda>r. ret (named r))"

lemma with_name_simps:
  "with_name (ret r) = ret (named r)" "with_name (sq m n) = sq m (with_name n)" "with_name (bnd a f) = bnd a (\<lambda>x. with_name (f x))"
  "with_name (if b then u else v) = (if b then with_name u else with_name v)"
  "named None = None" "named (Some (i, nm)) = Some (i, cstrn nm 0 DIRSIZ)"
  by (auto simp: with_name_def named_def bnd_def sq_def ret_def fun_eq_iff split: outcome.splits)

lemma namex_loop_walks:
  assumes "0 \<notin> set path"
  shows "with_name (namex_loop i path parent name) =
    walk_names i (map (take DIRSIZ) (components path)) parent (cstrn name 0 DIRSIZ)"
  using assms
proof (induction "length path" arbitrary: i path name rule: less_induct)
  case less
  show ?case
  proof (cases "skipelem path name")
    case None
    then have "components path = []" by (simp add: skipelem_None)
    then show ?thesis using None by (simp add: namex_loop.simps [of i] with_name_simps)
  next
    case (Some q)
    obtain path' name' where q: "q = (path', name')" by (cases q)
    obtain e where e: "components path = e # components path'" "cstrn name' 0 DIRSIZ = take DIRSIZ e" "0 \<notin> set e" "0 \<notin> set path'"
      and nil: "components path' = [] \<longleftrightarrow> path' = []"
      using skipelem_Some [OF Some [unfolded q] less.prems] .
    have IH: "with_name (namex_loop j path' parent name') =
        walk_names j (map (take DIRSIZ) (components path')) parent (take DIRSIZ e)" for j
      using less.hyps [OF skipelem_shorter [OF Some [unfolded q]] e(4), of j name'] by (simp only: e(2))
    have z: "0 \<notin> set (take DIRSIZ e)" using e(3) by (auto dest: in_set_takeD)
    have d: "dirlookup i name' = dirlookup i (bytes_of (take DIRSIZ e))"
      by (rule dirlookup_cong) (simp only: e(2) cstrn_bytes_of [OF z] take_take min.idem)
    have nil': "map (take DIRSIZ) (components path') = [] \<longleftrightarrow> path' = []" by (simp only: map_is_Nil_conv nil)
    have "with_name (namex_loop i path parent name) =
        sq (ilock i)
        (bnd (geti i) (\<lambda>ip.
        if i_type ip \<noteq> T_DIR then sq (iunlockput i) (ret None)
        else if parent \<and> path' = [] then sq (iunlock i) (ret (Some (i, take DIRSIZ e)))
        else
        bnd (dirlookup i (bytes_of (take DIRSIZ e))) (\<lambda>r.
        with_name (case r of
          None \<Rightarrow> sq (iunlockput i) (ret None)
        | Some (nxt, _) \<Rightarrow> sq (iunlockput i) (namex_loop nxt path' parent name')))))"
      unfolding namex_loop.simps [of i] Some q
      by (simp only: option.case prod.case with_name_simps d e(2))
    also have "\<dots> = walk_names i (map (take DIRSIZ) (components path)) parent (cstrn name 0 DIRSIZ)"
      unfolding e(1) list.map walk_names.simps nil'
      by (intro arg_cong2 [where f = sq] arg_cong2 [where f = bnd] ext refl if_cong)
        (auto simp: with_name_simps IH split: option.splits)
    finally show ?thesis .
  qed
qed

text \<open>
  C28: \<open>namex\<close>, which cuts the path with \<open>skipelem\<close> while it walks and reuses one name
  buffer, does exactly what a walk over the list of the path's components does: repeated,
  leading and trailing slashes do not matter, each component is looked up under its first
  \<open>DIRSIZ\<close> bytes, an absolute path starts at the root inode and any other at the current
  directory, and \<open>nameiparent\<close> returns the last component with the directory before it.
  The path is a C string, so it has no zero byte.
\<close>

theorem namex_walks_components:
  assumes "0 \<notin> set path"
  shows "with_name (namex path parent name) =
    bnd (if path \<noteq> [] \<and> hd path = SLASH then iget ROOTDEV ROOTINO
         else bnd myproc (\<lambda>j. bnd (getp j) (\<lambda>p. case p_cwd p of None \<Rightarrow> panic ''null cwd'' | Some c \<Rightarrow> idup c)))
    (\<lambda>i. walk_names i (map (take DIRSIZ) (components path)) parent (cstrn name 0 DIRSIZ))"
  unfolding namex_def with_name_simps(3) namex_loop_walks [OF assms] by (rule refl)

theorem namex_walks_components_witness:
  "with_name (namex [47, 97, 47, 47, 98, 47] True zeros) =
     bnd (iget ROOTDEV ROOTINO) (\<lambda>i. walk_names i [[97], [98]] True [])"
proof -
  have "map (take DIRSIZ) (components [47, 97, 47, 47, 98, 47]) = [[97], [98]]" by (simp add: components_def)
  moreover have "cstrn zeros 0 DIRSIZ = []" by (simp add: zeros_def eval_nat_numeral)
  ultimately show ?thesis using namex_walks_components [of "[47, 97, 47, 47, 98, 47]" True zeros] by simp
qed

end
