(* ===== verification/Contents.thy ===== *)
theory Contents
  imports Blocks Paths
begin

text \<open>
  The contents of a file: \<open>readi\<close> and \<open>writei\<close> (\<open>fs.c\<close>), which go through the block map
  of the inode, the buffer cache and the log, behave as reads and writes of one array of
  bytes.  The blocks of the file are those the inode's direct addresses and its indirect
  block name.
\<close>

section \<open>The blocks of a file\<close>

definition faddr :: "kstate \<Rightarrow> inode \<Rightarrow> nat \<Rightarrow> nat" where
  "faddr s ip bn = (if bn < NDIRECT then i_addrs ip bn else get32 (bview s (i_addrs ip NDIRECT)) (4 * (bn - NDIRECT)))"

definition usable :: "kstate \<Rightarrow> nat \<Rightarrow> bool" where
  "usable s b \<longleftrightarrow> b \<noteq> 0 \<and> home_block s b \<and> \<not> busy_block s b"

definition mapped :: "kstate \<Rightarrow> inode \<Rightarrow> nat \<Rightarrow> bool" where
  "mapped s ip bn \<longleftrightarrow> bn < MAXFILE \<and> usable s (faddr s ip bn) \<and> (NDIRECT \<le> bn \<longrightarrow> usable s (i_addrs ip NDIRECT))"

text \<open>Byte \<open>k\<close> of the file.\<close>

definition fbyte :: "kstate \<Rightarrow> inode \<Rightarrow> nat \<Rightarrow> byte" where
  "fbyte s ip k = bview s (faddr s ip (k div BSIZE)) (k mod BSIZE)"

lemma usable_after: "fs_to k s t \<Longrightarrow> usable t = usable s"
  by (simp add: usable_def fun_eq_iff fs_to_home fs_to_busy)

lemma mapped_after: "fs_to k s t \<Longrightarrow> faddr t ip = faddr s ip \<Longrightarrow> mapped t ip = mapped s ip"
  by (simp add: mapped_def fun_eq_iff usable_after)

lemma bview_same: "bview t = bview s \<Longrightarrow> faddr t ip = faddr s ip" "bview t = bview s \<Longrightarrow> fbyte t ip = fbyte s ip"
proof -
  show f: "faddr t ip = faddr s ip" if h: "bview t = bview s" unfolding faddr_def [abs_def] h by (rule refl)
  show "fbyte t ip = fbyte s ip" if h: "bview t = bview s" unfolding fbyte_def [abs_def] f [OF h] h by (rule refl)
qed

lemma bmap_mapped:
  assumes "txn s" and "room_for 0 s" and "ip = icache s ! i" and "i_dev ip = ROOTDEV" and "mapped s ip bn"
  shows "\<exists>t. bmap i bn s = Done (faddr s ip bn) t \<and> fs_to 0 s t \<and> bview t = bview s"
proof (cases "bn < NDIRECT")
  case True
  then have "faddr s ip bn = i_addrs ip bn" "i_addrs ip bn \<noteq> 0"
    using assms(5) by (auto simp: mapped_def faddr_def usable_def)
  then have "bmap i bn s = Done (faddr s ip bn) s"
    using True assms(3) by (simp add: bmap_def addr_or_alloc_def bnd_def geti_def gets_def ret_def)
  then show ?thesis using fs_to_refl [OF assms(1)] by blast
next
  case False
  let ?I = "i_addrs ip NDIRECT" and ?n = "bn - NDIRECT"
  have I: "usable s ?I" and a: "get32 (bview s ?I) (4 * ?n) = faddr s ip bn" "faddr s ip bn \<noteq> 0" and n: "?n < NINDIRECT"
    using assms(5) False by (auto simp: mapped_def faddr_def usable_def)
  obtain j t where t: "bread ROOTDEV ?I s = Done j t" "bdata j t = Done (bview s ?I) t"
      "\<exists>u. brelse j t = Done () u \<and> fs_to 0 s u \<and> bview u = bview s"
    using block_access [OF assms(1) _ _ assms(2), of ?I] I by (metis usable_def)
  have "addr_or_alloc i NDIRECT s = Done ?I s"
    using I assms(3) by (simp add: addr_or_alloc_def bnd_def geti_def gets_def ret_def usable_def)
  then have "bmap i bn s = sq (brelse j) (ret (faddr s ip bn)) t"
    using False n t(1,2) a assms(3,4) by (simp add: bmap_def bnd_def geti_def gets_def Let_def)
  then show ?thesis using t(3) by (auto simp: sq_def bnd_def ret_def)
qed

section \<open>Reading\<close>

lemma chunk_same_block: "k < chunk off n \<Longrightarrow> (off + k) div BSIZE = off div BSIZE \<and> (off + k) mod BSIZE = off mod BSIZE + k"
proof -
  assume "k < chunk off n"
  then have k: "off mod BSIZE + k < BSIZE" by (auto simp: chunk_def)
  have e: "off + k = off div BSIZE * BSIZE + (off mod BSIZE + k)" by simp
  have "(off + k) div BSIZE = off div BSIZE" using k by (subst e, subst div_mult_self3) simp_all
  moreover have "(off + k) mod BSIZE = off mod BSIZE + k" using k by (subst e, subst mod_mult_self3) simp
  ultimately show ?thesis by blast
qed

lemma chunk_slice:
  "slice (bview s (faddr s ip (off div BSIZE))) (off mod BSIZE) (chunk off n) = map (\<lambda>k. fbyte s ip (off + k)) [0 ..< chunk off n]"
proof (rule nth_equalityI)
  fix k
  assume "k < length (slice (bview s (faddr s ip (off div BSIZE))) (off mod BSIZE) (chunk off n))"
  then have k: "k < chunk off n" by simp
  then show "slice (bview s (faddr s ip (off div BSIZE))) (off mod BSIZE) (chunk off n) ! k =
      map (\<lambda>k. fbyte s ip (off + k)) [0 ..< chunk off n] ! k"
    using chunk_same_block [OF k] by (simp add: fbyte_def)
qed simp

lemma map_upt_split: "m \<le> n \<Longrightarrow> map f [0 ..< n] = map f [0 ..< m] @ map (\<lambda>k. f (m + k)) [0 ..< n - m]"
  by (rule nth_equalityI) (auto simp: nth_append)

lemma readi_loop_spec:
  assumes "txn s" and "room_for 0 s" and "ip = icache s ! i" and "i_dev ip = ROOTDEV"
    and "\<forall>k < n. mapped s ip ((off + k) div BSIZE)"
  shows "\<exists>t. readi_loop i off n s = Done (map (\<lambda>k. fbyte s ip (off + k)) [0 ..< n]) t \<and> fs_to 0 s t \<and> bview t = bview s"
  using assms
proof (induction i off n arbitrary: s rule: readi_loop.induct)
  case (1 i off n)
  show ?case
  proof (cases "n = 0")
    case True
    then show ?thesis using fs_to_refl [OF 1(2)] by (simp add: readi_loop.simps ret_def)
  next
    case False
    let ?m = "chunk off n" and ?a = "faddr s ip (off div BSIZE)"
    have m: "0 < ?m" "?m \<le> n" using False chunk_pos chunk_le by simp_all
    have mp: "mapped s ip (off div BSIZE)" using 1(6) False by (metis add_0_right gr0I)
    obtain t where t: "bmap i (off div BSIZE) s = Done ?a t" "fs_to 0 s t" "bview t = bview s"
      using bmap_mapped [OF 1(2-5) mp] by blast
    have tk: "txn t" "icache t = icache s" "room_for 0 t" "usable t = usable s"
      using fs_to_sb [OF t(2)] fs_to_room [OF t(2) 1(3)] usable_after [OF t(2)] by simp_all
    have us: "\<not> busy_block t ?a" "home_block t ?a" using mp tk(4) by (auto simp: mapped_def usable_def dest: fun_cong [of _ _ ?a])
    obtain j u v where u: "bread ROOTDEV ?a t = Done j u" "bdata j u = Done (bview t ?a) u" "brelse j u = Done () v"
        "fs_to 0 t v" "bview v = bview t"
      using block_access [OF tk(1) us tk(3)] by metis
    have f: "fs_to 0 s v" using fs_to_trans [OF t(2) u(4)] by simp
    have vk: "txn v" "room_for 0 v" "ip = icache v ! i" "bview v = bview s"
      using fs_to_sb [OF f] fs_to_room [OF f 1(3)] 1(4) u(5) t(3) by simp_all
    have "mapped v ip = mapped s ip" by (rule mapped_after [OF f bview_same(1) [OF vk(4)]])
    then have mr: "\<forall>k < n - ?m. mapped v ip ((off + ?m + k) div BSIZE)"
      using 1(6) m by (auto simp: add.assoc)
    obtain w where w: "readi_loop i (off + ?m) (n - ?m) v = Done (map (\<lambda>k. fbyte v ip (off + ?m + k)) [0 ..< n - ?m]) w"
        "fs_to 0 v w" "bview w = bview v"
      using 1(1) [OF False vk(1-3) 1(5) mr] by blast
    have "readi_loop i off n s =
        Done (slice (bview s ?a) (off mod BSIZE) ?m @ map (\<lambda>k. fbyte v ip (off + ?m + k)) [0 ..< n - ?m]) w"
      using False t(1,3) u(1-3) w(1) 1(4,5) tk(2)
      by (simp add: readi_loop.simps [of i off n] bnd_def sq_def geti_def gets_def ret_def)
    also have "slice (bview s ?a) (off mod BSIZE) ?m @ map (\<lambda>k. fbyte v ip (off + ?m + k)) [0 ..< n - ?m] =
        map (\<lambda>k. fbyte s ip (off + k)) [0 ..< n]"
      unfolding chunk_slice bview_same(2) [OF vk(4)] map_upt_split [OF m(2), of "\<lambda>k. fbyte s ip (off + k)"] by (simp add: add.assoc)
    finally show ?thesis using fs_to_trans [OF f w(2)] w(3) vk(4) by auto
  qed
qed

section \<open>Writing\<close>

text \<open>The number of rounds of the loop, which is the number of blocks it logs.\<close>

definition rounds :: "nat \<Rightarrow> nat \<Rightarrow> nat" where
  "rounds off n = (if n = 0 then 0 else (off mod BSIZE + n + (BSIZE - 1)) div BSIZE)"

lemma rounds_step:
  assumes "0 < n"
  shows "rounds off n = Suc (rounds (off + chunk off n) (n - chunk off n))"
proof (cases "n \<le> BSIZE - off mod BSIZE")
  case True
  then have c: "chunk off n = n" by (simp add: chunk_def)
  have "off mod BSIZE < BSIZE" by simp
  then have "off mod BSIZE + n + (BSIZE - 1) < 2 * BSIZE" "BSIZE \<le> off mod BSIZE + n + (BSIZE - 1)" using assms True by linarith+
  then have "(off mod BSIZE + n + (BSIZE - 1)) div BSIZE = 1" by (intro div_nat_eqI) simp_all
  then show ?thesis using assms by (simp add: rounds_def c)
next
  case False
  let ?n = "n - (BSIZE - off mod BSIZE)"
  have c: "chunk off n = BSIZE - off mod BSIZE" using False by (simp add: chunk_def)
  have o: "off mod BSIZE < BSIZE" by simp
  have "off + (BSIZE - off mod BSIZE) = off div BSIZE * BSIZE + BSIZE" using o mult_div_mod_eq [of BSIZE off] by linarith
  then have z: "(off + chunk off n) mod BSIZE = 0" unfolding c by simp
  have "off mod BSIZE + n + (BSIZE - 1) = ?n + (BSIZE - 1) + BSIZE" using False o by linarith
  then have "(off mod BSIZE + n + (BSIZE - 1)) div BSIZE = Suc ((?n + (BSIZE - 1)) div BSIZE)" by simp
  moreover have "?n \<noteq> 0" using False by linarith
  ultimately show ?thesis unfolding rounds_def z using assms by (simp only: c if_False add_0 gr_implies_not0)
qed

text \<open>The blocks of a file are distinct, and none is its indirect block.\<close>

definition apart_blocks :: "kstate \<Rightarrow> inode \<Rightarrow> nat set \<Rightarrow> bool" where
  "apart_blocks s ip B \<longleftrightarrow> inj_on (faddr s ip) B \<and> (\<forall>bn \<in> B. NDIRECT \<le> bn \<longrightarrow> i_addrs ip NDIRECT \<notin> faddr s ip ` B) \<and>
     (\<forall>bn \<in> B. mapped s ip bn)"

text \<open>One round: a block of the file gets new bytes.\<close>

lemma write_block:
  assumes "apart_blocks s ip B" and "bn \<in> B" and "bview t = (bview s)(faddr s ip bn := d)"
  shows "\<And>bm. bm \<in> B \<Longrightarrow> faddr t ip bm = faddr s ip bm"
    "\<And>k. k div BSIZE \<in> B \<Longrightarrow> fbyte t ip k = (if k div BSIZE = bn then d (k mod BSIZE) else fbyte s ip k)"
proof -
  show f: "faddr t ip bm = faddr s ip bm" if "bm \<in> B" for bm
  proof (cases "bm < NDIRECT")
    case False
    then have "NDIRECT \<le> bm" by simp
    then have "i_addrs ip NDIRECT \<notin> faddr s ip ` B" using assms(1) that unfolding apart_blocks_def by blast
    then have "i_addrs ip NDIRECT \<noteq> faddr s ip bn" using assms(2) by auto
    then show ?thesis using False assms(3) by (simp add: faddr_def [of t] faddr_def [of s ip bm])
  qed (simp add: faddr_def)
  show "fbyte t ip k = (if k div BSIZE = bn then d (k mod BSIZE) else fbyte s ip k)" if k: "k div BSIZE \<in> B" for k
  proof -
    have "faddr s ip (k div BSIZE) = faddr s ip bn \<longleftrightarrow> k div BSIZE = bn"
      using assms(1,2) k by (auto simp: apart_blocks_def inj_on_def)
    then show ?thesis using f [OF k] assms(3) by (auto simp: fbyte_def)
  qed
qed

lemma apart_after:
  assumes "fs_to k s t" and "\<And>bm. bm \<in> B \<Longrightarrow> faddr t ip bm = faddr s ip bm" and "apart_blocks s ip B"
  shows "apart_blocks t ip B"
proof -
  have "inj_on (faddr t ip) B = inj_on (faddr s ip) B" by (rule inj_on_cong) (rule assms(2))
  moreover have "faddr t ip ` B = faddr s ip ` B" using assms(2) by (auto simp: image_iff)
  moreover have "mapped t ip bm = mapped s ip bm" if "bm \<in> B" for bm
    using assms(2) [OF that] usable_after [OF assms(1)] by (simp add: mapped_def)
  ultimately show ?thesis using assms(3) by (auto simp: apart_blocks_def)
qed

lemma blit_chunk:
  assumes "k div BSIZE = off div BSIZE" and "n = length src"
  shows "blit (chunk off n) (off mod BSIZE) (bytes_of src) 0 d (k mod BSIZE) =
    (if off \<le> k \<and> k < off + chunk off n then src ! (k - off) else d (k mod BSIZE))"
proof -
  have e: "k = off div BSIZE * BSIZE + k mod BSIZE" "off = off div BSIZE * BSIZE + off mod BSIZE" using assms(1) by (metis div_mult_mod_eq)+
  then have "off mod BSIZE \<le> k mod BSIZE \<and> k mod BSIZE < off mod BSIZE + chunk off n \<longleftrightarrow> off \<le> k \<and> k < off + chunk off n" "k mod BSIZE - off mod BSIZE = k - off"
    by linarith+
  moreover have "chunk off n \<le> length src" using chunk_le assms(2) by simp
  ultimately show ?thesis by (auto simp: blit_def bytes_of_def)
qed
lemma writei_loop_spec:
  assumes "txn s" and "room_for (rounds off (length src)) s" and "ip = icache s ! i" and "i_dev ip = ROOTDEV"
    and "apart_blocks s ip B" and "\<forall>k < length src. (off + k) div BSIZE \<in> B"
  shows "\<exists>t. writei_loop i off src s = Done () t \<and> fs_to (rounds off (length src)) s t \<and>
    (\<forall>bn \<in> B. faddr t ip bn = faddr s ip bn) \<and>
    (\<forall>k. k div BSIZE \<in> B \<longrightarrow> fbyte t ip k = (if off \<le> k \<and> k < off + length src then src ! (k - off) else fbyte s ip k)) \<and>
    (\<forall>b. b \<notin> faddr s ip ` B \<longrightarrow> bview t b = bview s b)"
  using assms
proof (induction i off src arbitrary: s rule: writei_loop.induct)
  case (1 i off src)
  show ?case
  proof (cases "src = []")
    case True
    then show ?thesis using fs_to_refl [OF 1(2)] by (auto simp: writei_loop.simps ret_def rounds_def)
  next
    case False
    let ?n = "length src" and ?bn = "off div BSIZE"
    let ?m = "chunk off ?n" and ?a = "faddr s ip ?bn"
    let ?d = "blit ?m (off mod BSIZE) (bytes_of src) 0 (bview s ?a)"
    have m: "0 < ?m" "?m \<le> ?n" using False chunk_pos chunk_le by simp_all
    have R: "rounds off ?n = Suc (rounds (off + ?m) (?n - ?m))" using False by (intro rounds_step) simp
    have bn: "?bn \<in> B" using 1(7) False by (metis add_0_right length_greater_0_conv)
    then have mp: "mapped s ip ?bn" using 1(6) by (simp add: apart_blocks_def)
    have r: "room_for 0 s" "room_for 1 s" using room_for_mono [OF 1(3)] R by simp_all
    obtain t where t: "bmap i ?bn s = Done ?a t" "fs_to 0 s t" "bview t = bview s"
      using bmap_mapped [OF 1(2) r(1) 1(4,5) mp] by blast
    have tk: "txn t" "icache t = icache s" "room_for 1 t" "usable t = usable s"
      using fs_to_sb [OF t(2)] fs_to_room [OF t(2) r(2)] usable_after [OF t(2)] by simp_all
    have us: "\<not> busy_block t ?a" "home_block t ?a" using mp tk(4) by (auto simp: mapped_def usable_def dest: fun_cong [of _ _ ?a])
    obtain j u1 u2 u3 v where u: "bread ROOTDEV ?a t = Done j u1" "bdata j u1 = Done (bview t ?a) u1"
        "set_bdata j ?d u1 = Done () u2" "log_write j u2 = Done () u3" "brelse j u3 = Done () v"
        "fs_to 1 t v" "bview v = (bview t)(?a := ?d)"
      by (rule block_update [OF tk(1) us tk(3)])
    have f: "fs_to 1 s v" using fs_to_trans [OF t(2) u(6)] by simp
    have bv: "bview v = (bview s)(?a := ?d)" using u(7) t(3) by simp
    note W = write_block [OF 1(6) bn bv]
    have vk: "txn v" "room_for (rounds (off + ?m) (length (drop ?m src))) v" "ip = icache v ! i"
      using fs_to_sb [OF f] fs_to_room [OF f 1(3)] 1(4) R by simp_all
    have av: "apart_blocks v ip B" by (rule apart_after [OF f W(1) 1(6)])
    have mr: "\<forall>k < length (drop ?m src). (off + ?m + k) div BSIZE \<in> B" using 1(7) m by (auto simp: add.assoc)
    obtain w where w: "writei_loop i (off + ?m) (drop ?m src) v = Done () w" "fs_to (rounds (off + ?m) (length (drop ?m src))) v w"
        "\<forall>bn \<in> B. faddr w ip bn = faddr v ip bn"
        "\<forall>k. k div BSIZE \<in> B \<longrightarrow> fbyte w ip k =
           (if off + ?m \<le> k \<and> k < off + ?m + length (drop ?m src) then drop ?m src ! (k - (off + ?m)) else fbyte v ip k)"
        "\<forall>b. b \<notin> faddr v ip ` B \<longrightarrow> bview w b = bview v b"
      using 1(1) [OF False refl vk 1(5) av mr] by blast
    have "writei_loop i off src s = Done () w"
      using False t(1,3) u(1-5) w(1) 1(4,5) tk(2)
      by (simp add: writei_loop.simps [of i off src] bnd_def sq_def geti_def gets_def Let_def)
    moreover have "fs_to (rounds off ?n) s w" using fs_to_trans [OF f w(2)] R by simp
    moreover have "\<forall>bn \<in> B. faddr w ip bn = faddr s ip bn" using w(3) W(1) by simp
    moreover have "bview w b = bview s b" if "b \<notin> faddr s ip ` B" for b
    proof -
      have "faddr v ip ` B = faddr s ip ` B" using W(1) by (auto simp: image_iff)
      then show ?thesis using w(5) bv that bn by auto
    qed
    moreover have "fbyte w ip k = (if off \<le> k \<and> k < off + ?n then src ! (k - off) else fbyte s ip k)" if k: "k div BSIZE \<in> B" for k
    proof -
      have v: "fbyte v ip k = (if off \<le> k \<and> k < off + ?m then src ! (k - off) else fbyte s ip k)"
      proof (cases "k div BSIZE = ?bn")
        case True
        then show ?thesis using W(2) [OF k] blit_chunk [OF True refl] by (simp add: fbyte_def)
      next
        case False
        have "\<not> (off \<le> k \<and> k < off + ?m)"
        proof
          assume h: "off \<le> k \<and> k < off + ?m"
          then have "k - off < ?m" by linarith
          then show False using chunk_same_block [of "k - off" off ?n] False h by simp
        qed
        then show ?thesis using W(2) [OF k] False by auto
      qed
      show ?thesis using w(4) k m v by (auto simp: not_less)
    qed
    ultimately show ?thesis by blast
  qed
qed

section \<open>A file is an array of bytes\<close>

definition contents :: "kstate \<Rightarrow> inode \<Rightarrow> byte list" where
  "contents s ip = map (fbyte s ip) [0 ..< i_size ip]"

definition blocks_of :: "inode \<Rightarrow> nat set" where
  "blocks_of ip = {bn. bn * BSIZE < i_size ip}"

text \<open>
  A cached inode of a file that is not a device, whose blocks are all mapped to distinct
  blocks of the disk that nobody holds.
\<close>

definition file_ok :: "kstate \<Rightarrow> nat \<Rightarrow> bool" where
  "file_ok s i \<longleftrightarrow> (let ip = icache s ! i in i_dev ip = ROOTDEV \<and> i_type ip \<noteq> T_DEV \<and> i_size ip \<le> MAXFILE * BSIZE \<and>
     apart_blocks s ip (blocks_of ip))"

lemma in_blocks: "k < i_size ip \<Longrightarrow> k div BSIZE \<in> blocks_of ip"
  unfolding blocks_of_def by (simp add: less_le_trans)

lemma file_ok_after:
  assumes "fs_to k s t" and "ip = icache s ! i" and "\<forall>bn \<in> blocks_of ip. faddr t ip bn = faddr s ip bn" and "file_ok s i"
  shows "file_ok t i"
  using assms fs_to_sb(2) [OF assms(1)] apart_after [OF assms(1), of "blocks_of ip" ip] by (auto simp: file_ok_def Let_def)

lemma readi_spec:
  assumes "txn s" and "room_for 0 s" and "file_ok s i" and "ip = icache s ! i" and "off \<le> i_size ip" and "off + n < 2 ^ 32"
  shows "\<exists>t. readi i off n s = Done (Some (take n (drop off (contents s ip)))) t \<and> fs_to 0 s t \<and> bview t = bview s"
proof -
  define m where "m = (if i_size ip < off + n then i_size ip - off else n)"
  have ok: "i_dev ip = ROOTDEV" "i_type ip \<noteq> T_DEV" "\<And>bn. bn \<in> blocks_of ip \<Longrightarrow> mapped s ip bn"
    using assms(3,4) by (auto simp: file_ok_def Let_def apart_blocks_def)
  have "\<forall>k < m. mapped s ip ((off + k) div BSIZE)"
    using assms(5) by (auto simp: m_def intro!: ok(3) in_blocks split: if_splits)
  then obtain t where t: "readi_loop i off m s = Done (map (\<lambda>k. fbyte s ip (off + k)) [0 ..< m]) t" "fs_to 0 s t" "bview t = bview s"
    using readi_loop_spec [OF assms(1,2,4) ok(1)] by blast
  have "map (\<lambda>k. fbyte s ip (off + k)) [0 ..< m] = take n (drop off (contents s ip))"
    using assms(5) by (intro nth_equalityI) (auto simp: contents_def m_def split: if_splits)
  then show ?thesis
    using t assms(4-6) ok(2) by (auto simp: readi_def bnd_def geti_def gets_def ret_def Let_def m_def)
qed

lemma writei_spec:
  assumes "txn s" and "file_ok s i" and "ip = icache s ! i" and "off + length src \<le> i_size ip" and "room_for (rounds off (length src)) s"
  shows "\<exists>t. writei i off src s = Done (int (length src)) t \<and> fs_to (rounds off (length src)) s t \<and> file_ok t i \<and>
    contents t ip = take off (contents s ip) @ src @ drop (off + length src) (contents s ip) \<and>
    (\<forall>b. b \<notin> faddr s ip ` blocks_of ip \<longrightarrow> bview t b = bview s b)"
proof -
  let ?n = "length src"
  have ok: "i_dev ip = ROOTDEV" "i_type ip \<noteq> T_DEV" "i_size ip \<le> MAXFILE * BSIZE" "apart_blocks s ip (blocks_of ip)"
    using assms(2,3) by (auto simp: file_ok_def Let_def)
  have "\<forall>k < ?n. (off + k) div BSIZE \<in> blocks_of ip" using assms(4) by (auto intro!: in_blocks)
  then obtain t where t: "writei_loop i off src s = Done () t" "fs_to (rounds off ?n) s t"
      "\<forall>bn \<in> blocks_of ip. faddr t ip bn = faddr s ip bn"
      "\<forall>k. k div BSIZE \<in> blocks_of ip \<longrightarrow> fbyte t ip k = (if off \<le> k \<and> k < off + ?n then src ! (k - off) else fbyte s ip k)"
      "\<forall>b. b \<notin> faddr s ip ` blocks_of ip \<longrightarrow> bview t b = bview s b"
    using writei_loop_spec [OF assms(1,5,3) ok(1,4)] by blast
  have "contents t ip = take off (contents s ip) @ src @ drop (off + ?n) (contents s ip)"
  proof (rule nth_equalityI)
    show "length (contents t ip) = length (take off (contents s ip) @ src @ drop (off + ?n) (contents s ip))"
      using assms(4) by (simp add: contents_def)
    fix k
    assume "k < length (contents t ip)"
    then have k: "k < i_size ip" by (simp add: contents_def)
    have "fbyte t ip k = (if off \<le> k \<and> k < off + ?n then src ! (k - off) else fbyte s ip k)" using t(4) in_blocks [OF k] by blast
    then show "contents t ip ! k = (take off (contents s ip) @ src @ drop (off + ?n) (contents s ip)) ! k"
      using k assms(4) by (auto simp: contents_def nth_append)
  qed
  moreover have "writei i off src s = Done (int ?n) t"
    using t(1) fs_to_sb(2) [OF t(2)] assms(3,4) ok(2,3)
    by (simp add: writei_def bnd_def sq_def geti_def gets_def ret_def Let_def whenk_def)
  ultimately show ?thesis using t(2,5) file_ok_after [OF t(2) assms(3) t(3) assms(2)] by blast
qed

text \<open>
  C34: within a file, \<open>writei\<close> and \<open>readi\<close> write and read one array of bytes, although the
  data lies in blocks that the inode names directly or through its indirect block, and
  every block goes through the buffer cache and the log.  \<open>writei\<close> of bytes inside the
  file returns their number, replaces exactly these bytes of the contents and changes no
  block that does not belong to the file; afterwards every \<open>readi\<close> returns what the array
  holds from its offset on, up to the end of the file.  The transaction has room for the
  blocks the write logs.
\<close>

theorem writei_readi_array:
  assumes "txn s" and "file_ok s i" and "ip = icache s ! i" and "off + length src \<le> i_size ip"
    and "room_for (rounds off (length src)) s"
  shows "\<exists>t c. writei i off src s = Done (int (length src)) t \<and> icache t = icache s \<and>
    c = take off (contents s ip) @ src @ drop (off + length src) (contents s ip) \<and> contents t ip = c \<and>
    (\<forall>b. b \<notin> faddr s ip ` blocks_of ip \<longrightarrow> bview t b = bview s b) \<and>
    (\<forall>p n. p \<le> i_size ip \<longrightarrow> p + n < 2 ^ 32 \<longrightarrow>
       (\<exists>u. readi i p n t = Done (Some (take n (drop p c))) u \<and> bview u = bview t))"
proof -
  obtain t where t: "writei i off src s = Done (int (length src)) t" "fs_to (rounds off (length src)) s t" "file_ok t i"
    "contents t ip = take off (contents s ip) @ src @ drop (off + length src) (contents s ip)"
    "\<forall>b. b \<notin> faddr s ip ` blocks_of ip \<longrightarrow> bview t b = bview s b"
    using writei_spec [OF assms] by blast
  have k: "txn t" "room_for 0 t" "icache t = icache s" using fs_to_sb [OF t(2)] fs_to_room [OF t(2) assms(5)] by simp_all
  then have e: "ip = icache t ! i" using assms(3) by simp
  have r: "\<exists>u. readi i p n t = Done (Some (take n (drop p (contents t ip)))) u \<and> bview u = bview t" if "p \<le> i_size ip" "p + n < 2 ^ 32" for p n
    using readi_spec [OF k(1,2) t(3) e that] by blast
  show ?thesis using t(1,4,5) k(3) r by (intro exI [of _ t] exI [of _ "contents t ip"]) simp
qed

definition example_file :: inode where
  "example_file = example_inode\<lparr>i_addrs := (\<lambda>k. if k < 2 then 70 + k else 0)\<rparr>"

lemma example_file_ok:
  "\<exists>s. txn s \<and> room_for 2 s \<and> icache s = [example_file] \<and> file_ok s 0"
proof -
  obtain a where a: "txn a" "room_for 20 a" "bview a = example_disk" "disksize a = 2000" "\<forall>b. \<not> busy_block a b"
      "log_area (klog a) = {2 .. 32}"
    using example_fs by blast
  let ?s = "a\<lparr>icache := [example_file]\<rparr>"
  have u: "usable ?s 70" "usable ?s 71" using a(4-6) by (simp_all add: usable_def home_block_def)
  have b: "blocks_of example_file = {0, 1}" by (auto simp: blocks_of_def example_file_def example_inode_def)
  have f: "faddr ?s example_file 0 = 70" "faddr ?s example_file 1 = 71" by (simp_all add: faddr_def example_file_def)
  have "apart_blocks ?s example_file {0, 1}"
    using u f by (simp add: apart_blocks_def mapped_def)
  then have "file_ok ?s 0"
    using b by (simp add: file_ok_def example_file_def example_inode_def)
  moreover have "txn ?s" "room_for 2 ?s" using a(1) room_for_mono [OF a(2), of 2] by (simp_all add: txn_def log_inv_def room_for_def)
  ultimately show ?thesis by (intro exI [of _ ?s]) simp
qed

theorem writei_readi_array_witness:
  "\<exists>s t u. txn s \<and> file_ok s 0 \<and> room_for 2 s \<and> writei 0 511 [1, 2, 3] s = Done 3 t \<and> readi 0 511 3 t = Done (Some [1, 2, 3]) u"
proof -
  obtain s where s: "txn s" "room_for 2 s" "icache s = [example_file]" "file_ok s 0" using example_file_ok by blast
  have sz: "i_size example_file = 700" by (simp add: example_file_def example_inode_def)
  have ip: "example_file = icache s ! 0" using s(3) by simp
  have l: "511 + length ([1, 2, 3] :: byte list) \<le> i_size example_file" using sz by simp
  have r: "room_for (rounds 511 (length ([1, 2, 3] :: byte list))) s" using s(2) by (simp add: rounds_def)
  obtain t c where t: "writei 0 511 [1, 2, 3] s = Done (int (length ([1, 2, 3] :: byte list))) t"
      "c = take 511 (contents s example_file) @ [1, 2, 3] @ drop (511 + length ([1, 2, 3] :: byte list)) (contents s example_file)"
      "\<forall>p n. p \<le> i_size example_file \<longrightarrow> p + n < 2 ^ 32 \<longrightarrow> (\<exists>u. readi 0 p n t = Done (Some (take n (drop p c))) u \<and> bview u = bview t)"
    using writei_readi_array [OF s(1,4) ip l r] by blast
  have "length (take 511 (contents s example_file)) = 511" using sz by (simp add: contents_def)
  then have "take 3 (drop 511 c) = [1, 2, 3]" unfolding t(2) by simp
  moreover obtain u where "readi 0 511 3 t = Done (Some (take 3 (drop 511 c))) u" using t(3) [rule_format, of 511 3] sz by auto
  ultimately show ?thesis using s t(1) by auto
qed

end
