(* ===== verification/Ulib.thy ===== *)
theory Ulib
  imports Procdump
begin

text \<open>
  The library of the user programs: \<open>ulib.c\<close> and \<open>printf.c\<close>.  A string that is only
  read is the list of the characters before its terminating zero; the routines that write
  memory work on bytes and addresses as in \<open>Cstring\<close>.  The results of the system call
  \<open>read\<close> are arguments.

  What \<open>printf\<close> prints with \<open>%d\<close>, \<open>atoi\<close> reads back.
\<close>

section \<open>Strings\<close>

partial_function (option) ustrcpy :: "bytes \<Rightarrow> nat \<Rightarrow> nat \<Rightarrow> bytes option" where
  "ustrcpy m s t =
     (let m' = m(s := m t) in if m' s \<noteq> 0 then ustrcpy m' (s + 1) (t + 1) else Some m')"

fun ustrcmp :: "byte list \<Rightarrow> byte list \<Rightarrow> int" where
  "ustrcmp [] [] = 0"
| "ustrcmp [] (d # q) = - uint d"
| "ustrcmp (c # p) [] = uint c"
| "ustrcmp (c # p) (d # q) = (if c = d then ustrcmp p q else uint c - uint d)"

definition ustrlen :: "byte list \<Rightarrow> nat" where
  "ustrlen s = length s"

definition umemset :: "bytes \<Rightarrow> nat \<Rightarrow> byte \<Rightarrow> nat \<Rightarrow> bytes" where
  "umemset m dst c n = stosb m dst c n"

text \<open>The index of the first \<open>c\<close> in memory that holds the characters \<open>s\<close>; a zero byte ends the string.\<close>

fun ustrchr :: "byte list \<Rightarrow> byte \<Rightarrow> nat option" where
  "ustrchr [] c = None"
| "ustrchr (x # s) c = (if x = 0 then None else if x = c then Some 0 else map_option Suc (ustrchr s c))"

text \<open>
  The bytes \<open>gets\<close> stores before the terminating zero, with room for \<open>n\<close>; \<open>None\<close> in
  the list is a \<open>read\<close> that returns less than 1, and so is its end.
\<close>

fun ugets_loop :: "nat \<Rightarrow> byte option list \<Rightarrow> byte list" where
  "ugets_loop 0 rs = []"
| "ugets_loop (Suc n) [] = []"
| "ugets_loop (Suc n) (r # rs) =
     (case r of None \<Rightarrow> [] | Some c \<Rightarrow> c # (if c = 10 \<or> c = 13 then [] else ugets_loop n rs))"

definition ugets :: "int \<Rightarrow> byte option list \<Rightarrow> byte list" where
  "ugets mx rs = ugets_loop (nat (mx - 1)) rs @ [0]"

definition umemmove :: "bytes \<Rightarrow> nat \<Rightarrow> nat \<Rightarrow> int \<Rightarrow> bytes" where
  "umemmove m vdst vsrc n = copy_up m vdst vsrc (nat n)"

section \<open>Numbers\<close>

text \<open>The digit loop of \<open>atoi\<close> and \<open>atoo\<close>, in the wrap-around arithmetic of a 32-bit \<open>int\<close>.\<close>

fun ato_digits :: "32 word \<Rightarrow> byte \<Rightarrow> 32 word \<Rightarrow> byte list \<Rightarrow> 32 word" where
  "ato_digits base dmax n [] = n"
| "ato_digits base dmax n (c # s) =
     (if 48 \<le> c \<and> c \<le> dmax then ato_digits base dmax (n * base + ucast c - 48) s else n)"

definition ato_sign :: "32 word \<Rightarrow> byte \<Rightarrow> byte list \<Rightarrow> 32 word" where
  "ato_sign base dmax s =
     (let s = dropWhile (\<lambda>c. c = 32) s;
          sign = (if s \<noteq> [] \<and> hd s = 45 then - 1 else 1);
          s = (if s \<noteq> [] \<and> (hd s = 43 \<or> hd s = 45) then tl s else s)
      in sign * ato_digits base dmax 0 s)"

definition atoi :: "byte list \<Rightarrow> 32 word" where
  "atoi s = ato_sign 10 57 s"

definition atoo :: "byte list \<Rightarrow> 32 word" where
  "atoo s = ato_sign 8 55 s"

section \<open>printf\<close>

text \<open>\<open>digits[d]\<close> of the string \<open>"0123456789ABCDEF"\<close>.\<close>

definition udigit :: "nat \<Rightarrow> byte" where
  "udigit d = (if d < 10 then 48 + of_nat d else 55 + of_nat d)"

definition uprintint :: "32 word \<Rightarrow> nat \<Rightarrow> bool \<Rightarrow> byte list" where
  "uprintint xx base sig =
     (let neg = sig \<and> xx <s 0;
          x = (if neg then - xx else xx);
          buf = map udigit (print_digits base (unat x)) @ (if neg then [45] else [])
      in rev buf)"

datatype uarg = UInt "32 word" | UStr "byte list option"

text \<open>
  The characters \<open>printf\<close> passes to \<open>putc\<close>; the flag is the variable \<open>state\<close>, set after
  a percent sign.  \<open>None\<close> where the arguments do not fit the format, which C leaves undefined.
\<close>

fun uformat :: "bool \<Rightarrow> byte list \<Rightarrow> uarg list \<Rightarrow> byte list option" where
  "uformat st [] as = Some []"
| "uformat st (c # fmt) as =
     (if \<not> st then (if c = 37 then uformat True fmt as else map_option (Cons c) (uformat False fmt as))
      else if c = 100 then
        (case as of UInt n # as' \<Rightarrow> map_option ((@) (uprintint n 10 True)) (uformat False fmt as') | _ \<Rightarrow> None)
      else if c = 120 \<or> c = 112 then
        (case as of UInt n # as' \<Rightarrow> map_option ((@) (uprintint n 16 False)) (uformat False fmt as') | _ \<Rightarrow> None)
      else if c = 115 then
        (case as of UStr s # as' \<Rightarrow>
           map_option ((@) (case s of None \<Rightarrow> bytestr ''(null)'' | Some x \<Rightarrow> x)) (uformat False fmt as') | _ \<Rightarrow> None)
      else if c = 99 then
        (case as of UInt n # as' \<Rightarrow> map_option (Cons (ucast n)) (uformat False fmt as') | _ \<Rightarrow> None)
      else if c = 37 then map_option (Cons c) (uformat False fmt as)
      else map_option (\<lambda>o'. 37 # c # o') (uformat False fmt as))"

definition uprintf :: "byte list \<Rightarrow> uarg list \<Rightarrow> byte list option" where
  "uprintf fmt as = uformat False fmt as"

section \<open>What printf prints, atoi reads\<close>

lemma udigit_value:
  assumes "d < 10"
  shows "ucast (udigit d) - 48 = (of_nat d :: 32 word)" "48 \<le> udigit d" "udigit d \<le> 57"
proof -
  have "d \<in> {0, 1, 2, 3, 4, 5, 6, 7, 8, 9}" using assms by auto
  then show "ucast (udigit d) - 48 = (of_nat d :: 32 word)" "48 \<le> udigit d" "udigit d \<le> 57"
    by (auto simp: udigit_def)
qed

lemma print_digits_less: "0 < base \<Longrightarrow> d \<in> set (print_digits base x) \<Longrightarrow> d < base"
  by (induction base x rule: print_digits.induct) (subst (asm) (2) print_digits.simps, auto split: if_splits)

lemma ato_digits_foldl:
  "(\<And>d. d \<in> set ds \<Longrightarrow> d < 10) \<Longrightarrow>
     ato_digits 10 57 n (map udigit ds) = foldl (\<lambda>v d. v * 10 + of_nat d) n ds"
proof (induction ds arbitrary: n)
  case (Cons d ds)
  have d: "d < 10" using Cons.prems by simp
  have e: "n * 10 + ucast (udigit d) - 48 = n * 10 + of_nat d"
    unfolding udigit_value(1) [OF d, symmetric] by simp
  show ?case unfolding list.map ato_digits.simps e using Cons.IH Cons.prems udigit_value(2,3) [OF d] by simp
qed simp

lemma foldl_print_digits:
  "foldl (\<lambda>v d. v * 10 + of_nat d) 0 (rev (print_digits 10 x)) = (of_nat x :: 32 word)"
proof (induction "10 :: nat" x rule: print_digits.induct)
  case (1 x)
  have x: "(of_nat x :: 32 word) = of_nat (x div 10) * 10 + of_nat (x mod 10)"
    by (metis div_mult_mod_eq of_nat_add of_nat_mult of_nat_numeral)
  show ?case using 1 by (subst print_digits.simps) (auto simp: x)
qed

lemma ato_digits_print: "ato_digits 10 57 0 (rev (map udigit (print_digits 10 x))) = of_nat x"
  using ato_digits_foldl [of "rev (print_digits 10 x)" 0] print_digits_less [of 10 _ x]
  by (simp add: rev_map foldl_print_digits)

text \<open>
  C31: \<open>atoi\<close> reads back what \<open>printf\<close> prints with the format \<open>%d\<close>, for every 32-bit
  integer, the most negative one included.
\<close>

theorem atoi_printf_roundtrip: "\<exists>s. uprintf (bytestr ''%d'') [UInt n] = Some s \<and> atoi s = n"
proof -
  have f: "uprintf (bytestr ''%d'') [UInt n] = Some (uprintint n 10 True)"
    by (simp add: uprintf_def bytestr_def)
  let ?s = "uprintint n 10 True"
  have "atoi ?s = n"
  proof (cases "n <s 0")
    case True
    then have "?s = 45 # rev (map udigit (print_digits 10 (unat (- n))))" by (simp add: uprintint_def)
    then show ?thesis by (simp add: atoi_def ato_sign_def ato_digits_print)
  next
    case False
    then have s: "?s = rev (map udigit (print_digits 10 (unat n)))" by (simp add: uprintint_def)
    have "c \<noteq> 32 \<and> c \<noteq> 45 \<and> c \<noteq> 43" if "c \<in> set ?s" for c
    proof -
      have "48 \<le> c" using that print_digits_less [of 10 _ "unat n"] udigit_value(2) by (auto simp: s)
      then show ?thesis by auto
    qed
    moreover have "?s \<noteq> []" unfolding s by (subst print_digits.simps) simp
    moreover have "ato_digits 10 57 0 ?s = n" by (simp add: s ato_digits_print)
    ultimately show ?thesis by (cases ?s) (auto simp: atoi_def ato_sign_def)
  qed
  then show ?thesis using f by blast
qed

text \<open>The forward copy of \<open>memmove\<close> is right unless the destination lies inside the source's tail.\<close>

lemma umemmove_copied:
  "vdst \<le> vsrc \<or> vsrc + nat n \<le> vdst \<Longrightarrow> umemmove m vdst vsrc n = copied m vdst vsrc (nat n)"
  by (simp add: umemmove_def copy_up_copied)

lemma umemmove_overlap_smears:
  "umemmove (bytes_of [1, 2, 3]) 1 0 2 2 = 1 \<and> memmove (bytes_of [1, 2, 3]) 1 0 2 2 = 2"
  by (simp add: umemmove_def memmove_def bytes_of_def eval_nat_numeral)

lemma ustrcmp_eq_0: "0 \<notin> set p \<Longrightarrow> 0 \<notin> set q \<Longrightarrow> ustrcmp p q = 0 \<longleftrightarrow> p = q"
  by (induction p q rule: ustrcmp.induct) (auto simp: word_uint_eq_iff)

end
