(* ===== verification/Grep.thy ===== *)
theory Grep
  imports Ulib
begin

text \<open>
  The user program \<open>grep.c\<close>: the regular expression matcher with the operators
  \<open>^ . * $\<close>, shown equivalent to a declarative reading of the pattern, and the loop that
  reads a file through a buffer of 1024 bytes and prints the lines that match.
\<close>

section \<open>The matcher\<close>

text \<open>The character at index \<open>k\<close> of a string, its terminating zero included.\<close>

definition ch :: "byte list \<Rightarrow> nat \<Rightarrow> byte" where
  "ch s k = (if k < length s then s ! k else 0)"

function matchhere :: "byte list \<Rightarrow> byte list \<Rightarrow> bool" and matchstar :: "byte \<Rightarrow> byte list \<Rightarrow> byte list \<Rightarrow> bool" where
  "matchhere re tx =
     (if re = [] then True
      else if ch re 1 = 42 then matchstar (ch re 0) (drop 2 re) tx
      else if ch re 0 = 36 \<and> tl re = [] then tx = []
      else if tx \<noteq> [] \<and> (ch re 0 = 46 \<or> ch re 0 = ch tx 0) then matchhere (tl re) (tl tx)
      else False)"
| "matchstar c re tx =
     (if matchhere re tx then True
      else if tx \<noteq> [] \<and> (ch tx 0 = c \<or> c = 46) then matchstar c re (tl tx)
      else False)"
  by pat_completeness auto
termination
  by (relation "measure (\<lambda>x. case x of Inl (re, tx) \<Rightarrow> 2 * (length re + length tx)
        | Inr (c, re, tx) \<Rightarrow> 2 * (length re + length tx) + 1)") (auto simp: neq_Nil_conv)

declare matchhere.simps [simp del] matchstar.simps [simp del]

fun match_loop :: "byte list \<Rightarrow> byte list \<Rightarrow> bool" where
  "match_loop re [] = matchhere re []"
| "match_loop re (c # tx) = (if matchhere re (c # tx) then True else match_loop re tx)"

definition match :: "byte list \<Rightarrow> byte list \<Rightarrow> bool" where
  "match re tx = (if ch re 0 = 94 then matchhere (tl re) tx else match_loop re tx)"

section \<open>What a pattern means\<close>

datatype item = One byte | Many byte | End

fun items :: "byte list \<Rightarrow> item list" where
  "items [] = []"
| "items [c] = (if c = 36 then [End] else [One c])"
| "items (c # d # re) = (if d = 42 then Many c # items re else One c # items (d # re))"

definition fits :: "byte \<Rightarrow> byte \<Rightarrow> bool" where
  "fits c x \<longleftrightarrow> c = 46 \<or> c = x"

inductive accepts :: "item list \<Rightarrow> byte list \<Rightarrow> bool" where
  nothing: "accepts [] tx"
| the_end: "accepts [End] []"
| one: "fits c x \<Longrightarrow> accepts its tx \<Longrightarrow> accepts (One c # its) (x # tx)"
| many: "\<forall>x \<in> set u. fits c x \<Longrightarrow> accepts its tx \<Longrightarrow> accepts (Many c # its) (u @ tx)"

inductive_simps accepts_simps: "accepts [] tx" "accepts (End # its) tx" "accepts (One c # its) tx"
inductive_cases accepts_manyE: "accepts (Many c # its) tx"

lemma accepts_many_step:
  "accepts (Many c # its) tx \<longleftrightarrow>
     accepts its tx \<or> (\<exists>x rest. tx = x # rest \<and> fits c x \<and> accepts (Many c # its) rest)"
proof
  assume "accepts (Many c # its) tx"
  then obtain u v where u: "tx = u @ v" "\<forall>x \<in> set u. fits c x" "accepts its v" by (rule accepts_manyE)
  show "accepts its tx \<or> (\<exists>x rest. tx = x # rest \<and> fits c x \<and> accepts (Many c # its) rest)"
  proof (cases u)
    case Nil
    then show ?thesis using u by simp
  next
    case (Cons x w)
    then have "accepts (Many c # its) (w @ v)" using u by (intro accepts.many) auto
    then show ?thesis using u Cons by auto
  qed
next
  assume "accepts its tx \<or> (\<exists>x rest. tx = x # rest \<and> fits c x \<and> accepts (Many c # its) rest)"
  then show "accepts (Many c # its) tx"
  proof (elim disjE exE conjE)
    assume "accepts its tx"
    then show ?thesis using accepts.many [of "[]" c its tx] by simp
  next
    fix x rest
    assume t: "tx = x # rest" "fits c x" and "accepts (Many c # its) rest"
    then obtain u v where "rest = u @ v" "\<forall>x \<in> set u. fits c x" "accepts its v" by (metis accepts_manyE)
    then show ?thesis using t accepts.many [of "x # u" c its v] by simp
  qed
qed

lemma matcher_correct:
  "matchhere re tx \<longleftrightarrow> accepts (items re) tx"
  "matchstar c re tx \<longleftrightarrow> accepts (Many c # items re) tx"
proof (induction re tx and c re tx rule: matchhere_matchstar.induct)
  case (1 re tx)
  consider "re = []" | d where "re = [d]" | d e r where "re = d # e # r" by (cases re rule: items.cases) auto
  then show ?case
  proof cases
    case 1
    then show ?thesis by (simp add: matchhere.simps accepts_simps)
  next
    case 2
    then show ?thesis using 1
      by (cases tx) (auto simp: matchhere.simps [of "[d]"] matchhere.simps [of "[]"] ch_def fits_def accepts_simps)
  next
    case 3
    show ?thesis
    proof (cases "e = 42")
      case True
      then show ?thesis using 1(1) 3 by (simp add: matchhere.simps [of "d # 42 # r"] ch_def)
    next
      case False
      then show ?thesis using 1(2) 3
        by (cases tx) (auto simp: matchhere.simps [of "d # e # r"] ch_def fits_def accepts_simps)
    qed
  qed
next
  case (2 c re tx)
  then show ?case
    unfolding accepts_many_step [of c _ tx] matchstar.simps [of c re tx]
    by (cases tx) (auto simp: ch_def fits_def)
qed

lemma match_loop_correct: "match_loop re tx \<longleftrightarrow> (\<exists>u v. tx = u @ v \<and> accepts (items re) v)"
proof (induction tx)
  case Nil
  then show ?case by (simp add: matcher_correct)
next
  case (Cons c tx)
  have "(\<exists>u v. c # tx = u @ v \<and> accepts (items re) v) \<longleftrightarrow>
      accepts (items re) (c # tx) \<or> (\<exists>u v. tx = u @ v \<and> accepts (items re) v)"
    by (metis (no_types, opaque_lifting) Cons_eq_append_conv append_Nil)
  then show ?case using Cons by (simp add: matcher_correct)
qed

text \<open>
  C29: the backtracking matcher decides the meaning of the pattern: without a leading
  \<open>^\<close> it accepts a text exactly when some position of it, the end included, starts a
  piece that the items of the pattern describe (a character, any character for \<open>.\<close>, any
  number of them before a \<open>*\<close>, the end of the text for a last \<open>$\<close>); with \<open>^\<close> the piece
  must start at the beginning.
\<close>

theorem match_decides_pattern:
  "match re tx \<longleftrightarrow>
     (if ch re 0 = 94 then accepts (items (tl re)) tx
      else \<exists>u v. tx = u @ v \<and> accepts (items re) v)"
  by (simp add: match_def matcher_correct match_loop_correct)

section \<open>The program\<close>

text \<open>
  The inner loop of \<open>grep\<close> over the bytes from \<open>p\<close> on: what it writes and the bytes from
  the final \<open>p\<close> on.
\<close>

lemma ustrchr_less: "ustrchr p c = Some q \<Longrightarrow> q < length p"
  by (induction p arbitrary: q) (auto split: if_splits)

function scan_lines :: "byte list \<Rightarrow> byte list \<Rightarrow> byte list \<times> byte list" where
  "scan_lines pattern p =
     (case ustrchr p 10 of
        None \<Rightarrow> ([], p)
      | Some q \<Rightarrow>
          let (out, rest) = scan_lines pattern (drop (q + 1) p)
          in ((if match pattern (take q p) then take (q + 1) p else []) @ out, rest))"
  by pat_completeness auto
termination
  by (relation "measure (\<lambda>(pattern, p). length p)") (auto dest: ustrchr_less)

declare scan_lines.simps [simp del]

text \<open>
  The outer loop.  \<open>buf\<close> is the \<open>m\<close> bytes kept from before, \<open>inp\<close> what is left of the
  input, and \<open>rd\<close> the number of bytes \<open>read\<close> is ready to deliver.
\<close>

function grep :: "(byte list \<Rightarrow> nat) \<Rightarrow> byte list \<Rightarrow> byte list \<Rightarrow> byte list \<Rightarrow> byte list" where
  "grep rd pattern buf inp =
     (let n = min (rd inp) (min (1024 - length buf - 1) (length inp)) in
      if n = 0 then []
      else
      let buf = buf @ take n inp;
          (out, p) = scan_lines pattern buf;
          buf' = (if length p = length buf then [] else p)
      in out @ grep rd pattern buf' (drop n inp))"
  by pat_completeness auto
termination
  by (relation "measure (\<lambda>(rd, pattern, buf, inp). length inp)") auto

declare grep.simps [simp del]

text \<open>
  A \<open>read\<close> that delivers part of a line loses it: with no newline in the buffer \<open>p\<close> is
  \<open>buf\<close>, and \<open>m\<close> is set to 0.
\<close>

lemma grep_loses_partial_lines:
  "grep (\<lambda>_. 1) [97] [] [97, 98, 10] = [] \<and> grep (\<lambda>_. 3) [97] [] [97, 98, 10] = [97, 98, 10]"
  by (simp add: grep.simps [of _ _ _ "_ # _"] grep.simps [of _ _ _ "[]"] scan_lines.simps match_def ch_def
      matchhere.simps [of "[97]"] matchhere.simps [of "[]"])

section \<open>The lines it prints\<close>

definition lines_of :: "byte list \<Rightarrow> byte list list" where
  "lines_of inp = butlast (split_on 10 inp)"

definition matching :: "byte list \<Rightarrow> byte list \<Rightarrow> byte list" where
  "matching pattern inp = concat (map (\<lambda>l. l @ [10]) (filter (match pattern) (lines_of inp)))"

lemma split_on_nonempty [simp]: "split_on d xs \<noteq> []"
  by (subst split_on_first) simp

lemma split_on_append:
  "split_on d (xs @ d # ys) = butlast (split_on d xs) @ last (split_on d xs) # split_on d ys"
  by (induction xs) (auto split: list.splits)

lemma split_on_none: "d \<notin> set xs \<Longrightarrow> split_on d xs = [xs]"
  by (induction xs) auto

lemma matching_line:
  "10 \<notin> set l \<Longrightarrow> matching pattern (l @ 10 # rest) = (if match pattern l then l @ [10] else []) @ matching pattern rest"
  by (simp add: matching_def lines_of_def split_on_append split_on_none)

lemma matching_rest: "10 \<notin> set l \<Longrightarrow> matching pattern l = []"
  by (simp add: matching_def lines_of_def split_on_none)

lemma ustrchr_None: "0 \<notin> set p \<Longrightarrow> ustrchr p c = None \<longleftrightarrow> c \<notin> set p"
  by (induction p) auto

lemma ustrchr_Some: "ustrchr p c = Some q \<Longrightarrow> p = take q p @ c # drop (q + 1) p \<and> c \<notin> set (take q p)"
  by (induction p arbitrary: q) (auto split: if_splits)

lemma scan_lines_spec:
  assumes "0 \<notin> set p" and "scan_lines pattern p = (out, rest)"
  shows "10 \<notin> set rest \<and> length rest \<le> length p \<and> (length rest = length p \<longrightarrow> rest = p \<and> out = []) \<and>
    (\<forall>more. matching pattern (p @ more) = out @ matching pattern (rest @ more)) \<and>
    (\<exists>ls. p = concat (map (\<lambda>l. l @ [10]) ls) @ rest)"
  using assms
proof (induction pattern p arbitrary: out rest rule: scan_lines.induct)
  case (1 pattern p)
  show ?case
  proof (cases "ustrchr p 10")
    case None
    then have "out = []" "rest = p" using 1(3) by (simp_all add: scan_lines.simps)
    then show ?thesis using None 1(2) ustrchr_None by (auto intro: exI [of _ "[]"])
  next
    case (Some q)
    let ?l = "take q p" and ?p = "drop (q + 1) p"
    obtain o' where o': "scan_lines pattern ?p = (o', rest)" "out = (if match pattern ?l then take (q + 1) p else []) @ o'"
      using 1(3) Some by (auto simp: scan_lines.simps [of pattern p] split: prod.splits)
    have p: "p = ?l @ 10 # ?p" "10 \<notin> set ?l" using ustrchr_Some [OF Some] by blast+
    have q: "q < length p" by (rule ustrchr_less [OF Some])
    have t: "take (q + 1) p = ?l @ [10]" 
    proof -
      have "p ! q = 10" using q by (subst p(1)) (simp add: nth_append)
      then show ?thesis using q by (simp add: take_Suc_conv_app_nth)
    qed
    have z: "0 \<notin> set ?p" using 1(2) by (auto dest: in_set_dropD)
    note IH = 1(1) [OF Some z o'(1)]
    have "matching pattern (p @ more) = out @ matching pattern (rest @ more)" for more
    proof -
      have "p @ more = ?l @ 10 # (?p @ more)" by (subst p(1)) simp
      then show ?thesis using IH o'(2) t by (simp only: matching_line [OF p(2)]) auto
    qed
    moreover obtain ls where "?p = concat (map (\<lambda>l. l @ [10]) ls) @ rest" using IH by blast
    then have "p = concat (map (\<lambda>l. l @ [10]) (?l # ls)) @ rest" by (subst p(1)) simp
    then have "\<exists>ls. p = concat (map (\<lambda>l. l @ [10]) ls) @ rest" by (rule exI)
    moreover have "length rest < length p" using IH q by auto
    moreover have "10 \<notin> set rest" using IH by simp
    ultimately show ?thesis by simp
  qed
qed

lemma line_in_split:
  assumes "10 \<notin> set l"
  shows "concat (map (\<lambda>l. l @ [10]) ls) @ l @ zs = inp \<Longrightarrow>
    \<exists>x \<in> set (split_on 10 inp). length l \<le> length x"
proof (induction ls arbitrary: inp)
  case Nil
  have t: "takeWhile (\<lambda>c. c \<noteq> 10) (l @ zs) = l @ takeWhile (\<lambda>c. c \<noteq> 10) zs"
    using assms by (induction l) auto
  show ?case using Nil split_on_first [of 10 inp] t by auto
next
  case (Cons a ls)
  have "inp = a @ 10 # (concat (map (\<lambda>l. l @ [10]) ls) @ l @ zs)" using Cons.prems by simp
  then show ?case using Cons.IH [OF refl] by (auto simp: split_on_append)
qed

definition full_read :: "(byte list \<Rightarrow> nat) \<Rightarrow> bool" where
  "full_read rd \<longleftrightarrow> (\<forall>inp. length inp \<le> rd inp)"

lemma grep_spec:
  assumes "full_read rd" and "0 \<notin> set (buf @ inp)" and "10 \<notin> set buf" and "\<forall>l \<in> set (split_on 10 (buf @ inp)). length l < 1023"
  shows "grep rd pattern buf inp = matching pattern (buf @ inp)"
  using assms
proof (induction rd pattern buf inp rule: grep.induct)
  case (1 rd pattern buf inp)
  define k where "k = min (rd inp) (min (1024 - length buf - 1) (length inp))"
  have "length inp \<le> rd inp" using 1(2) by (simp add: full_read_def)
  then have n: "k = min (1023 - length buf) (length inp)" by (simp add: k_def)
  have short: "length buf < 1023"
    using line_in_split [OF 1(4), of "[]" inp "buf @ inp"] 1(5) by auto
  show ?case
  proof (cases "k = 0")
    case True
    then have "inp = []" using n short by (simp add: min_def split: if_splits)
    then show ?thesis using 1(4) by (simp add: grep.simps [of rd pattern buf] matching_rest)
  next
    case False
    let ?b = "buf @ take k inp"
    obtain out p where s: "scan_lines pattern ?b = (out, p)" by fastforce
    have z: "0 \<notin> set ?b" using 1(3) by (auto dest: in_set_takeD)
    note spec = scan_lines_spec [OF z s]
    have b: "buf @ inp = ?b @ drop k inp" by simp
    define buf' where "buf' = (if length p = length ?b then [] else p)"
    have g: "grep rd pattern buf inp = out @ grep rd pattern buf' (drop k inp)"
      unfolding grep.simps [of rd pattern buf] Let_def k_def [symmetric] s buf'_def using False by (simp only: prod.case if_False)
    obtain ls where ls: "?b = concat (map (\<lambda>l. l @ [10]) ls) @ p" using spec by blast
    have m: "matching pattern (buf @ inp) = out @ matching pattern (p @ drop k inp)" unfolding b using spec by blast
    have split: "\<forall>l \<in> set (split_on 10 (p @ drop k inp)). length l < 1023"
    proof -
      have "set (split_on 10 (p @ drop k inp)) \<subseteq> set (split_on 10 (concat (map (\<lambda>l. l @ [10]) ls) @ p @ drop k inp))"
        by (induction ls) (auto simp: split_on_append)
      also have "concat (map (\<lambda>l. l @ [10]) ls) @ p @ drop k inp = buf @ inp" using b ls by (metis append.assoc)
      finally show ?thesis using 1(5) by auto
    qed
    show ?thesis
    proof (cases "length p = length ?b")
      case True
      then have p: "p = ?b" "10 \<notin> set ?b" using spec by auto
      have "length ?b < 1023" using line_in_split [OF p(2), of "[]" "drop k inp"] split p(1) by auto
      then have d: "drop k inp = []" using n by (simp add: min_def split: if_splits)
      have "grep rd pattern [] [] = []" by (simp add: grep.simps)
      then show ?thesis using g m d True p by (simp add: buf'_def matching_rest)
    next
      case False
      then have "buf' = p" by (simp add: buf'_def)
      moreover have "0 \<notin> set (p @ drop k inp)" using z 1(3) unfolding ls by (auto dest: in_set_dropD)
      ultimately have "grep rd pattern buf' (drop k inp) = matching pattern (p @ drop k inp)"
        using 1(1) [OF k_def \<open>k \<noteq> 0\<close> refl s [symmetric] refl refl, folded buf'_def] 1(2) spec split
        by simp
      then show ?thesis using g m by simp
    qed
  qed
qed

text \<open>
  C30: on a file, where \<open>read\<close> delivers all that is there and fits, \<open>grep\<close> prints
  exactly the lines that match, in order and each with its newline, although it sees the
  file through a buffer of 1024 bytes; the file has no zero byte, and no line with 1023
  or more characters.  A last line without a newline is not printed.
\<close>

theorem grep_prints_matching_lines:
  assumes "full_read rd" and "0 \<notin> set inp" and "\<forall>l \<in> set (split_on 10 inp). length l < 1023"
  shows "grep rd pattern [] inp =
    concat (map (\<lambda>l. l @ [10]) (filter (match pattern) (butlast (split_on 10 inp))))"
  using grep_spec [OF assms(1), of "[]" inp pattern] assms(2,3) by (simp add: matching_def lines_of_def)

theorem grep_prints_matching_lines_witness:
  "grep length [98, 36] [] [97, 98, 10, 98, 97, 10, 98, 10] = [97, 98, 10, 98, 10]"
proof -
  have "full_read length" by (simp add: full_read_def)
  moreover have "match [98, 36] [97, 98]" "\<not> match [98, 36] [98, 97]" "match [98, 36] [98]"
    by (simp_all add: match_def ch_def matchhere.simps [of "[98, 36]"] matchhere.simps [of "[36]"])
  ultimately show ?thesis
    using grep_prints_matching_lines [of length "[97, 98, 10, 98, 97, 10, 98, 10]" "[98, 36]"] by simp
qed

section \<open>main\<close>

text \<open>
  \<open>main\<close>: what it writes to the standard output and to the standard error.  \<open>opn\<close> gives
  the contents of a file that can be opened, \<open>inp\<close> is the standard input.
\<close>

fun grep_files :: "(byte list \<Rightarrow> nat) \<Rightarrow> (byte list \<Rightarrow> byte list option) \<Rightarrow> byte list \<Rightarrow> byte list list \<Rightarrow> byte list" where
  "grep_files rd opn pattern [] = []"
| "grep_files rd opn pattern (a # argv) =
     (case opn a of
        None \<Rightarrow> the (uprintf (bytestr ''grep: cannot open %s'' @ [10]) [UStr (Some a)])
      | Some f \<Rightarrow> grep rd pattern [] f @ grep_files rd opn pattern argv)"

definition grep_main ::
  "(byte list \<Rightarrow> nat) \<Rightarrow> (byte list \<Rightarrow> byte list option) \<Rightarrow> byte list \<Rightarrow> byte list list \<Rightarrow> byte list \<times> byte list" where
  "grep_main rd opn inp argv =
     (if length argv \<le> 1 then ([], bytestr ''usage: grep pattern [file ...]'' @ [10])
      else if length argv \<le> 2 then (grep rd (argv ! 1) [] inp, [])
      else (grep_files rd opn (argv ! 1) (drop 2 argv), []))"

end
