(* ===== verification/Sh.thy ===== *)
theory Sh
  imports Grep
begin

text \<open>
  The shell, \<open>sh.c\<close>: its parser, a recursive descent over the input line with pointers
  into it.  \<open>b\<close> is the line without its terminating zero, a \<open>char*\<close> an index into it, so
  \<open>*s\<close> is \<open>ch b s\<close> and \<open>es\<close> is \<open>length b\<close>; the pair of a word is its start \<open>q\<close> and end
  \<open>eq\<close>.  A panic of the parser is a value.  The memory of the tree comes from \<open>malloc\<close>,
  which is taken to succeed.

  The parser ends on every line, the words of its tree are the words of the line, and
  \<open>nulterminate\<close> makes a string of each without damaging another.  What \<open>runcmd\<close> does is
  a tree of system calls; it connects the descriptors of every program as the line says.
\<close>

section \<open>Commands\<close>

type_synonym word_ref = "nat \<times> nat"

datatype cmd =
    EXEC "word_ref list"
  | REDIR cmd word_ref "32 word" nat
  | PIPE cmd cmd
  | LIST cmd cmd
  | BACK cmd

abbreviation (input) MAXARGS :: nat where "MAXARGS \<equiv> 10"

datatype 'a parse = Parsed 'a nat | Syntax string | NoFuel

definition pb :: "'a parse \<Rightarrow> ('a \<Rightarrow> nat \<Rightarrow> 'b parse) \<Rightarrow> 'b parse" where
  "pb m f = (case m of Parsed a s \<Rightarrow> f a s | Syntax e \<Rightarrow> Syntax e | NoFuel \<Rightarrow> NoFuel)"

section \<open>Tokens\<close>

definition blank :: "byte \<Rightarrow> bool" where
  "blank c \<longleftrightarrow> c \<in> set [32, 9, 13, 10, 11]"

definition symb :: "byte \<Rightarrow> bool" where
  "symb c \<longleftrightarrow> c \<in> set [60, 124, 62, 38, 59, 40, 41]"

definition plain :: "byte \<Rightarrow> bool" where
  "plain c \<longleftrightarrow> \<not> blank c \<and> \<not> symb c"

definition skip_blanks :: "byte list \<Rightarrow> nat \<Rightarrow> nat" where
  "skip_blanks b s = s + length (takeWhile blank (drop s b))"

definition gettoken :: "byte list \<Rightarrow> nat \<Rightarrow> byte \<times> word_ref \<times> nat" where
  "gettoken b s =
     (let q = skip_blanks b s; c = ch b q;
          (r, s') =
            (if c = 0 then (0, q)
             else if c = 124 \<or> c = 40 \<or> c = 41 \<or> c = 59 \<or> c = 38 \<or> c = 60 then (c, q + 1)
             else if c = 62 then (if ch b (q + 1) = 62 then (43, q + 2) else (62, q + 1))
             else (97, q + length (takeWhile plain (drop q b))))
      in (r, (q, s'), skip_blanks b s'))"

definition peek :: "byte list \<Rightarrow> nat \<Rightarrow> byte list \<Rightarrow> bool \<times> nat" where
  "peek b s toks = (let s = skip_blanks b s in (ch b s \<noteq> 0 \<and> ch b s \<in> set toks, s))"

section \<open>The grammar\<close>

text \<open>
  Every function takes a bound on the depth of its recursion; \<open>parsecmd\<close> starts with one
  that is shown to be enough.  A redirection wraps the command while its arguments are
  still being read; here the redirections are collected and wrapped around it at the end.
\<close>

type_synonym redirection = "word_ref \<times> 32 word \<times> nat"

definition redir :: "byte \<Rightarrow> word_ref \<Rightarrow> redirection" where
  "redir tok w = (if tok = 60 then (w, O_RDONLY, 0) else (w, O_WRONLY OR O_CREATE, 1))"

definition wrap :: "redirection list \<Rightarrow> cmd \<Rightarrow> cmd" where
  "wrap rs c = foldl (\<lambda>c (w, mode, fd). REDIR c w mode fd) c rs"

fun parseredirs :: "nat \<Rightarrow> byte list \<Rightarrow> nat \<Rightarrow> redirection list parse" where
  "parseredirs 0 b s = NoFuel"
| "parseredirs (Suc f) b s =
     (let (p, s) = peek b s [60, 62] in
      if \<not> p then Parsed [] s
      else
      let (tok, _, s) = gettoken b s;
          (t, w, s) = gettoken b s
      in if t \<noteq> 97 then Syntax ''missing file for redirection''
         else pb (parseredirs f b s) (\<lambda>rs. Parsed (redir tok w # rs)))"

fun parseargs :: "nat \<Rightarrow> byte list \<Rightarrow> nat \<Rightarrow> nat \<Rightarrow> (word_ref list \<times> redirection list) parse" where
  "parseargs 0 b s argc = NoFuel"
| "parseargs (Suc f) b s argc =
     (let (p, s) = peek b s [124, 41, 38, 59] in
      if p then Parsed ([], []) s
      else
      let (tok, w, s) = gettoken b s in
      if tok = 0 then Parsed ([], []) s
      else if tok \<noteq> 97 then Syntax ''syntax''
      else if MAXARGS \<le> argc + 1 then Syntax ''too many args''
      else
      pb (parseredirs f b s) (\<lambda>rs s.
      pb (parseargs f b s (argc + 1)) (\<lambda>(ws, rs'). Parsed (w # ws, rs @ rs'))))"

fun parse_back :: "nat \<Rightarrow> byte list \<Rightarrow> nat \<Rightarrow> cmd \<Rightarrow> cmd parse" where
  "parse_back 0 b s c = NoFuel"
| "parse_back (Suc f) b s c =
     (let (p, s) = peek b s [38] in
      if \<not> p then Parsed c s
      else let (_, _, s) = gettoken b s in parse_back f b s (BACK c))"

fun parseline :: "nat \<Rightarrow> byte list \<Rightarrow> nat \<Rightarrow> cmd parse"
  and parsepipe :: "nat \<Rightarrow> byte list \<Rightarrow> nat \<Rightarrow> cmd parse"
  and parseexec :: "nat \<Rightarrow> byte list \<Rightarrow> nat \<Rightarrow> cmd parse"
  and parseblock :: "nat \<Rightarrow> byte list \<Rightarrow> nat \<Rightarrow> cmd parse" where
  "parseline 0 b s = NoFuel"
| "parseline (Suc f) b s =
     pb (parsepipe f b s) (\<lambda>c s.
     pb (parse_back f b s c) (\<lambda>c s.
     let (p, s) = peek b s [59] in
     if \<not> p then Parsed c s
     else let (_, _, s) = gettoken b s in pb (parseline f b s) (\<lambda>c'. Parsed (LIST c c'))))"
| "parsepipe 0 b s = NoFuel"
| "parsepipe (Suc f) b s =
     pb (parseexec f b s) (\<lambda>c s.
     let (p, s) = peek b s [124] in
     if \<not> p then Parsed c s
     else let (_, _, s) = gettoken b s in pb (parsepipe f b s) (\<lambda>c'. Parsed (PIPE c c')))"
| "parseexec 0 b s = NoFuel"
| "parseexec (Suc f) b s =
     (let (p, s) = peek b s [40] in
      if p then parseblock f b s
      else
      pb (parseredirs f b s) (\<lambda>rs s.
      pb (parseargs f b s 0) (\<lambda>(ws, rs'). Parsed (wrap (rs @ rs') (EXEC ws)))))"
| "parseblock 0 b s = NoFuel"
| "parseblock (Suc f) b s =
     (let (p, s) = peek b s [40] in
      if \<not> p then Syntax ''parseblock''
      else
      let (_, _, s) = gettoken b s in
      pb (parseline f b s) (\<lambda>c s.
      let (p, s) = peek b s [41] in
      if \<not> p then Syntax ''syntax - missing )''
      else
      let (_, _, s) = gettoken b s in
      pb (parseredirs f b s) (\<lambda>rs. Parsed (wrap rs c))))"

fun nulterminate :: "cmd \<Rightarrow> bytes \<Rightarrow> bytes" where
  "nulterminate (EXEC ws) m = foldl (\<lambda>m (q, eq). m(eq := 0)) m ws"
| "nulterminate (REDIR c (q, eq) mode fd) m = (nulterminate c m)(eq := 0)"
| "nulterminate (PIPE l r) m = nulterminate r (nulterminate l m)"
| "nulterminate (LIST l r) m = nulterminate r (nulterminate l m)"
| "nulterminate (BACK c) m = nulterminate c m"

definition parsecmd :: "byte list \<Rightarrow> (cmd \<times> bytes) parse" where
  "parsecmd b =
     pb (parseline (4 * length b + 6) b 0) (\<lambda>c s.
     let (_, s) = peek b s [] in
     if s \<noteq> length b then Syntax ''syntax'' else Parsed (c, nulterminate c (bytes_of b)) s)"

section \<open>The parser ends, and its words are words of the line\<close>

definition is_word :: "byte list \<Rightarrow> word_ref \<Rightarrow> bool" where
  "is_word b w \<longleftrightarrow> (case w of (q, e) \<Rightarrow> q < e \<and> e \<le> length b \<and> (\<forall>i. q \<le> i \<and> i < e \<longrightarrow> plain (b ! i)) \<and>
     (e < length b \<longrightarrow> \<not> plain (b ! e)))"

lemma skip_blanks_bounds: "s \<le> skip_blanks b s" "s \<le> length b \<Longrightarrow> skip_blanks b s \<le> length b"
proof -
  show "s \<le> skip_blanks b s" by (simp add: skip_blanks_def)
  show "skip_blanks b s \<le> length b" if "s \<le> length b"
    using length_takeWhile_le [of blank "drop s b"] that by (simp add: skip_blanks_def)
qed

lemma takeWhile_drop_stops:
  assumes "s \<le> length b" and "e = s + length (takeWhile P (drop s b))"
  shows "e \<le> length b \<and> (\<forall>i. s \<le> i \<and> i < e \<longrightarrow> P (b ! i)) \<and> (e < length b \<longrightarrow> \<not> P (b ! e))"
proof (intro conjI allI impI)
  show "e \<le> length b" using assms length_takeWhile_le [of P "drop s b"] by simp
  show "P (b ! i)" if "s \<le> i \<and> i < e" for i
  proof -
    have l: "i - s < length (takeWhile P (drop s b))" using that assms(2) by linarith
    have "takeWhile P (drop s b) ! (i - s) = drop s b ! (i - s)" by (rule takeWhile_nth [OF l])
    moreover have "takeWhile P (drop s b) ! (i - s) \<in> set (takeWhile P (drop s b))" by (rule nth_mem [OF l])
    ultimately show ?thesis using that assms(1) by (auto dest: set_takeWhileD)
  qed
  show "\<not> P (b ! e)" if "e < length b"
    using nth_length_takeWhile [of P "drop s b"] that assms by simp
qed

lemma skip_blanks_stops: "s \<le> length b \<Longrightarrow> skip_blanks b s < length b \<Longrightarrow> \<not> blank (b ! skip_blanks b s)"
  using takeWhile_drop_stops [OF _ refl, of s b blank] by (simp add: skip_blanks_def)

lemma skip_blanks_again: "s \<le> length b \<Longrightarrow> skip_blanks b (skip_blanks b s) = skip_blanks b s"
proof -
  assume s: "s \<le> length b"
  let ?t = "skip_blanks b s"
  have "takeWhile blank (drop ?t b) = []"
  proof (cases "?t < length b")
    case True
    then show ?thesis using skip_blanks_stops [OF s] by (simp add: Cons_nth_drop_Suc [symmetric])
  qed simp
  then show ?thesis by (simp add: skip_blanks_def [of b ?t])
qed

lemma gettoken_spec:
  assumes "s \<le> length b" and "gettoken b s = (r, (q, e), s')"
  shows "s \<le> q" "e \<le> s'" "q \<le> e" "s' \<le> length b" "r \<noteq> 0 \<Longrightarrow> s < s'" "r = 97 \<Longrightarrow> is_word b (q, e)"
    "ch b (skip_blanks b s) \<noteq> 0 \<Longrightarrow> r \<noteq> 0"
proof -
  let ?q = "skip_blanks b s"
  let ?c = "ch b ?q"
  let ?w = "?q + length (takeWhile plain (drop ?q b))"
  have q: "q = ?q" and s': "s' = skip_blanks b e"
    and re: "(r, e) = (if ?c = 0 then (0, ?q)
             else if ?c = 124 \<or> ?c = 40 \<or> ?c = 41 \<or> ?c = 59 \<or> ?c = 38 \<or> ?c = 60 then (?c, ?q + 1)
             else if ?c = 62 then (if ch b (?q + 1) = 62 then (43, ?q + 2) else (62, ?q + 1))
             else (97, ?w))"
    using assms(2) by (auto simp: gettoken_def Let_def split: if_splits)
  have ql: "?q \<le> length b" by (rule skip_blanks_bounds(2) [OF assms(1)])
  have in_b: "k < length b" if "ch b k \<noteq> 0" for k using that by (auto simp: ch_def split: if_splits)
  note w = takeWhile_drop_stops [OF ql refl, of plain]
  have word: "is_word b (?q, ?w)" if "?c \<noteq> 0" "?c \<noteq> 124" "?c \<noteq> 40" "?c \<noteq> 41" "?c \<noteq> 59" "?c \<noteq> 38" "?c \<noteq> 60" "?c \<noteq> 62"
  proof -
    have l: "?q < length b" by (rule in_b [OF that(1)])
    then have "?c = b ! ?q" by (simp add: ch_def)
    then have "plain (b ! ?q)" using skip_blanks_stops [OF assms(1) l] that by (simp add: plain_def symb_def)
    then have "takeWhile plain (drop ?q b) \<noteq> []" using l by (simp add: Cons_nth_drop_Suc [symmetric])
    then show ?thesis using w by (simp add: is_word_def)
  qed
  have qe: "q \<le> e" and el: "e \<le> length b" and lt: "r \<noteq> 0 \<Longrightarrow> q < e"
    using re q in_b [of ?q] in_b [of "?q + 1"] w word ql by (auto simp: is_word_def split: if_splits)
  show "s \<le> q" unfolding q by (rule skip_blanks_bounds)
  show "e \<le> s'" unfolding s' by (rule skip_blanks_bounds)
  show "q \<le> e" by (rule qe)
  show "s' \<le> length b" unfolding s' by (rule skip_blanks_bounds) (rule el)
  show "r \<noteq> 0 \<Longrightarrow> s < s'" using lt \<open>s \<le> q\<close> \<open>e \<le> s'\<close> by simp
  show "r = 97 \<Longrightarrow> is_word b (q, e)" using re q word by (auto split: if_splits)
  show "?c \<noteq> 0 \<Longrightarrow> r \<noteq> 0" using re by (auto split: if_splits)
qed

lemma peek_spec:
  assumes "s \<le> length b" and "peek b s toks = (p, s')"
  shows "s \<le> s'" "s' \<le> length b" "p \<Longrightarrow> ch b (skip_blanks b s') \<noteq> 0" "s' = skip_blanks b s"
  using assms skip_blanks_bounds [of s b] skip_blanks_again [of s b] by (auto simp: peek_def Let_def)

definition good :: "byte list \<Rightarrow> nat \<Rightarrow> ('a \<Rightarrow> bool) \<Rightarrow> 'a parse \<Rightarrow> bool" where
  "good b s P r = (case r of Parsed a s' \<Rightarrow> s \<le> s' \<and> s' \<le> length b \<and> P a | Syntax e \<Rightarrow> True | NoFuel \<Rightarrow> False)"

lemma good_simps [simp]:
  "good b s P (Parsed a s') \<longleftrightarrow> s \<le> s' \<and> s' \<le> length b \<and> P a" "good b s P (Syntax e)"
  by (simp_all add: good_def)

lemma good_pb:
  "good b s P m \<Longrightarrow> (\<And>a s'. s \<le> s' \<Longrightarrow> s' \<le> length b \<Longrightarrow> P a \<Longrightarrow> good b s Q (f a s')) \<Longrightarrow> good b s Q (pb m f)"
  by (cases m) (simp_all add: pb_def good_def [of _ _ _ NoFuel])

lemma good_mono: "good b s' P r \<Longrightarrow> s \<le> s' \<Longrightarrow> good b s P r"
  by (auto simp: good_def split: parse.splits)

definition redir_ok :: "byte list \<Rightarrow> redirection \<Rightarrow> bool" where
  "redir_ok b r \<longleftrightarrow> (case r of (w, mode, fd) \<Rightarrow> is_word b w \<and>
     (mode = O_RDONLY \<and> fd = 0 \<or> mode = O_WRONLY OR O_CREATE \<and> fd = 1))"

fun cmd_ok :: "byte list \<Rightarrow> cmd \<Rightarrow> bool" where
  "cmd_ok b (EXEC ws) \<longleftrightarrow> length ws < MAXARGS \<and> (\<forall>w \<in> set ws. is_word b w)"
| "cmd_ok b (REDIR c w mode fd) \<longleftrightarrow> cmd_ok b c \<and> redir_ok b (w, mode, fd)"
| "cmd_ok b (PIPE l r) \<longleftrightarrow> cmd_ok b l \<and> cmd_ok b r"
| "cmd_ok b (LIST l r) \<longleftrightarrow> cmd_ok b l \<and> cmd_ok b r"
| "cmd_ok b (BACK c) \<longleftrightarrow> cmd_ok b c"

lemma wrap_ok: "cmd_ok b c \<Longrightarrow> (\<forall>r \<in> set rs. redir_ok b r) \<Longrightarrow> cmd_ok b (wrap rs c)"
  unfolding wrap_def by (induction rs arbitrary: c) auto

lemma parseredirs_good:
  "s \<le> length b \<Longrightarrow> length b - s + 1 \<le> f \<Longrightarrow> good b s (\<lambda>rs. \<forall>r \<in> set rs. redir_ok b r) (parseredirs f b s)"
proof (induction f arbitrary: s)
  case 0
  then show ?case by simp
next
  case (Suc f)
  obtain p s1 where p: "peek b s [60, 62] = (p, s1)" by fastforce
  note P = peek_spec [OF Suc.prems(1) p]
  obtain tok w0 s2 where t: "gettoken b s1 = (tok, w0, s2)" by (metis surj_pair)
  obtain t' w s3 where u: "gettoken b s2 = (t', w, s3)" by (metis surj_pair)
  obtain q0 e0 where w0: "w0 = (q0, e0)" by fastforce
  obtain q e where w: "w = (q, e)" by fastforce
  note T = gettoken_spec [OF P(2) t [unfolded w0]]
  note U = gettoken_spec [OF T(4) u [unfolded w]]
  show ?case
  proof (cases "p \<and> t' = 97")
    case True
    have lt: "s < s3" using True P T U by simp
    have ok: "redir_ok b (redir tok w)" using U(6) True w by (simp add: redir_ok_def redir_def)
    have "good b s3 (\<lambda>rs. \<forall>r \<in> set rs. redir_ok b r) (parseredirs f b s3)"
      using lt U(4) Suc.prems by (intro Suc.IH) simp_all
    then have "good b s (\<lambda>rs. \<forall>r \<in> set rs. redir_ok b r) (parseredirs f b s3)" by (rule good_mono) (use lt in simp)
    then have "good b s (\<lambda>rs. \<forall>r \<in> set rs. redir_ok b r) (pb (parseredirs f b s3) (\<lambda>rs. Parsed (redir tok w # rs)))"
      by (rule good_pb) (use ok in simp)
    then show ?thesis using True by (simp add: p t u)
  next
    case False
    then show ?thesis using P(1-3) by (auto simp: p t u)
  qed
qed

lemma parseargs_good:
  "s \<le> length b \<Longrightarrow> length b - s + 2 \<le> f \<Longrightarrow> argc < MAXARGS \<Longrightarrow>
     good b s (\<lambda>(ws, rs). length ws + argc < MAXARGS \<and> (\<forall>w \<in> set ws. is_word b w) \<and> (\<forall>r \<in> set rs. redir_ok b r)) (parseargs f b s argc)"
  (is "_ \<Longrightarrow> _ \<Longrightarrow> _ \<Longrightarrow> good b s (?P argc) _")
proof (induction f arbitrary: s argc)
  case 0
  then show ?case by simp
next
  case (Suc f)
  obtain p s1 where p: "peek b s [124, 41, 38, 59] = (p, s1)" by fastforce
  note P = peek_spec [OF Suc.prems(1) p]
  obtain tok w s2 where t: "gettoken b s1 = (tok, w, s2)" by (metis surj_pair)
  obtain q e where w: "w = (q, e)" by fastforce
  note T = gettoken_spec [OF P(2) t [unfolded w]]
  show ?case
  proof (cases "\<not> p \<and> tok = 97 \<and> argc + 1 < MAXARGS")
    case True
    have lt: "s < s2" and word: "is_word b w" using True P T w by simp_all
    have "good b s2 (\<lambda>rs. \<forall>r \<in> set rs. redir_ok b r) (parseredirs f b s2)"
      using lt T(4) Suc.prems by (intro parseredirs_good) simp_all
    then have "good b s2 (?P argc) (pb (parseredirs f b s2) (\<lambda>rs s. pb (parseargs f b s (argc + 1)) (\<lambda>(ws, rs'). Parsed (w # ws, rs @ rs'))))"
    proof (rule good_pb)
      fix rs s3
      assume s3: "s2 \<le> s3" "s3 \<le> length b" and rs: "\<forall>r \<in> set rs. redir_ok b r"
      have "good b s3 (?P (argc + 1)) (parseargs f b s3 (argc + 1))"
        using lt s3 Suc.prems True by (intro Suc.IH) simp_all
      then have "good b s2 (?P (argc + 1)) (parseargs f b s3 (argc + 1))" by (rule good_mono) (use s3 in simp)
      then show "good b s2 (?P argc) (pb (parseargs f b s3 (argc + 1)) (\<lambda>(ws, rs'). Parsed (w # ws, rs @ rs')))"
        by (rule good_pb) (use rs word in auto)
    qed
    then have "good b s (?P argc) (pb (parseredirs f b s2) (\<lambda>rs s. pb (parseargs f b s (argc + 1)) (\<lambda>(ws, rs'). Parsed (w # ws, rs @ rs'))))"
      by (rule good_mono) (use lt in simp)
    then show ?thesis using True by (simp add: p t)
  next
    case False
    then show ?thesis using P(1-3) T Suc.prems(3) by (auto simp: p t)
  qed
qed

lemma parse_back_good:
  "s \<le> length b \<Longrightarrow> length b - s + 1 \<le> f \<Longrightarrow> cmd_ok b c \<Longrightarrow> good b s (cmd_ok b) (parse_back f b s c)"
proof (induction f arbitrary: s c)
  case 0
  then show ?case by simp
next
  case (Suc f)
  obtain p s1 where p: "peek b s [38] = (p, s1)" by fastforce
  note P = peek_spec [OF Suc.prems(1) p]
  obtain tok q e s2 where t: "gettoken b s1 = (tok, (q, e), s2)" by (metis surj_pair)
  note T = gettoken_spec [OF P(2) t]
  show ?case
  proof (cases p)
    case True
    have lt: "s < s2" using True P T by simp
    have "good b s2 (cmd_ok b) (parse_back f b s2 (BACK c))"
      using lt T(4) Suc.prems by (intro Suc.IH) simp_all
    then show ?thesis using True lt by (auto simp: p t intro: good_mono)
  next
    case False
    then show ?thesis using P Suc.prems(3) by (simp add: p)
  qed
qed

lemma take_token:
  assumes "s \<le> length b" and "peek b s toks = (True, s1)" and "gettoken b s1 = (tok, w, s2)"
  shows "s < s2 \<and> s2 \<le> length b"
proof -
  obtain q e where w: "w = (q, e)" by fastforce
  note P = peek_spec [OF assms(1,2)]
  show ?thesis using P gettoken_spec [OF P(2) assms(3) [unfolded w]] by simp
qed

lemma parse_then:
  assumes "good b s P m" "\<And>a s'. s \<le> s' \<Longrightarrow> s' \<le> length b \<Longrightarrow> P a \<Longrightarrow> good b s' Q (f a s')"
  shows "good b s Q (pb m f)"
  by (rule good_pb [OF assms(1)], rule good_mono [OF assms(2)]) simp_all

lemma parse_opt:
  assumes "s \<le> length b" and "P c"
    and "\<And>s'. s < s' \<Longrightarrow> s' \<le> length b \<Longrightarrow> good b s' P (f s')"
  shows "good b s P (let (p, s) = peek b s toks in if \<not> p then Parsed c s else let (_, _, s) = gettoken b s in f s)"
proof -
  obtain p s1 where p: "peek b s toks = (p, s1)" by fastforce
  obtain tok w s2 where t: "gettoken b s1 = (tok, w, s2)" by (metis surj_pair)
  show ?thesis
  proof (cases p)
    case True
    have s2: "s < s2" "s2 \<le> length b" using take_token [OF assms(1) _ t] p True by auto
    have "good b s P (f s2)" using assms(3) [OF s2] by (rule good_mono) (use s2 in simp)
    then show ?thesis using True by (simp add: p t)
  next
    case False
    then show ?thesis using peek_spec(1,2) [OF assms(1) p] assms(2) by (simp add: p)
  qed
qed

lemma parse_need:
  assumes "s \<le> length b" and "\<And>s'. s < s' \<Longrightarrow> s' \<le> length b \<Longrightarrow> good b s' P (f s')"
  shows "good b s P (let (p, s) = peek b s toks in if \<not> p then Syntax e else let (_, _, s) = gettoken b s in f s)"
proof -
  obtain p s1 where p: "peek b s toks = (p, s1)" by fastforce
  obtain tok w s2 where t: "gettoken b s1 = (tok, w, s2)" by (metis surj_pair)
  show ?thesis
  proof (cases p)
    case True
    have s2: "s < s2" "s2 \<le> length b" using take_token [OF assms(1) _ t] p True by auto
    have "good b s P (f s2)" using assms(2) [OF s2] by (rule good_mono) (use s2 in simp)
    then show ?thesis using True by (simp add: p t)
  next
    case False
    then show ?thesis by (simp add: p)
  qed
qed

text \<open>Each of the four functions returns within its bound, with a well-formed command.\<close>

lemma parse_good:
  "(s \<le> length b \<longrightarrow> 4 * (length b - s) + 6 \<le> f \<longrightarrow> good b s (cmd_ok b) (parseline f b s)) \<and>
   (s \<le> length b \<longrightarrow> 4 * (length b - s) + 5 \<le> f \<longrightarrow> good b s (cmd_ok b) (parsepipe f b s)) \<and>
   (s \<le> length b \<longrightarrow> 4 * (length b - s) + 4 \<le> f \<longrightarrow> good b s (cmd_ok b) (parseexec f b s)) \<and>
   (s \<le> length b \<longrightarrow> 4 * (length b - s) + 3 \<le> f \<longrightarrow> good b s (cmd_ok b) (parseblock f b s))"
proof (induction f arbitrary: s)
  case 0
  then show ?case by simp
next
  case (Suc f)
  have pline: "good b s (cmd_ok b) (parseline f b s)" if "s \<le> length b" "4 * (length b - s) + 6 \<le> f" for s using Suc.IH [of s] that by blast
  have ppipe: "good b s (cmd_ok b) (parsepipe f b s)" if "s \<le> length b" "4 * (length b - s) + 5 \<le> f" for s using Suc.IH [of s] that by blast
  have pexec: "good b s (cmd_ok b) (parseexec f b s)" if "s \<le> length b" "4 * (length b - s) + 4 \<le> f" for s using Suc.IH [of s] that by blast
  have pblock: "good b s (cmd_ok b) (parseblock f b s)" if "s \<le> length b" "4 * (length b - s) + 3 \<le> f" for s using Suc.IH [of s] that by blast
  have "good b s (cmd_ok b) (parseline (Suc f) b s)" if s: "s \<le> length b" "4 * (length b - s) + 6 \<le> Suc f"
    unfolding parseline.simps
    apply (rule parse_then [OF ppipe])
    subgoal using s by simp
    subgoal using s by simp
    apply (rule parse_then [OF parse_back_good])
    subgoal by simp
    subgoal using s by simp
    subgoal by simp
    apply (rule parse_opt)
    subgoal by simp
    subgoal by simp
    apply (rule parse_then [OF pline])
    subgoal by simp
    subgoal using s by simp
    subgoal by simp
    done
  moreover have "good b s (cmd_ok b) (parsepipe (Suc f) b s)" if s: "s \<le> length b" "4 * (length b - s) + 5 \<le> Suc f"
    unfolding parsepipe.simps
    apply (rule parse_then [OF pexec])
    subgoal using s by simp
    subgoal using s by simp
    apply (rule parse_opt)
    subgoal by simp
    subgoal by simp
    apply (rule parse_then [OF ppipe])
    subgoal by simp
    subgoal using s by simp
    subgoal by simp
    done
  moreover have "good b s (cmd_ok b) (parseexec (Suc f) b s)" if s: "s \<le> length b" "4 * (length b - s) + 4 \<le> Suc f"
  proof -
    obtain p s1 where p: "peek b s [40] = (p, s1)" by fastforce
    have s1: "s \<le> s1" "s1 \<le> length b" using peek_spec(1,2) [OF s(1) p] by simp_all
    have "good b s1 (cmd_ok b) (parseblock f b s1)" using s s1 by (intro pblock) simp_all
    moreover have "good b s1 (cmd_ok b) (pb (parseredirs f b s1) (\<lambda>rs s. pb (parseargs f b s 0) (\<lambda>(ws, rs'). Parsed (wrap (rs @ rs') (EXEC ws)))))"
      apply (rule parse_then [OF parseredirs_good])
      subgoal using s1 by simp
      subgoal using s s1 by simp
      apply (rule parse_then [OF parseargs_good])
      subgoal by simp
      subgoal using s s1 by simp
      subgoal by simp
      subgoal by (auto intro!: wrap_ok)
      done
    ultimately show ?thesis using s1 by (auto simp: p intro: good_mono)
  qed
  moreover have "good b s (cmd_ok b) (parseblock (Suc f) b s)" if s: "s \<le> length b" "4 * (length b - s) + 3 \<le> Suc f"
    unfolding parseblock.simps
    apply (rule parse_need)
    subgoal using s by simp
    apply (rule parse_then [OF pline])
    subgoal by simp
    subgoal using s by simp
    apply (rule parse_need)
    subgoal by simp
    apply (rule parse_then [OF parseredirs_good])
    subgoal by simp
    subgoal using s by simp
    subgoal by (simp add: wrap_ok)
    done
  ultimately show ?case by blast
qed

section \<open>The strings of the tree\<close>

fun words :: "cmd \<Rightarrow> word_ref list" where
  "words (EXEC ws) = ws"
| "words (REDIR c w mode fd) = words c @ [w]"
| "words (PIPE l r) = words l @ words r"
| "words (LIST l r) = words l @ words r"
| "words (BACK c) = words c"

lemma words_ok: "cmd_ok b c \<Longrightarrow> w \<in> set (words c) \<Longrightarrow> is_word b w"
  by (induction c) (auto simp: redir_ok_def)

lemma nulterminate_eq: "nulterminate c m i = (if i \<in> snd ` set (words c) then 0 else m i)"
proof (induction c arbitrary: m)
  case (EXEC ws)
  show ?case by (induction ws arbitrary: m) (auto split: if_splits)
next
  case (REDIR c w mode fd)
  then show ?case by (cases w) auto
qed auto

lemma word_string:
  assumes "0 \<notin> set b" and "cmd_ok b c" and "(q, e) \<in> set (words c)"
  shows "cstrn (nulterminate c (bytes_of b)) q (length b + 1) = take (e - q) (drop q b)"
proof -
  let ?w = "take (e - q) (drop q b)"
  have w: "q < e" "e \<le> length b" "\<forall>i. q \<le> i \<and> i < e \<longrightarrow> plain (b ! i)"
    using words_ok [OF assms(2,3)] by (auto simp: is_word_def)
  have "nulterminate c (bytes_of b) (q + i) = ?w ! i" if i: "i < e - q" for i
  proof -
    have "q + i \<noteq> e'" if "(q', e') \<in> set (words c)" for q' e'
    proof
      assume e': "q + i = e'"
      have "e' < length b \<longrightarrow> \<not> plain (b ! e')" using words_ok [OF assms(2) that] by (auto simp: is_word_def)
      moreover have "plain (b ! (q + i))" "q + i < length b" using w i by simp_all
      ultimately show False using e' by simp
    qed
    then have "q + i \<notin> snd ` set (words c)" by force
    moreover have "q + i < length b" using w i by simp
    ultimately show ?thesis using w i by (simp add: nulterminate_eq bytes_of_def)
  qed
  moreover have "nulterminate c (bytes_of b) (q + (e - q)) = 0"
    using assms(3) w(1) by (force simp: nulterminate_eq)
  moreover have "0 \<notin> set ?w" using assms(1) by (auto dest: in_set_takeD in_set_dropD)
  ultimately have "cstrn (nulterminate c (bytes_of b)) q (length b + 1) = take (length b + 1) ?w"
    using w by (intro cstrn_list) auto
  moreover have "length ?w \<le> length b + 1" by simp
  ultimately show ?thesis by (simp only: take_all)
qed

lemma parseline_example:
  "parseline (4 * length [108, 115, 32, 62, 102] + 6) [108, 115, 32, 62, 102] 0 =
     Parsed (REDIR (EXEC [(0, 2)]) (4, 5) (O_WRONLY OR O_CREATE) 1) 5"
  "peek [108, 115, 32, 62, 102] 5 [] = (False, 5)"
  by code_simp+

section \<open>Running a command\<close>

text \<open>
  What a shell process does is a tree of its system calls: a call that may fail has a
  branch for failure, \<open>Fork\<close> one for the child and one for the parent, and \<open>Pipe\<close> passes
  on the two descriptors.  \<open>Say\<close> prints on descriptor 2.
\<close>

datatype prog =
    Exit
  | Say "byte list" prog
  | Close nat prog
  | Open word_ref "32 word" prog prog
  | Exec "word_ref list" prog
  | Pipe prog "nat \<Rightarrow> nat \<Rightarrow> prog"
  | Dup nat prog
  | Fork prog prog prog
  | Wait prog

definition sh_panic :: "string \<Rightarrow> prog" where
  "sh_panic msg = Say (bytestr msg @ [10]) Exit"

definition fork1 :: "prog \<Rightarrow> prog \<Rightarrow> prog" where
  "fork1 child parent = Fork (sh_panic ''fork'') child parent"

text \<open>The text of a word is read from the line as \<open>nulterminate\<close> left it, the memory \<open>m\<close>.\<close>

definition failed :: "string \<Rightarrow> bytes \<Rightarrow> word_ref \<Rightarrow> byte list" where
  "failed what m w = bytestr what @ [32] @ cstrn m (fst w) 100 @ bytestr '' failed'' @ [10]"

fun runcmd :: "bytes \<Rightarrow> cmd \<Rightarrow> prog" where
  "runcmd m (EXEC ws) = (if ws = [] then Exit else Exec ws (Say (failed ''exec'' m (ws ! 0)) Exit))"
| "runcmd m (REDIR c w mode fd) = Close fd (Open w mode (Say (failed ''open'' m w) Exit) (runcmd m c))"
| "runcmd m (LIST l r) = fork1 (runcmd m l) (Wait (runcmd m r))"
| "runcmd m (PIPE l r) =
     Pipe (sh_panic ''pipe'') (\<lambda>p0 p1.
       fork1 (Close 1 (Dup p1 (Close p0 (Close p1 (runcmd m l)))))
       (fork1 (Close 0 (Dup p0 (Close p0 (Close p1 (runcmd m r)))))
       (Close p0 (Close p1 (Wait (Wait Exit))))))"
| "runcmd m (BACK c) = fork1 (runcmd m c) Exit"

text \<open>\<open>getcmd\<close> and one round of the loop of \<open>main\<close>; \<open>rs\<close> is what \<open>read\<close> returns.\<close>

definition getcmd :: "byte option list \<Rightarrow> byte list option" where
  "getcmd rs = (let b = takeWhile (\<lambda>c. c \<noteq> 0) (ugets 100 rs) in if b = [] then None else Some b)"

datatype line = Chdir "byte list" | Child "prog parse"

definition sh_line :: "byte list \<Rightarrow> line" where
  "sh_line b =
     (if ch b 0 = 99 \<and> ch b 1 = 100 \<and> ch b 2 = 32 then Chdir (drop 3 (butlast b))
      else Child (pb (parsecmd b) (\<lambda>(c, m). Parsed (runcmd m c))))"

section \<open>Plumbing\<close>

text \<open>
  What a tree of system calls does, as a tree of processes.  The environment decides which
  calls succeed: opening a file, executing a program, and creating a process or a pipe at
  the point \<open>k\<close> of the run, a path in the tree.  A new descriptor is the lowest free one
  below \<open>NOFILE\<close>, as \<open>fdalloc\<close> (\<open>sysfile.c\<close>) chooses it, and without one the call fails.
  A process exits, becomes a program with a table of open descriptors, writes a message
  where descriptor 2 goes, waits for a child while it has a table open, or goes on as two
  processes, the child and the parent.
\<close>

datatype stream = Tty nat | Opened word_ref "32 word" | ReadEnd "nat list" | WriteEnd "nat list"

type_synonym fds = "nat \<rightharpoonup> stream"

record env =
  opens :: "nat list \<Rightarrow> word_ref \<Rightarrow> 32 word \<Rightarrow> bool"
  runs :: "word_ref list \<Rightarrow> bool"
  forks :: "nat list \<Rightarrow> bool"
  makes_pipe :: "nat list \<Rightarrow> bool"

datatype beh =
    Gone
  | Ran "word_ref list" fds
  | Said "byte list" "stream option" beh
  | Waited fds beh
  | Forked beh beh

definition lowest :: "fds \<Rightarrow> nat option" where
  "lowest t = find (\<lambda>fd. t fd = None) [0 ..< NOFILE]"

primrec behave :: "env \<Rightarrow> prog \<Rightarrow> fds \<Rightarrow> nat list \<Rightarrow> beh" where
  "behave E Exit t k = Gone"
| "behave E (Say x p) t k = Said x (t 2) (behave E p t k)"
| "behave E (Close fd p) t k = behave E p (t(fd := None)) k"
| "behave E (Open w mode e p) t k =
     (if \<not> opens E k w mode then behave E e t k
      else case lowest t of None \<Rightarrow> behave E e t k | Some fd \<Rightarrow> behave E p (t(fd \<mapsto> Opened w mode)) k)"
| "behave E (Exec ws e) t k = (if runs E ws then Ran ws t else behave E e t k)"
| "behave E (Pipe e p) t k =
     (if \<not> makes_pipe E k then behave E e t k
      else case lowest t of None \<Rightarrow> behave E e t k
      | Some r \<Rightarrow>
          (case lowest (t(r \<mapsto> ReadEnd k)) of None \<Rightarrow> behave E e t k
           | Some w \<Rightarrow> behave E (p r w) (t(r \<mapsto> ReadEnd k, w \<mapsto> WriteEnd k)) (k @ [2])))"
| "behave E (Dup fd p) t k = (case lowest t of None \<Rightarrow> behave E p t k | Some fd' \<Rightarrow> behave E p (t(fd' := t fd)) k)"
| "behave E (Fork e c p) t k =
     (if forks E k then Forked (behave E c t (k @ [0])) (behave E p t (k @ [1])) else behave E e t k)"
| "behave E (Wait p) t k = Waited t (behave E p t k)"

text \<open>What a command means: descriptors 0 and 1 go where the line says.\<close>

definition complains :: "byte list \<Rightarrow> fds \<Rightarrow> beh" where
  "complains x t = Said x (t 2) Gone"

fun meaning :: "env \<Rightarrow> bytes \<Rightarrow> cmd \<Rightarrow> fds \<Rightarrow> nat list \<Rightarrow> beh" where
  "meaning E m (EXEC ws) t k =
     (if ws = [] then Gone else if runs E ws then Ran ws t else complains (failed ''exec'' m (ws ! 0)) t)"
| "meaning E m (REDIR c w mode fd) t k =
     (if opens E k w mode then meaning E m c (t(fd \<mapsto> Opened w mode)) k else complains (failed ''open'' m w) t)"
| "meaning E m (LIST l r) t k =
     (if forks E k then Forked (meaning E m l t (k @ [0])) (Waited t (meaning E m r t (k @ [1])))
      else complains (bytestr ''fork'' @ [10]) t)"
| "meaning E m (PIPE l r) t k =
     (if \<not> makes_pipe E k then complains (bytestr ''pipe'' @ [10]) t
      else if \<not> forks E (k @ [2]) then complains (bytestr ''fork'' @ [10]) t
      else
      Forked (meaning E m l (t(1 \<mapsto> WriteEnd k)) (k @ [2, 0]))
        (if forks E (k @ [2, 1])
         then Forked (meaning E m r (t(0 \<mapsto> ReadEnd k)) (k @ [2, 1, 0])) (Waited t (Waited t Gone))
         else complains (bytestr ''fork'' @ [10]) t))"
| "meaning E m (BACK c) t k =
     (if forks E k then Forked (meaning E m c t (k @ [0])) Gone else complains (bytestr ''fork'' @ [10]) t)"

text \<open>The tables of the programs that run and of the processes that wait.\<close>

fun tables :: "beh \<Rightarrow> fds list" where
  "tables Gone = []"
| "tables (Ran ws t) = [t]"
| "tables (Said x u b) = tables b"
| "tables (Waited t b) = t # tables b"
| "tables (Forked a b) = tables a @ tables b"

definition std :: "fds \<Rightarrow> bool" where
  "std t \<longleftrightarrow> dom t = {0, 1, 2}"

lemma fd_list: "[0 ..< NOFILE] = 0 # 1 # 2 # 3 # 4 # [5 ..< NOFILE]"
  by (simp add: upt_conv_Cons)

lemma lowest_std:
  assumes "std t"
  shows "lowest (t(0 := None)) = Some 0" "lowest (t(1 := None)) = Some 1" "lowest t = Some 3" "lowest (t(3 \<mapsto> x)) = Some 4"
    "lowest (t(3 \<mapsto> x, 4 \<mapsto> y, 0 := None)) = Some 0" "lowest (t(3 \<mapsto> x, 4 \<mapsto> y, 1 := None)) = Some 1"
proof -
  have d: "t j \<noteq> None \<longleftrightarrow> j = 0 \<or> j = 1 \<or> j = 2" for j
  proof -
    have "j \<in> dom t \<longleftrightarrow> j \<in> {0, 1, 2}" using assms by (simp only: std_def)
    then show ?thesis by (simp only: domIff insert_iff empty_iff simp_thms)
  qed
  have "t 0 \<noteq> None" "t 1 \<noteq> None" "t 2 \<noteq> None" "t 3 = None" "t 4 = None"
    using d [of 0] d [of 1] d [of 2] d [of 3] d [of 4] by simp_all
  then show "lowest (t(0 := None)) = Some 0" "lowest (t(1 := None)) = Some 1" "lowest t = Some 3" "lowest (t(3 \<mapsto> x)) = Some 4"
    "lowest (t(3 \<mapsto> x, 4 \<mapsto> y, 0 := None)) = Some 0" "lowest (t(3 \<mapsto> x, 4 \<mapsto> y, 1 := None)) = Some 1"
    unfolding lowest_def fd_list find.simps by (simp_all del: upt_rec_numeral)
qed

lemma std_upd: "std t \<Longrightarrow> fd < 2 \<Longrightarrow> std (t(fd \<mapsto> x))"
  by (auto simp: std_def)

lemma plumbing:
  assumes "std t"
  shows "t(3 \<mapsto> ReadEnd k, 4 \<mapsto> WriteEnd k, Suc 0 \<mapsto> x, 3 := None, 4 := None) = t(Suc 0 \<mapsto> x)"
    "t(3 \<mapsto> ReadEnd k, 4 \<mapsto> WriteEnd k, 0 \<mapsto> x, 3 := None, 4 := None) = t(0 \<mapsto> x)"
    "t(3 \<mapsto> ReadEnd k, 4 \<mapsto> WriteEnd k, 3 := None, 4 := None) = t"
  using assms by (auto simp: std_def fun_eq_iff domIff set_eq_iff)

lemma complains_tables [simp]: "tables (complains x t) = []"
  by (simp add: complains_def)

text \<open>
  C33: \<open>runcmd\<close> does what the command means.  With only the descriptors 0, 1 and 2
  open, and whichever of its system calls fail, the processes it creates are those of
  the command: a redirection replaces descriptor 0 or 1 by the file; the two sides of a
  pipe run at the same time with its two ends as descriptors 1 and 0; a list waits for
  its first part before it runs the second, the parent of a pipe waits for both sides
  after it has closed both ends, and a background command is not waited for; a call that
  fails ends the process with a message on descriptor 2.  Every program that runs and
  every process that waits has exactly three descriptors open, so no end of a pipe is
  left open anywhere else.  The command is one the parser can return.
\<close>

theorem runcmd_plumbs:
  assumes "cmd_ok b c" and "std t"
  shows "behave E (runcmd m c) t k = meaning E m c t k \<and> (\<forall>t' \<in> set (tables (behave E (runcmd m c) t k)). std t')"
proof -
  have "behave E (runcmd m c) t k = meaning E m c t k \<and> (\<forall>t' \<in> set (tables (meaning E m c t k)). std t')"
    using assms
  proof (induction c arbitrary: t k)
    case (REDIR c w mode fd)
    have fd: "fd = 0 \<or> fd = 1" "cmd_ok b c" using REDIR.prems(1) by (auto simp: redir_ok_def)
    then have "std (t(fd \<mapsto> Opened w mode))" using REDIR.prems(2) by (auto intro: std_upd)
    then have IH: "behave E (runcmd m c) (t(fd \<mapsto> Opened w mode)) k = meaning E m c (t(fd \<mapsto> Opened w mode)) k \<and>
        (\<forall>t' \<in> set (tables (meaning E m c (t(fd \<mapsto> Opened w mode)) k)). std t')"
      by (rule REDIR.IH [OF fd(2)])
    have low: "lowest (t(fd := None)) = Some fd" using lowest_std(1,2) [OF REDIR.prems(2)] fd(1) by auto
    have two: "(t(fd := None)) 2 = t 2" using fd(1) by auto
    show ?case
      unfolding runcmd.simps behave.simps meaning.simps low option.case fun_upd_upd two complains_def
      using IH by simp
  next
    case (PIPE l r)
    have ok: "cmd_ok b l" "cmd_ok b r" using PIPE.prems(1) by simp_all
    have s: "std (t(1 \<mapsto> WriteEnd k))" "std (t(0 \<mapsto> ReadEnd k))" using PIPE.prems(2) by (simp_all add: std_upd)
    let ?l = "meaning E m l (t(1 \<mapsto> WriteEnd k)) (k @ [2, 0])" and ?r = "meaning E m r (t(0 \<mapsto> ReadEnd k)) (k @ [2, 1, 0])"
    have L: "behave E (runcmd m l) (t(1 \<mapsto> WriteEnd k)) (k @ [2, 0]) = ?l \<and> (\<forall>t' \<in> set (tables ?l). std t')"
      by (rule PIPE.IH(1) [OF ok(1) s(1)])
    have R: "behave E (runcmd m r) (t(0 \<mapsto> ReadEnd k)) (k @ [2, 1, 0]) = ?r \<and> (\<forall>t' \<in> set (tables ?r). std t')"
      by (rule PIPE.IH(2) [OF ok(2) s(2)])
    have "behave E (runcmd m (PIPE l r)) t k = meaning E m (PIPE l r) t k"
      unfolding runcmd.simps fork1_def sh_panic_def behave.simps lowest_std [OF PIPE.prems(2)] option.case fun_upd_upd complains_def
      using L R plumbing [OF PIPE.prems(2)] by (simp add: complains_def)
    then show ?case using L R PIPE.prems(2) by auto
  next
    case (LIST l r)
    have ok: "cmd_ok b l" "cmd_ok b r" using LIST.prems(1) by simp_all
    show ?case using LIST.IH(1) [OF ok(1) LIST.prems(2), of "k @ [0]"] LIST.IH(2) [OF ok(2) LIST.prems(2), of "k @ [1]"] LIST.prems(2)
      by (auto simp: fork1_def sh_panic_def complains_def)
  qed (auto simp: fork1_def sh_panic_def complains_def)
  then show ?thesis by simp
qed

theorem runcmd_plumbs_witness:
  "\<exists>c E t. parsecmd [97, 124, 98] = Parsed (c, nulterminate c (bytes_of [97, 124, 98])) 3 \<and> t = [0 \<mapsto> Tty 0, 1 \<mapsto> Tty 1, 2 \<mapsto> Tty 2] \<and>
     behave E (runcmd zeros c) t [] =
       Forked (Ran [(0, 1)] [0 \<mapsto> Tty 0, 1 \<mapsto> WriteEnd [], 2 \<mapsto> Tty 2])
         (Forked (Ran [(2, 3)] [0 \<mapsto> ReadEnd [], 1 \<mapsto> Tty 1, 2 \<mapsto> Tty 2]) (Waited t (Waited t Gone)))"
proof -
  let ?b = "[97, 124, 98] :: byte list"
  let ?c = "PIPE (EXEC [(0, 1)]) (EXEC [(2, 3)])"
  let ?E = "\<lparr>opens = (\<lambda>_ _ _. True), runs = (\<lambda>_. True), forks = (\<lambda>_. True), makes_pipe = (\<lambda>_. True)\<rparr>"
  have p: "parseline (4 * length ?b + 6) ?b 0 = Parsed ?c 3" "peek ?b 3 [] = (False, 3)" by code_simp+
  have "parsecmd ?b = Parsed (?c, nulterminate ?c (bytes_of ?b)) 3"
    unfolding parsecmd_def pb_def p by (simp add: p)
  moreover have "good ?b 0 (cmd_ok ?b) (parseline (4 * length ?b + 6) ?b 0)" using parse_good [of 0 ?b "4 * length ?b + 6"] by simp
  then have "cmd_ok ?b ?c" unfolding p by simp
  moreover have "std [0 \<mapsto> Tty 0, 1 \<mapsto> Tty 1, 2 \<mapsto> Tty 2]" by (auto simp: std_def)
  ultimately show ?thesis
    using runcmd_plumbs [of ?b ?c "[0 \<mapsto> Tty 0, 1 \<mapsto> Tty 1, 2 \<mapsto> Tty 2]" ?E zeros "[]"]
    by (intro exI [of _ ?c] exI [of _ ?E]) (simp add: fun_upd_twist)
qed

end
