(* ===== verification/Sh_Grammar.thy ===== *)
theory Sh_Grammar
  imports Sh
begin

text \<open>
  The language of the shell: the tokens of a line and the grammar of commands, stated
  without the parser, and the proof that the recursive descent of \<open>sh.c\<close> accepts exactly
  the lines of the grammar and returns the tree each is derived for.
\<close>

section \<open>Tokens of a line\<close>

text \<open>
  A line cut into tokens, with the positions of the words: blanks separate, \<open>>>\<close> is one
  token, the other symbols stand for themselves, and a word is a longest run of other
  characters.
\<close>

datatype tok = Sym byte | Append | Word word_ref

function (sequential) lex :: "nat \<Rightarrow> byte list \<Rightarrow> tok list" where
  "lex i [] = []"
| "lex i (c # rest) =
     (if blank c then lex (i + 1) rest
      else if c = 62 \<and> ch rest 0 = 62 then Append # lex (i + 2) (drop 1 rest)
      else if symb c then Sym c # lex (i + 1) rest
      else let n = length (takeWhile plain rest) in Word (i, i + 1 + n) # lex (i + 1 + n) (drop n rest))"
  by pat_completeness auto
termination by (relation "measure (\<lambda>(i, b). length b)") auto

definition toks_from :: "byte list \<Rightarrow> nat \<Rightarrow> tok list" where
  "toks_from b s = lex s (drop s b)"

section \<open>The grammar of command lines\<close>

inductive redirs :: "tok list \<Rightarrow> redirection list \<Rightarrow> bool" where
  redirs_none: "redirs [] []"
| redirs_in: "redirs ts rs \<Longrightarrow> redirs (Sym 60 # Word w # ts) ((w, O_RDONLY, 0) # rs)"
| redirs_out: "redirs ts rs \<Longrightarrow> redirs (Sym 62 # Word w # ts) ((w, O_WRONLY OR O_CREATE, 1) # rs)"
| redirs_app: "redirs ts rs \<Longrightarrow> redirs (Append # Word w # ts) ((w, O_WRONLY OR O_CREATE, 1) # rs)"

inductive args :: "tok list \<Rightarrow> word_ref list \<Rightarrow> redirection list \<Rightarrow> bool" where
  args_none: "args [] [] []"
| args_word: "redirs t rs \<Longrightarrow> args u ws rs' \<Longrightarrow> args (Word w # t @ u) (w # ws) (rs @ rs')"

inductive is_exec :: "tok list \<Rightarrow> cmd \<Rightarrow> bool" and is_pipe :: "tok list \<Rightarrow> cmd \<Rightarrow> bool"
  and is_line :: "tok list \<Rightarrow> cmd \<Rightarrow> bool" where
  exec_simple: "redirs t rs \<Longrightarrow> args u ws rs' \<Longrightarrow> length ws < MAXARGS \<Longrightarrow> is_exec (t @ u) (wrap (rs @ rs') (EXEC ws))"
| exec_block: "is_line t c \<Longrightarrow> redirs u rs \<Longrightarrow> is_exec (Sym 40 # t @ Sym 41 # u) (wrap rs c)"
| pipe_one: "is_exec t c \<Longrightarrow> is_pipe t c"
| pipe_more: "is_exec t c \<Longrightarrow> is_pipe u d \<Longrightarrow> is_pipe (t @ Sym 124 # u) (PIPE c d)"
| line_one: "is_pipe t c \<Longrightarrow> is_line (t @ replicate n (Sym 38)) ((BACK ^^ n) c)"
| line_more: "is_pipe t c \<Longrightarrow> is_line u d \<Longrightarrow> is_line (t @ replicate n (Sym 38) @ Sym 59 # u) (LIST ((BACK ^^ n) c) d)"

section \<open>The parser's view of the tokens\<close>

lemma toks_from_end [simp]: "toks_from b (length b) = []"
  by (simp add: toks_from_def)

lemma drop_nth: "s < length b \<Longrightarrow> drop s b = ch b s # drop (s + 1) b"
  by (simp add: ch_def Cons_nth_drop_Suc)

lemma toks_from_blank: "s < length b \<Longrightarrow> blank (ch b s) \<Longrightarrow> toks_from b s = toks_from b (s + 1)"
  unfolding toks_from_def by (subst drop_nth) simp_all

lemma toks_from_skip:
  assumes "s \<le> length b"
  shows "toks_from b (skip_blanks b s) = toks_from b s"
  using assms
proof (induction "length b - s" arbitrary: s)
  case 0
  then show ?case by (simp add: skip_blanks_def)
next
  case (Suc n)
  then have s: "s < length b" by simp
  show ?case
  proof (cases "blank (ch b s)")
    case True
    have "skip_blanks b s = skip_blanks b (s + 1)" using s True by (simp add: skip_blanks_def drop_nth [OF s])
    then show ?thesis using Suc.hyps(1) [of "s + 1"] Suc.hyps(2) s toks_from_blank [OF s True] by simp
  next
    case False
    then have "skip_blanks b s = s" using s by (simp add: skip_blanks_def drop_nth [OF s])
    then show ?thesis by simp
  qed
qed

lemma symb_iff: "symb c \<longleftrightarrow> c = 60 \<or> c = 124 \<or> c = 62 \<or> c = 38 \<or> c = 59 \<or> c = 40 \<or> c = 41"
  by (simp add: symb_def)

text \<open>The first token at a position that holds no blank.\<close>

lemma first_token:
  assumes "s < length b" and "\<not> blank (ch b s)"
  shows "toks_from b s =
    (if ch b s = 62 \<and> ch b (s + 1) = 62 then Append # toks_from b (s + 2)
     else if symb (ch b s) then Sym (ch b s) # toks_from b (s + 1)
     else let e = s + length (takeWhile plain (drop s b)) in Word (s, e) # toks_from b e)"
proof -
  have c0: "ch (drop (s + 1) b) 0 = ch b (s + 1)" by (simp add: ch_def)
  have p: "takeWhile plain (drop s b) = ch b s # takeWhile plain (drop (s + 1) b)" if "\<not> symb (ch b s)"
    using that assms by (simp add: drop_nth plain_def)
  show ?thesis
    unfolding toks_from_def drop_nth [OF assms(1)]
    using assms(2) p c0 by (auto simp: Let_def drop_nth [OF assms(1)] add.commute)
qed

lemma ch_nonzero: "0 \<notin> set b \<Longrightarrow> s < length b \<Longrightarrow> ch b s \<noteq> 0"
  by (metis ch_def nth_mem)

definition starts :: "tok list \<Rightarrow> byte list \<Rightarrow> bool" where
  "starts ts toks = (case ts of Sym c # _ \<Rightarrow> c \<in> set toks | Append # _ \<Rightarrow> 62 \<in> set toks | _ \<Rightarrow> False)"

lemma token_peek:
  assumes "0 \<notin> set b" and "s \<le> length b" and "peek b s toks = (p, s1)" and "list_all symb toks"
  shows "s1 \<le> length b" "toks_from b s1 = toks_from b s" "p \<longleftrightarrow> starts (toks_from b s) toks"
proof -
  have s1: "s1 = skip_blanks b s" using assms(3) by (simp add: peek_def Let_def)
  show le: "s1 \<le> length b" using skip_blanks_bounds(2) [OF assms(2)] s1 by simp
  show e: "toks_from b s1 = toks_from b s" using toks_from_skip [OF assms(2)] s1 by simp
  have p: "p \<longleftrightarrow> ch b s1 \<noteq> 0 \<and> ch b s1 \<in> set toks" using assms(3) s1 by (simp add: peek_def Let_def)
  show "p \<longleftrightarrow> starts (toks_from b s) toks"
  proof (cases "s1 < length b")
    case True
    have nb: "\<not> blank (ch b s1)" using skip_blanks_stops [OF assms(2)] True s1 by (simp add: ch_def)
    have nz: "ch b s1 \<noteq> 0" by (rule ch_nonzero [OF assms(1) True])
    have "symb (ch b s1)" if "ch b s1 \<in> set toks" using assms(4) that by (auto simp: list_all_iff)
    then show ?thesis unfolding e [symmetric] p first_token [OF True nb] using nz by (auto simp: starts_def Let_def)
  next
    case False
    then have "s1 = length b" using le by simp
    then show ?thesis unfolding e [symmetric] p by (simp add: starts_def ch_def)
  qed
qed

lemma token_get:
  assumes "0 \<notin> set b" and "s \<le> length b" and "gettoken b s = (r, w, s2)"
  shows "s2 \<le> length b"
    "case toks_from b s of [] \<Rightarrow> r = 0 \<and> toks_from b s2 = [] | Sym c # ts \<Rightarrow> r = c \<and> symb c \<and> toks_from b s2 = ts
      | Append # ts \<Rightarrow> r = 43 \<and> toks_from b s2 = ts | Word w' # ts \<Rightarrow> r = 97 \<and> w = w' \<and> toks_from b s2 = ts"
proof -
  obtain q e where w: "w = (q, e)" by fastforce
  show s2: "s2 \<le> length b" using gettoken_spec(4) [OF assms(2) assms(3) [unfolded w]] .
  let ?q = "skip_blanks b s"
  let ?c = "ch b ?q"
  have ql: "?q \<le> length b" by (rule skip_blanks_bounds(2) [OF assms(2)])
  have re: "q = ?q" "(r, e) = (if ?c = 0 then (0, ?q)
             else if ?c = 124 \<or> ?c = 40 \<or> ?c = 41 \<or> ?c = 59 \<or> ?c = 38 \<or> ?c = 60 then (?c, ?q + 1)
             else if ?c = 62 then (if ch b (?q + 1) = 62 then (43, ?q + 2) else (62, ?q + 1))
             else (97, ?q + length (takeWhile plain (drop ?q b))))" "s2 = skip_blanks b e"
    using assms(3) w by (auto simp: gettoken_def Let_def split: if_splits)
  have "e \<le> length b" using gettoken_spec(2,4) [OF assms(2) assms(3) [unfolded w]] by simp
  then have t2: "toks_from b s2 = toks_from b e" using toks_from_skip re(3) by simp
  show "case toks_from b s of [] \<Rightarrow> r = 0 \<and> toks_from b s2 = [] | Sym c # ts \<Rightarrow> r = c \<and> symb c \<and> toks_from b s2 = ts
      | Append # ts \<Rightarrow> r = 43 \<and> toks_from b s2 = ts | Word w' # ts \<Rightarrow> r = 97 \<and> w = w' \<and> toks_from b s2 = ts"
  proof (cases "?q < length b")
    case True
    have nb: "\<not> blank ?c" using skip_blanks_stops [OF assms(2) True] True by (simp add: ch_def)
    have nz: "?c \<noteq> 0" by (rule ch_nonzero [OF assms(1) True])
    show ?thesis
      unfolding toks_from_skip [OF assms(2), symmetric] first_token [OF True nb] t2
      using re(1,2) nz w by (auto simp: Let_def symb_iff split: if_splits)
  next
    case False
    then have "?q = length b" using ql by simp
    moreover from this have "?c = 0" by (simp add: ch_def)
    ultimately show ?thesis
      unfolding toks_from_skip [OF assms(2), symmetric] t2 using re(2) by simp
  qed
qed

section \<open>Every tree the parser returns is derived\<close>

text \<open>The parse result \<open>c\<close> at \<open>s'\<close>: the tokens between are derived by \<open>P\<close>.\<close>

definition derived :: "byte list \<Rightarrow> nat \<Rightarrow> (tok list \<Rightarrow> 'a \<Rightarrow> bool) \<Rightarrow> 'a parse \<Rightarrow> bool" where
  "derived b s P r = (case r of Parsed c s' \<Rightarrow> s' \<le> length b \<and> (\<exists>ts. toks_from b s = ts @ toks_from b s' \<and> P ts c)
     | Syntax e \<Rightarrow> True | NoFuel \<Rightarrow> True)"

lemma derived_simps [simp]:
  "derived b s P (Parsed c s') \<longleftrightarrow> s' \<le> length b \<and> (\<exists>ts. toks_from b s = ts @ toks_from b s' \<and> P ts c)"
  "derived b s P (Syntax e)" "derived b s P NoFuel"
  by (simp_all add: derived_def)

lemma derived_pb:
  assumes "derived b s P m"
    and "\<And>c s' ts. s' \<le> length b \<Longrightarrow> toks_from b s = ts @ toks_from b s' \<Longrightarrow> P ts c \<Longrightarrow> derived b s Q (f c s')"
  shows "derived b s Q (pb m f)"
  using assms by (cases m) (auto simp: pb_def)

text \<open>A step over some tokens in front.\<close>

lemma derived_front:
  assumes "derived b s' P r" and "toks_from b s = ts @ toks_from b s'" and "\<And>us c. P us c \<Longrightarrow> Q (ts @ us) c"
  shows "derived b s Q r"
  using assms by (cases r) auto

lemma starts_cases:
  assumes "starts (toks_from b s) toks" and "0 \<notin> set b" and "s \<le> length b" and "gettoken b s = (r, w, s2)" and "62 \<notin> set toks"
  shows "r \<in> set toks \<and> s2 \<le> length b \<and> toks_from b s = Sym r # toks_from b s2"
  using assms(1,5) token_get [OF assms(2-4)] by (auto simp: starts_def split: list.splits tok.splits)

lemma redirs_derived:
  assumes "0 \<notin> set b"
  shows "s \<le> length b \<Longrightarrow> derived b s redirs (parseredirs f b s)"
proof (induction f arbitrary: s)
  case (Suc f)
  obtain p s1 where p: "peek b s [60, 62] = (p, s1)" by fastforce
  obtain t w0 s2 where t: "gettoken b s1 = (t, w0, s2)" by (metis surj_pair)
  obtain t' w s3 where u: "gettoken b s2 = (t', w, s3)" by (metis surj_pair)
  have P: "s1 \<le> length b" "toks_from b s1 = toks_from b s" "p \<longleftrightarrow> starts (toks_from b s) [60, 62]"
    using token_peek [OF assms Suc.prems p] by (simp_all add: symb_iff)
  note T = token_get [OF assms P(1) t]
  note U = token_get [OF assms T(1) u]
  show ?case
  proof (cases "p \<and> t' = 97")
    case True
    have "(t = 60 \<and> toks_from b s = Sym 60 # toks_from b s2) \<or> (t = 62 \<and> toks_from b s = Sym 62 # toks_from b s2) \<or>
        (t = 43 \<and> toks_from b s = Append # toks_from b s2)"
      using True P(2,3) T(2) by (auto simp: starts_def split: list.splits tok.splits)
    moreover have "toks_from b s2 = Word w # toks_from b s3" using True U(2) by (auto simp: symb_iff split: list.splits tok.splits)
    ultimately have "derived b s redirs (pb (parseredirs f b s3) (\<lambda>rs. Parsed (redir t w # rs)))"
      using Suc.IH [OF U(1)] by (cases "parseredirs f b s3") (auto simp: pb_def redir_def intro: redirs.intros [simplified])
    then show ?thesis using True by (simp add: p t u)
  next
    case False
    then show ?thesis using P by (auto simp: p t u intro: redirs_none)
  qed
qed simp

lemma args_derived:
  assumes "0 \<notin> set b"
  shows "s \<le> length b \<Longrightarrow> argc < MAXARGS \<Longrightarrow>
    derived b s (\<lambda>ts (ws, rs). args ts ws rs \<and> argc + length ws < MAXARGS) (parseargs f b s argc)"
proof (induction f arbitrary: s argc)
  case (Suc f)
  obtain p s1 where p: "peek b s [124, 41, 38, 59] = (p, s1)" by fastforce
  obtain t w s2 where t: "gettoken b s1 = (t, w, s2)" by (metis surj_pair)
  have P: "s1 \<le> length b" "toks_from b s1 = toks_from b s" "p \<longleftrightarrow> starts (toks_from b s) [124, 41, 38, 59]"
    using token_peek [OF assms Suc.prems(1) p] by (simp_all add: symb_iff)
  note T = token_get [OF assms P(1) t]
  show ?case
  proof (cases "\<not> p \<and> t = 97 \<and> argc + 1 < MAXARGS")
    case True
    have w: "toks_from b s = Word w # toks_from b s2" using True P(2) T(2) by (auto simp: symb_iff split: list.splits tok.splits)
    have "derived b s2 (\<lambda>ts (ws, rs). args (Word w # ts) ws rs \<and> argc + length ws < MAXARGS)
        (pb (parseredirs f b s2) (\<lambda>rs s. pb (parseargs f b s (argc + 1)) (\<lambda>(ws, rs'). Parsed (w # ws, rs @ rs'))))"
    proof (rule derived_pb [OF redirs_derived [OF assms T(1)]])
      fix rs s3 ts
      assume s3: "s3 \<le> length b" "toks_from b s2 = ts @ toks_from b s3" "redirs ts rs"
      then show "derived b s2 (\<lambda>ts (ws, rs). args (Word w # ts) ws rs \<and> argc + length ws < MAXARGS)
          (pb (parseargs f b s3 (argc + 1)) (\<lambda>(ws, rs'). Parsed (w # ws, rs @ rs')))"
        using Suc.IH [OF s3(1), of "argc + 1"] True
        by (cases "parseargs f b s3 (argc + 1)") (auto simp: pb_def intro: args_word)
    qed
    then have "derived b s (\<lambda>ts (ws, rs). args ts ws rs \<and> argc + length ws < MAXARGS)
        (pb (parseredirs f b s2) (\<lambda>rs s. pb (parseargs f b s (argc + 1)) (\<lambda>(ws, rs'). Parsed (w # ws, rs @ rs'))))"
      by (rule derived_front [where ts = "[Word w]"]) (use w in auto)
    then show ?thesis using True by (simp add: p t)
  next
    case False
    have "toks_from b s2 = toks_from b s" if "t = 0" using that T(2) P(2) by (auto simp: symb_iff split: list.splits tok.splits)
    then show ?thesis using False P Suc.prems(2) T(1) by (auto simp: p t intro: args_none)
  qed
qed simp

lemma back_derived:
  assumes "0 \<notin> set b"
  shows "s \<le> length b \<Longrightarrow> derived b s (\<lambda>ts d. \<exists>n. ts = replicate n (Sym 38) \<and> d = (BACK ^^ n) c) (parse_back f b s c)"
proof (induction f arbitrary: s c)
  case (Suc f)
  obtain p s1 where p: "peek b s [38] = (p, s1)" by fastforce
  obtain t w s2 where t: "gettoken b s1 = (t, w, s2)" by (metis surj_pair)
  have P: "s1 \<le> length b" "toks_from b s1 = toks_from b s" "p \<longleftrightarrow> starts (toks_from b s) [38]"
    using token_peek [OF assms Suc.prems p] by (simp_all add: symb_iff)
  show ?case
  proof (cases p)
    case True
    have w: "s2 \<le> length b" "toks_from b s = Sym 38 # toks_from b s2"
      using starts_cases [of b s1 "[38]", OF _ assms P(1) t] True P by auto
    have "derived b s (\<lambda>ts d. \<exists>n. ts = replicate n (Sym 38) \<and> d = (BACK ^^ n) c) (parse_back f b s2 (BACK c))"
    proof (rule derived_front [OF Suc.IH [OF w(1)], where ts = "[Sym 38]"])
      fix us d
      assume "\<exists>n. us = replicate n (Sym 38) \<and> d = (BACK ^^ n) (BACK c)"
      then obtain n where "us = replicate n (Sym 38)" "d = (BACK ^^ n) (BACK c)" by blast
      then show "\<exists>n. [Sym 38] @ us = replicate n (Sym 38) \<and> d = (BACK ^^ n) c"
        by (intro exI [of _ "Suc n"]) (simp add: funpow_swap1)
    qed (use w in simp)
    then show ?thesis using True by (simp add: p t)
  next
    case False
    then show ?thesis using P by (auto simp: p intro: exI [of _ 0])
  qed
qed simp

text \<open>A symbol that may follow, and one that must.\<close>

lemma derived_sym:
  assumes "0 \<notin> set b" and "s \<le> length b" and "symb c" and "c \<noteq> 62"
    and "\<And>s1. s1 \<le> length b \<Longrightarrow> toks_from b s1 = toks_from b s \<Longrightarrow> derived b s0 Q (g s1)"
    and "\<And>s2. s2 \<le> length b \<Longrightarrow> toks_from b s = Sym c # toks_from b s2 \<Longrightarrow> derived b s0 Q (f s2)"
  shows "derived b s0 Q (let (p, s) = peek b s [c] in if \<not> p then g s else let (_, _, s) = gettoken b s in f s)"
proof -
  obtain p s1 where p: "peek b s [c] = (p, s1)" by fastforce
  obtain t w s2 where t: "gettoken b s1 = (t, w, s2)" by (metis surj_pair)
  have P: "s1 \<le> length b" "toks_from b s1 = toks_from b s" "p \<longleftrightarrow> starts (toks_from b s) [c]"
    using token_peek [OF assms(1,2) p] assms(3) by simp_all
  show ?thesis
  proof (cases p)
    case True
    have "s2 \<le> length b \<and> toks_from b s = Sym c # toks_from b s2"
      using starts_cases [of b s1 "[c]", OF _ assms(1) P(1) t] True P assms(4) by auto
    then show ?thesis using True assms(6) by (simp add: p t)
  next
    case False
    then show ?thesis using assms(5) P by (simp add: p)
  qed
qed

lemma derived_result:
  assumes "derived b s' P m" and "toks_from b s = ts @ toks_from b s'" and "\<And>us d. P us d \<Longrightarrow> Q (ts @ us) (h d)"
  shows "derived b s Q (pb m (\<lambda>d. Parsed (h d)))"
  using assms by (cases m) (auto simp: pb_def)

lemma pipe_derived:
  assumes "0 \<notin> set b" and "s \<le> length b" and "derived b s is_exec (parseexec f b s)"
    and "\<And>s. s \<le> length b \<Longrightarrow> derived b s is_pipe (parsepipe f b s)"
  shows "derived b s is_pipe (parsepipe (Suc f) b s)"
  unfolding parsepipe.simps
proof (rule derived_pb [OF assms(3)], rule derived_sym [OF assms(1)])
  fix c s' ts s2
  assume e: "s' \<le> length b" "toks_from b s = ts @ toks_from b s'" "is_exec ts c"
    and s2: "s2 \<le> length b" "toks_from b s' = Sym 124 # toks_from b s2"
  show "derived b s is_pipe (pb (parsepipe f b s2) (\<lambda>c'. Parsed (PIPE c c')))"
    using e s2 pipe_more [OF e(3)] by (intro derived_result [OF assms(4) [OF s2(1)], where ts = "ts @ [Sym 124]"]) auto
qed (auto simp: symb_iff intro: pipe_one)

lemma line_derived:
  assumes "0 \<notin> set b" and "s \<le> length b" and "derived b s is_pipe (parsepipe f b s)"
    and "\<And>s. s \<le> length b \<Longrightarrow> derived b s is_line (parseline f b s)"
  shows "derived b s is_line (parseline (Suc f) b s)"
  unfolding parseline.simps
proof (rule derived_pb [OF assms(3)])
  fix c s' ts
  assume e: "s' \<le> length b" "toks_from b s = ts @ toks_from b s'" "is_pipe ts c"
  have "derived b s (\<lambda>us d. \<exists>n. us = ts @ replicate n (Sym 38) \<and> d = (BACK ^^ n) c) (parse_back f b s' c)"
    by (rule derived_front [OF back_derived [OF assms(1) e(1)] e(2)]) auto
  then show "derived b s is_line (pb (parse_back f b s' c) (\<lambda>c s. let (p, s) = peek b s [59] in if \<not> p then Parsed c s
      else let (_, _, s) = gettoken b s in pb (parseline f b s) (\<lambda>c'. Parsed (LIST c c'))))"
  proof (rule derived_pb)
    fix d s2 us
    assume s2: "s2 \<le> length b" "toks_from b s = us @ toks_from b s2" "\<exists>n. us = ts @ replicate n (Sym 38) \<and> d = (BACK ^^ n) c"
    then obtain n where n: "us = ts @ replicate n (Sym 38)" "d = (BACK ^^ n) c" by blast
    show "derived b s is_line (let (p, s) = peek b s2 [59] in if \<not> p then Parsed d s
        else let (_, _, s) = gettoken b s in pb (parseline f b s) (\<lambda>c'. Parsed (LIST d c')))"
    proof (rule derived_sym [OF assms(1) s2(1)])
      fix s3
      assume s3: "s3 \<le> length b" "toks_from b s2 = Sym 59 # toks_from b s3"
      show "derived b s is_line (pb (parseline f b s3) (\<lambda>c'. Parsed (LIST d c')))"
        using s2(2) s3 n line_more [OF e(3), of _ _ n]
        by (intro derived_result [OF assms(4) [OF s3(1)], where ts = "us @ [Sym 59]"]) auto
    qed (use s2(2) n line_one [OF e(3), of n] in \<open>auto simp: symb_iff\<close>)
  qed
qed

lemma block_derived:
  assumes "0 \<notin> set b" and "s \<le> length b" and "\<And>s. s \<le> length b \<Longrightarrow> derived b s is_line (parseline f b s)"
  shows "derived b s is_exec (parseblock (Suc f) b s)"
  unfolding parseblock.simps
proof (rule derived_sym [OF assms(1,2)])
  fix s1
  assume s1: "s1 \<le> length b" "toks_from b s = Sym 40 # toks_from b s1"
  show "derived b s is_exec (pb (parseline f b s1) (\<lambda>c s. let (p, s) = peek b s [41] in if \<not> p then Syntax ''syntax - missing )''
      else let (_, _, s) = gettoken b s in pb (parseredirs f b s) (\<lambda>rs. Parsed (wrap rs c))))"
  proof (rule derived_pb [OF derived_front [OF assms(3) [OF s1(1)], where ts = "[Sym 40]"]])
    fix c s2 us
    assume s2: "s2 \<le> length b" "toks_from b s = us @ toks_from b s2" "\<exists>ts. us = Sym 40 # ts \<and> is_line ts c"
    show "derived b s is_exec (let (p, s) = peek b s2 [41] in if \<not> p then Syntax ''syntax - missing )''
        else let (_, _, s) = gettoken b s in pb (parseredirs f b s) (\<lambda>rs. Parsed (wrap rs c)))"
    proof (rule derived_sym [OF assms(1) s2(1)])
      fix s3
      assume s3: "s3 \<le> length b" "toks_from b s2 = Sym 41 # toks_from b s3"
      show "derived b s is_exec (pb (parseredirs f b s3) (\<lambda>rs. Parsed (wrap rs c)))"
        using s2(2,3) s3(2) by (intro derived_result [OF redirs_derived [OF assms(1) s3(1)], where ts = "us @ [Sym 41]"]) (auto intro: exec_block)
    qed (simp_all add: symb_iff)
  qed (use s1 in auto)
qed (simp_all add: symb_iff)

lemma exec_derived:
  assumes "0 \<notin> set b" and "s \<le> length b" and "\<And>s. s \<le> length b \<Longrightarrow> derived b s is_exec (parseblock f b s)"
  shows "derived b s is_exec (parseexec (Suc f) b s)"
proof -
  obtain p s1 where p: "peek b s [40] = (p, s1)" by fastforce
  have P: "s1 \<le> length b" "toks_from b s1 = toks_from b s" using token_peek [OF assms(1,2) p] by (simp_all add: symb_iff)
  have "derived b s1 is_exec (pb (parseredirs f b s1) (\<lambda>rs s. pb (parseargs f b s 0) (\<lambda>(ws, rs'). Parsed (wrap (rs @ rs') (EXEC ws)))))"
  proof (rule derived_pb [OF redirs_derived [OF assms(1) P(1)]])
    fix rs s2 ts
    assume s2: "s2 \<le> length b" "toks_from b s1 = ts @ toks_from b s2" "redirs ts rs"
    show "derived b s1 is_exec (pb (parseargs f b s2 0) (\<lambda>(ws, rs'). Parsed (wrap (rs @ rs') (EXEC ws))))"
      using args_derived [OF assms(1) s2(1), of 0 f] s2(2) exec_simple [OF s2(3)]
      by (cases "parseargs f b s2 0") (auto simp: pb_def)
  qed
  then have "derived b s1 is_exec (parseexec (Suc f) b s)" using assms(3) [OF P(1)] by (simp add: p)
  then show ?thesis by (rule derived_front [where ts = "[]"]) (use P in simp_all)
qed

lemma parse_derived:
  assumes "0 \<notin> set b"
  shows "s \<le> length b \<Longrightarrow> derived b s is_line (parseline f b s)" and "s \<le> length b \<Longrightarrow> derived b s is_pipe (parsepipe f b s)"
    and "s \<le> length b \<Longrightarrow> derived b s is_exec (parseexec f b s)" and "s \<le> length b \<Longrightarrow> derived b s is_exec (parseblock f b s)"
proof (induction f arbitrary: s)
  case (Suc f)
  {
    case 1
    then show ?case using Suc by (intro line_derived [OF assms]) simp_all
  next
    case 2
    then show ?case using Suc by (intro pipe_derived [OF assms]) simp_all
  next
    case 3
    then show ?case using Suc by (intro exec_derived [OF assms]) simp_all
  next
    case 4
    then show ?case using Suc by (intro block_derived [OF assms]) simp_all
  }
qed simp_all

section \<open>Every derivation is found\<close>

text \<open>Unless its bound stops it, the parse gives \<open>c\<close> and leaves the tokens \<open>rest\<close>.\<close>

definition reads :: "byte list \<Rightarrow> 'a parse \<Rightarrow> 'a \<Rightarrow> tok list \<Rightarrow> bool" where
  "reads b r c rest \<longleftrightarrow> r = NoFuel \<or> (\<exists>s. r = Parsed c s \<and> s \<le> length b \<and> toks_from b s = rest)"

lemma reads_simps [simp]: "reads b NoFuel c rest" "reads b (Parsed d s) c rest \<longleftrightarrow> d = c \<and> s \<le> length b \<and> toks_from b s = rest"
    "\<not> reads b (Syntax e) c rest"
  by (auto simp: reads_def)

lemma reads_pb:
  assumes "reads b m c rest" and "\<And>s. s \<le> length b \<Longrightarrow> toks_from b s = rest \<Longrightarrow> reads b (f c s) d rest'"
  shows "reads b (pb m f) d rest'"
  using assms by (cases m) (auto simp: pb_def)

lemma reads_sym:
  assumes "0 \<notin> set b" and "s \<le> length b" and "symb c" and "c \<noteq> 62" and "toks_from b s = Sym c # ts"
    and "\<And>s2. s2 \<le> length b \<Longrightarrow> toks_from b s2 = ts \<Longrightarrow> reads b (f s2) d rest"
  shows "reads b (let (p, s) = peek b s [c] in if \<not> p then g s else let (_, _, s) = gettoken b s in f s) d rest"
proof -
  obtain p s1 where p: "peek b s [c] = (p, s1)" by fastforce
  obtain t w s2 where t: "gettoken b s1 = (t, w, s2)" by (metis surj_pair)
  have P: "s1 \<le> length b" "toks_from b s1 = Sym c # ts" p
    using token_peek [OF assms(1,2) p] assms(3,5) by (simp_all add: starts_def)
  have "s2 \<le> length b" "toks_from b s2 = ts" using token_get [OF assms(1) P(1) t] P(2) by simp_all
  then show ?thesis using P(3) assms(6) by (simp add: p t)
qed

lemma reads_nosym:
  assumes "0 \<notin> set b" and "s \<le> length b" and "symb c" and "\<not> starts (toks_from b s) [c]"
    and "\<And>s1. s1 \<le> length b \<Longrightarrow> toks_from b s1 = toks_from b s \<Longrightarrow> reads b (g s1) d rest"
  shows "reads b (let (p, s) = peek b s [c] in if \<not> p then g s else let (_, _, s) = gettoken b s in f s) d rest"
proof -
  obtain p s1 where p: "peek b s [c] = (p, s1)" by fastforce
  have "s1 \<le> length b" "toks_from b s1 = toks_from b s" "\<not> p" using token_peek [OF assms(1,2) p] assms(3,4) by simp_all
  then show ?thesis using assms(5) by (simp add: p)
qed

lemma redirs_read:
  assumes "redirs ts rs" and "0 \<notin> set b"
  shows "s \<le> length b \<Longrightarrow> toks_from b s = ts @ rest \<Longrightarrow> \<not> starts rest [60, 62] \<Longrightarrow> reads b (parseredirs f b s) rs rest"
proof -
  have step: "reads b (parseredirs f b s) (redir t w # rs) rest"
    if s: "s \<le> length b" "toks_from b s = k # Word w # ts @ rest" and k: "(k, t) \<in> {(Sym 60, 60), (Sym 62, 62), (Append, 43)}"
      and IH: "\<And>s f. s \<le> length b \<Longrightarrow> toks_from b s = ts @ rest \<Longrightarrow> reads b (parseredirs f b s) rs rest" for s f k t w ts rs
  proof (cases f)
    case (Suc g)
    obtain p s1 where p: "peek b s [60, 62] = (p, s1)" by fastforce
    obtain t1 w1 s2 where t: "gettoken b s1 = (t1, w1, s2)" by (metis surj_pair)
    obtain t2 w2 s3 where u: "gettoken b s2 = (t2, w2, s3)" by (metis surj_pair)
    have P: "s1 \<le> length b" "toks_from b s1 = k # Word w # ts @ rest" p
      using token_peek [OF assms(2) s(1) p] s(2) k by (auto simp: starts_def symb_iff)
    have T: "s2 \<le> length b" "toks_from b s2 = Word w # ts @ rest" "t1 = t" using token_get [OF assms(2) P(1) t] P(2) k by auto
    have U: "s3 \<le> length b" "toks_from b s3 = ts @ rest" "t2 = 97" "w2 = w" using token_get [OF assms(2) T(1) u] T(2) by auto
    have "reads b (pb (parseredirs g b s3) (\<lambda>rs. Parsed (redir t w # rs))) (redir t w # rs) rest"
      by (rule reads_pb [OF IH [OF U(1,2)]]) simp
    then show ?thesis using P(3) T(3) U(3,4) Suc by (simp add: p t u)
  qed simp
  have r: "redir 60 w = (w, O_RDONLY, 0)" "redir 62 w = (w, O_WRONLY OR O_CREATE, 1)" "redir 43 w = (w, O_WRONLY OR O_CREATE, 1)" for w
    by (simp_all add: redir_def)
  show "s \<le> length b \<Longrightarrow> toks_from b s = ts @ rest \<Longrightarrow> \<not> starts rest [60, 62] \<Longrightarrow> reads b (parseredirs f b s) rs rest"
    using assms(1)
  proof (induction arbitrary: s f)
    case redirs_none
    obtain p s1 where p: "peek b s [60, 62] = (p, s1)" by fastforce
    show ?case
      using token_peek [OF assms(2) redirs_none(1) p] redirs_none by (cases f) (auto simp: p symb_iff)
  next
    case (redirs_in ts rs w)
    show ?case using step [OF redirs_in.prems(1), of "Sym 60" w ts 60 rs f] redirs_in by (simp only: r append_Cons) auto
  next
    case (redirs_out ts rs w)
    show ?case using step [OF redirs_out.prems(1), of "Sym 62" w ts 62 rs f] redirs_out by (simp only: r append_Cons) auto
  next
    case (redirs_app ts rs w)
    show ?case using step [OF redirs_app.prems(1), of Append w ts 43 rs f] redirs_app by (simp only: r append_Cons) auto
  qed
qed

text \<open>What may follow a command, a pipeline and a line.\<close>

definition ends :: "byte list \<Rightarrow> tok list \<Rightarrow> bool" where
  "ends toks ts \<longleftrightarrow> ts = [] \<or> (\<exists>c us. ts = Sym c # us \<and> c \<in> set toks)"

lemma ends_not_starts: "ends toks ts \<Longrightarrow> set toks \<inter> set toks' = {} \<Longrightarrow> \<not> starts ts toks'"
  by (auto simp: ends_def starts_def)

lemma ends_starts: "ends toks ts \<Longrightarrow> ts \<noteq> [] \<Longrightarrow> starts ts toks"
  by (auto simp: ends_def starts_def)

lemma ends_mono: "ends toks ts \<Longrightarrow> set toks \<subseteq> set toks' \<Longrightarrow> ends toks' ts"
  by (auto simp: ends_def)

lemma args_start: "args ts ws rs \<Longrightarrow> ts = [] \<or> (\<exists>w us. ts = Word w # us)"
  by (erule args.cases) auto

lemma redirs_start: "redirs ts rs \<Longrightarrow> ts = [] \<or> (\<exists>k us. ts = k # us \<and> k \<in> {Sym 60, Sym 62, Append})"
  by (erule redirs.cases) auto

lemma args_then:
  assumes "args ts ws rs" and "ends [124, 41, 38, 59] rest"
  shows "\<not> starts (ts @ rest) [60, 62]" "\<not> starts (ts @ rest) [40]"
  using args_start [OF assms(1)] ends_not_starts [OF assms(2), of "[60, 62]"] ends_not_starts [OF assms(2), of "[40]"]
  by (auto simp: starts_def)

lemma args_read:
  assumes "args ts ws rs" and "0 \<notin> set b" and "ends [124, 41, 38, 59] rest"
  shows "s \<le> length b \<Longrightarrow> toks_from b s = ts @ rest \<Longrightarrow> argc + length ws < MAXARGS \<Longrightarrow> reads b (parseargs f b s argc) (ws, rs) rest"
  using assms(1)
proof (induction arbitrary: s f argc)
  case args_none
  obtain p s1 where p: "peek b s [124, 41, 38, 59] = (p, s1)" by fastforce
  obtain t w s2 where t: "gettoken b s1 = (t, w, s2)" by (metis surj_pair)
  have P: "s1 \<le> length b" "toks_from b s1 = rest" "p \<longleftrightarrow> starts rest [124, 41, 38, 59]"
    using token_peek [OF assms(2) args_none(1) p] args_none(2) by (simp_all add: symb_iff)
  show ?case
  proof (cases "rest = []")
    case True
    then show ?thesis using P token_get [OF assms(2) P(1) t] by (cases f) (simp_all add: p t starts_def)
  next
    case False
    then have p using ends_starts [OF assms(3)] P(3) by blast
    then show ?thesis using P by (cases f) (simp_all add: p)
  qed
next
  case (args_word t rs u ws rs' w)
  show ?case
  proof (cases f)
    case (Suc g)
    obtain p s1 where p: "peek b s [124, 41, 38, 59] = (p, s1)" by fastforce
    obtain k v s2 where k: "gettoken b s1 = (k, v, s2)" by (metis surj_pair)
    have P: "s1 \<le> length b" "toks_from b s1 = Word w # t @ u @ rest" "\<not> p"
      using token_peek [OF assms(2) args_word.prems(1) p] args_word.prems(2) by (auto simp: symb_iff starts_def)
    have K: "s2 \<le> length b" "toks_from b s2 = t @ u @ rest" "k = 97" "v = w" using token_get [OF assms(2) P(1) k] P(2) by auto
    have n: "\<not> starts (u @ rest) [60, 62]" using args_then(1) [OF args_word.hyps(2) assms(3)] .
    have "reads b (pb (parseredirs g b s2) (\<lambda>rs s. pb (parseargs g b s (argc + 1)) (\<lambda>(ws, rs'). Parsed (w # ws, rs @ rs')))) (w # ws, rs @ rs') rest"
    proof (rule reads_pb [OF redirs_read [OF args_word.hyps(1) assms(2) K(1,2) n]])
      fix s3
      assume s3: "s3 \<le> length b" "toks_from b s3 = u @ rest"
      have "reads b (parseargs g b s3 (argc + 1)) (ws, rs') rest"
        using args_word.prems(3) by (intro args_word.IH [OF s3]) simp
      then show "reads b (pb (parseargs g b s3 (argc + 1)) (\<lambda>(ws, rs'). Parsed (w # ws, rs @ rs'))) (w # ws, rs @ rs') rest"
        by (rule reads_pb) simp
    qed
    then show ?thesis using P(3) K(3,4) Suc args_word.prems(3) by (simp add: p k)
  qed simp
qed

lemma back_read:
  assumes "0 \<notin> set b"
  shows "s \<le> length b \<Longrightarrow> toks_from b s = replicate n (Sym 38) @ rest \<Longrightarrow> \<not> starts rest [38] \<Longrightarrow>
    reads b (parse_back f b s c) ((BACK ^^ n) c) rest"
proof (induction n arbitrary: s f c)
  case 0
  then show ?case
  proof (cases f)
    case (Suc g)
    show ?thesis unfolding Suc parse_back.simps by (rule reads_nosym [OF assms 0(1)]) (use 0 in \<open>auto simp: symb_iff\<close>)
  qed simp
next
  case (Suc n)
  show ?case
  proof (cases f)
    case (Suc g)
    have IH: "reads b (parse_back g b s2 (BACK c)) ((BACK ^^ Suc n) c) rest" if "s2 \<le> length b" "toks_from b s2 = replicate n (Sym 38) @ rest" for s2
      using Suc.IH [OF that Suc.prems(3), of g "BACK c"] by (simp add: funpow_swap1)
    show ?thesis unfolding Suc parse_back.simps
      by (rule reads_sym [OF assms Suc.prems(1), where ts = "replicate n (Sym 38) @ rest"]) (use Suc.prems(2) IH in \<open>auto simp: symb_iff simp del: funpow.simps\<close>)
  qed simp
qed

lemma exec_simple_read:
  assumes "redirs t rs" and "args u ws rs'" and "length ws < MAXARGS" and "0 \<notin> set b" and "ends [124, 41, 38, 59] rest"
    and "s \<le> length b" and "toks_from b s = t @ u @ rest"
  shows "reads b (parseexec f b s) (wrap (rs @ rs') (EXEC ws)) rest"
proof (cases f)
  case (Suc g)
  obtain p s1 where p: "peek b s [40] = (p, s1)" by fastforce
  have "\<not> starts (t @ u @ rest) [40]" using redirs_start [OF assms(1)] args_then(2) [OF assms(2,5)] by (auto simp: starts_def)
  then have P: "s1 \<le> length b" "toks_from b s1 = t @ u @ rest" "\<not> p" using token_peek [OF assms(4,6) p] assms(7) by (simp_all add: symb_iff)
  have "reads b (pb (parseredirs g b s1) (\<lambda>rs s. pb (parseargs g b s 0) (\<lambda>(ws, rs'). Parsed (wrap (rs @ rs') (EXEC ws)))))
      (wrap (rs @ rs') (EXEC ws)) rest"
  proof (rule reads_pb [OF redirs_read [OF assms(1,4) P(1,2) args_then(1) [OF assms(2,5)]]])
    fix s2
    assume s2: "s2 \<le> length b" "toks_from b s2 = u @ rest"
    have "reads b (parseargs g b s2 0) (ws, rs') rest" using assms(3) by (intro args_read [OF assms(2,4,5) s2]) simp
    then show "reads b (pb (parseargs g b s2 0) (\<lambda>(ws, rs'). Parsed (wrap (rs @ rs') (EXEC ws)))) (wrap (rs @ rs') (EXEC ws)) rest"
      by (rule reads_pb) simp
  qed
  then show ?thesis using Suc P(3) by (simp add: p)
qed simp

lemma exec_block_read:
  assumes "redirs u rs" and "0 \<notin> set b" and "ends [124, 41, 38, 59] rest" and "s \<le> length b" and "toks_from b s = Sym 40 # t @ Sym 41 # u @ rest"
    and line: "\<And>s f r. s \<le> length b \<Longrightarrow> toks_from b s = t @ r \<Longrightarrow> ends [41] r \<Longrightarrow> reads b (parseline f b s) c r"
  shows "reads b (parseexec f b s) (wrap rs c) rest"
proof -
  have blk: "reads b (parseblock g b s1) (wrap rs c) rest" if s1: "s1 \<le> length b" "toks_from b s1 = Sym 40 # t @ Sym 41 # u @ rest" for g s1
  proof (cases g)
    case (Suc h)
    have n: "\<not> starts rest [60, 62]" by (rule ends_not_starts [OF assms(3)]) simp
    show ?thesis
      unfolding Suc parseblock.simps
    proof (rule reads_sym [OF assms(2) s1(1) _ _ s1(2)])
      fix s2
      assume s2: "s2 \<le> length b" "toks_from b s2 = t @ Sym 41 # u @ rest"
      have l: "reads b (parseline h b s2) c (Sym 41 # u @ rest)" by (rule line [OF s2]) (simp add: ends_def)
      show "reads b (pb (parseline h b s2) (\<lambda>c s. let (p, s) = peek b s [41] in if \<not> p then Syntax ''syntax - missing )''
          else let (_, _, s) = gettoken b s in pb (parseredirs h b s) (\<lambda>rs. Parsed (wrap rs c)))) (wrap rs c) rest"
      proof (rule reads_pb [OF l], rule reads_sym [OF assms(2)])
        fix s4
        assume s4: "s4 \<le> length b" "toks_from b s4 = u @ rest"
        show "reads b (pb (parseredirs h b s4) (\<lambda>rs. Parsed (wrap rs c))) (wrap rs c) rest"
          by (rule reads_pb [OF redirs_read [OF assms(1,2) s4 n]]) simp
      qed (simp_all add: symb_iff)
    qed (simp_all add: symb_iff)
  qed simp
  obtain p s1 where p: "peek b s [40] = (p, s1)" by fastforce
  have P: "s1 \<le> length b" "toks_from b s1 = Sym 40 # t @ Sym 41 # u @ rest" p
    using token_peek [OF assms(2,4) p] assms(5) by (simp_all add: symb_iff starts_def)
  show ?thesis using blk [OF P(1,2)] P(3) by (cases f) (simp_all add: p)
qed

lemma line_follow: "ends [41] rest \<Longrightarrow> ends [41, 38, 59] (replicate n (Sym 38) @ rest)" "ends [41, 38, 59] (replicate n (Sym 38) @ Sym 59 # us)"
  by (cases n; auto simp: ends_def)+

lemma parse_read:
  fixes b
  assumes "0 \<notin> set b"
  shows "is_exec ts c \<Longrightarrow> s \<le> length b \<Longrightarrow> toks_from b s = ts @ rest \<Longrightarrow> ends [124, 41, 38, 59] rest \<Longrightarrow> reads b (parseexec f b s) c rest"
    and "is_pipe ts c \<Longrightarrow> s \<le> length b \<Longrightarrow> toks_from b s = ts @ rest \<Longrightarrow> ends [41, 38, 59] rest \<Longrightarrow> reads b (parsepipe f b s) c rest"
    and "is_line ts c \<Longrightarrow> s \<le> length b \<Longrightarrow> toks_from b s = ts @ rest \<Longrightarrow> ends [41] rest \<Longrightarrow> reads b (parseline f b s) c rest"
proof (induction arbitrary: s f rest and s f rest and s f rest rule: is_exec_is_pipe_is_line.inducts)
  case (exec_simple t rs u ws rs')
  then show ?case using exec_simple_read [OF exec_simple.hyps assms] by simp
next
  case (exec_block t c u rs)
  show ?case by (rule exec_block_read [OF exec_block.hyps(2) assms exec_block.prems(3,1)]) (use exec_block in auto)
next
  case (pipe_one t c)
  show ?case
  proof (cases f)
    case (Suc g)
    have e: "reads b (parseexec g b s) c rest" using pipe_one.prems by (intro pipe_one.IH) (auto intro: ends_mono)
    show ?thesis unfolding Suc parsepipe.simps
      by (rule reads_pb [OF e], rule reads_nosym [OF assms]) (use ends_not_starts [OF pipe_one.prems(3), of "[124]"] in \<open>auto simp: symb_iff\<close>)
  qed simp
next
  case (pipe_more t c u d)
  show ?case
  proof (cases f)
    case (Suc g)
    have e: "reads b (parseexec g b s) c (Sym 124 # u @ rest)" using pipe_more.prems by (intro pipe_more.IH(1)) (auto simp: ends_def)
    show ?thesis unfolding Suc parsepipe.simps
    proof (rule reads_pb [OF e], rule reads_sym [OF assms])
      fix s2
      assume s2: "s2 \<le> length b" "toks_from b s2 = u @ rest"
      show "reads b (pb (parsepipe g b s2) (\<lambda>c'. Parsed (PIPE c c'))) (PIPE c d) rest"
        by (rule reads_pb [OF pipe_more.IH(2) [OF s2 pipe_more.prems(3)]]) simp
    qed (simp_all add: symb_iff)
  qed simp
next
  case (line_one t c n)
  show ?case
  proof (cases f)
    case (Suc g)
    have e: "reads b (parsepipe g b s) c (replicate n (Sym 38) @ rest)"
      using line_one.prems line_follow(1) by (intro line_one.IH) auto
    have ns: "\<not> starts rest [38]" "\<not> starts rest [59]" using ends_not_starts [OF line_one.prems(3)] by simp_all
    show ?thesis unfolding Suc parseline.simps
    proof (rule reads_pb [OF e])
      fix s1
      assume s1: "s1 \<le> length b" "toks_from b s1 = replicate n (Sym 38) @ rest"
      show "reads b (pb (parse_back g b s1 c) (\<lambda>c s. let (p, s) = peek b s [59] in if \<not> p then Parsed c s
          else let (_, _, s) = gettoken b s in pb (parseline g b s) (\<lambda>c'. Parsed (LIST c c')))) ((BACK ^^ n) c) rest"
        by (rule reads_pb [OF back_read [OF assms s1 ns(1)]], rule reads_nosym [OF assms]) (use ns(2) in \<open>auto simp: symb_iff\<close>)
    qed
  qed simp
next
  case (line_more t c u d n)
  show ?case
  proof (cases f)
    case (Suc g)
    have e: "reads b (parsepipe g b s) c (replicate n (Sym 38) @ Sym 59 # u @ rest)"
      using line_more.prems line_follow(2) by (intro line_more.IH(1)) auto
    have ns: "\<not> starts (Sym 59 # u @ rest) [38]" by (simp add: starts_def)
    show ?thesis unfolding Suc parseline.simps
    proof (rule reads_pb [OF e])
      fix s1
      assume s1: "s1 \<le> length b" "toks_from b s1 = replicate n (Sym 38) @ Sym 59 # u @ rest"
      show "reads b (pb (parse_back g b s1 c) (\<lambda>c s. let (p, s) = peek b s [59] in if \<not> p then Parsed c s
          else let (_, _, s) = gettoken b s in pb (parseline g b s) (\<lambda>c'. Parsed (LIST c c')))) (LIST ((BACK ^^ n) c) d) rest"
      proof (rule reads_pb [OF back_read [OF assms s1 ns]], rule reads_sym [OF assms])
        fix s3
        assume s3: "s3 \<le> length b" "toks_from b s3 = u @ rest"
        show "reads b (pb (parseline g b s3) (\<lambda>c'. Parsed (LIST ((BACK ^^ n) c) c'))) (LIST ((BACK ^^ n) c) d) rest"
          by (rule reads_pb [OF line_more.IH(2) [OF s3 line_more.prems(3)]]) simp
      qed (simp_all add: symb_iff)
    qed
  qed simp
qed

text \<open>
  C32: the shell's parser accepts exactly the lines of the grammar above, and returns
  their tree.  On every line without a NUL it returns within the bound \<open>parsecmd\<close> gives
  it.  If it reports a syntax error, the tokens of the line are derived for no command;
  otherwise they are derived for the tree it returns and for no other, so a tree covers
  the whole line with its pipes, lists, background commands, parentheses, redirections
  and words in their places.  Every command has less than \<open>MAXARGS\<close> arguments, every
  word of the tree is a longest run of ordinary characters of the line, and after
  \<open>nulterminate\<close> the C string at each word is that word.
\<close>

theorem parsecmd_parses_line:
  assumes "0 \<notin> set b"
  shows "case parsecmd b of NoFuel \<Rightarrow> False
    | Syntax e \<Rightarrow> (\<nexists>c. is_line (toks_from b 0) c)
    | Parsed (c, m) s \<Rightarrow> s = length b \<and> (\<forall>d. is_line (toks_from b 0) d \<longleftrightarrow> d = c) \<and> cmd_ok b c \<and>
        (\<forall>(q, e) \<in> set (words c). cstrn m q (length b + 1) = take (e - q) (drop q b))"
proof -
  let ?r = "parseline (4 * length b + 6) b 0"
  have g: "good b 0 (cmd_ok b) ?r" using parse_good [of 0 b "4 * length b + 6"] by simp
  have d: "derived b 0 is_line ?r" by (rule parse_derived(1) [OF assms]) simp
  have c: "reads b ?r d []" if "is_line (toks_from b 0) d" for d by (rule parse_read(3) [OF assms that]) (simp_all add: ends_def)
  show ?thesis
  proof (cases ?r)
    case (Parsed c s)
    obtain p s1 where p: "peek b s [] = (p, s1)" by fastforce
    have s: "s \<le> length b" using g Parsed by simp
    have s1: "s1 \<le> length b" "toks_from b s1 = toks_from b s" using token_peek [OF assms s p] by simp_all
    have ok: "cmd_ok b c" using g Parsed by simp
    then have w: "\<forall>(q, e) \<in> set (words c). cstrn (nulterminate c (bytes_of b)) q (length b + 1) = take (e - q) (drop q b)"
      using word_string [OF assms] by blast
    have only: "d = c \<and> toks_from b s = []" if "is_line (toks_from b 0) d" for d using c [OF that] Parsed by auto
    have fin: "toks_from b s1 \<noteq> []" if "s1 \<noteq> length b"
    proof -
      have "s1 < length b" "s1 = skip_blanks b s" using that s1(1) p by (simp_all add: peek_def Let_def)
      then have "\<not> blank (ch b s1)" using skip_blanks_stops [OF s] by (simp add: ch_def)
      then show ?thesis using first_token \<open>s1 < length b\<close> by (simp add: Let_def)
    qed
    show ?thesis
    proof (cases "s1 = length b")
      case True
      then have "is_line (toks_from b 0) c" using d Parsed s1(2) by simp
      then have "\<forall>d. is_line (toks_from b 0) d \<longleftrightarrow> d = c" using only by blast
      then show ?thesis using ok w True by (simp add: parsecmd_def pb_def Parsed p)
    next
      case False
      then have "\<nexists>c. is_line (toks_from b 0) c" using fin s1(2) only by metis
      then show ?thesis using False by (simp add: parsecmd_def pb_def Parsed p)
    qed
  next
    case (Syntax e)
    then show ?thesis using c by (auto simp: parsecmd_def pb_def)
  next
    case NoFuel
    then show ?thesis using g by (simp add: good_def)
  qed
qed

theorem parsecmd_parses_line_witness:
  "0 \<notin> set ([108, 115, 32, 62, 102] :: byte list) \<and>
   (\<exists>m. parsecmd [108, 115, 32, 62, 102] = Parsed (REDIR (EXEC [(0, 2)]) (4, 5) (O_WRONLY OR O_CREATE) 1, m) 5 \<and>
     is_line (toks_from [108, 115, 32, 62, 102] 0) (REDIR (EXEC [(0, 2)]) (4, 5) (O_WRONLY OR O_CREATE) 1) \<and>
     cstrn m 0 6 = [108, 115] \<and> cstrn m 4 6 = [102])"
proof -
  let ?b = "[108, 115, 32, 62, 102] :: byte list"
  let ?c = "REDIR (EXEC [(0, 2)]) (4, 5) (O_WRONLY OR O_CREATE) 1"
  have p: "parsecmd ?b = Parsed (?c, nulterminate ?c (bytes_of ?b)) 5"
    unfolding parsecmd_def parseline_example pb_def by (simp add: parseline_example)
  let ?m = "nulterminate ?c (bytes_of ?b)"
  have z: "0 \<notin> set ?b" by simp
  from parsecmd_parses_line [OF z]
  have A: "is_line (toks_from ?b 0) ?c"
      "\<forall>(q, e) \<in> set (words ?c). cstrn ?m q (length ?b + 1) = take (e - q) (drop q ?b)"
    unfolding p parse.case prod.case by (blast, elim conjE)
  have six: "length ?b + 1 = 6" by simp
  have "cstrn ?m 0 6 = take 2 (drop 0 ?b)" "cstrn ?m 4 6 = take 1 (drop 4 ?b)"
    using A(2) unfolding six by (simp_all del: cstrn.simps)
  then show ?thesis using p A(1) z by (intro conjI exI [of _ ?m]) simp_all
qed

end
