(* ===== verification/Spec2Isabelle.thy ===== *)
theory Spec2Isabelle
  imports Trap Mlfq_Steps Contents Grep Sh_Grammar Kbd Spinlock Cstring
begin

text \<open>
  A verification development of xv6-pdx, the teaching kernel of this repository: the
  kernel sources under \<open>src/\<close>, and a part of user space, as executable definitions, with
  theorems about them.

  \<^bold>\<open>The program.\<close>  A small Unix kernel for x86.  Spin locks (\<open>spinlock.c\<close>) protect the
  shared tables.  Processes (\<open>proc.c\<close>) are scheduled by a loop over the process table,
  or, when \<open>CS333_P3P4\<close> is defined, from multi-level feedback queues.  Memory comes from
  a free list of pages (\<open>kalloc.c\<close>) and is mapped by page tables (\<open>vm.c\<close>).  The file
  system is layered: disk driver (\<open>ide.c\<close> or \<open>memide.c\<close>), buffer cache (\<open>bio.c\<close>), write-ahead log
  (\<open>log.c\<close>), inodes, directories and paths (\<open>fs.c\<close>), open files and pipes (\<open>file.c\<close>,
  \<open>pipe.c\<close>), system calls (\<open>sysfile.c\<close>).  Console, keyboard and serial port
  (\<open>console.c\<close>, \<open>kbd.c\<close>, \<open>uart.c\<close>) are its devices; traps and system calls enter at
  \<open>trap.c\<close> and \<open>syscall.c\<close>.

  \<^bold>\<open>The model.\<close>  All global data of the kernel, with physical memory, disk and the
  current processor, is the record \<open>kstate\<close> of \<open>Xv6_State\<close>; its fields carry the names of
  the C variables.  A C function is a definition of type \<open>kop\<close> (\<open>Xv6_Prelude\<close>), a
  function from a state to an outcome: \<open>Done\<close> with result and new state, \<open>Panic\<close>,
  \<open>Switch\<close> when the process gives up the processor in \<open>sched\<close>, and \<open>Spin\<close> when it
  waits for ever with interrupts off.  Code after a switch is a definition of its own
  (names ending in \<open>_resume\<close>, or the loop that is entered again).  Unsigned C integers
  that can wrap are \<open>32 word\<close>; block and inode numbers are natural numbers.  Bytes read
  from and written to files, pipes and devices are lists; memory, pages and blocks are
  functions from offsets to bytes.  What the hardware delivers (ports, clock, stack
  contents, the processes' turns in a scheduler pass) is an argument.  The default
  configuration (\<open>CS333_P1\<close>, \<open>CS333_P2\<close>, \<open>CS333_P5\<close>) is modelled; the variants that
  \<open>CS333_P3P4\<close> selects have the suffix \<open>_p3\<close>.

  \<^bold>\<open>The theories.\<close>

  \<^item> \<open>Xv6_Prelude\<close>: outcomes, the monad and its predicate transformers \<open>wp\<close> and \<open>twp\<close>,
    byte encodings, words and lists.  \<open>Xv6_Params\<close>: constants and macros.  \<open>Xv6_State\<close>:
    the data structures.
  \<^item> \<open>Spinlock\<close>: \<open>acquire\<close>, \<open>release\<close>, \<open>pushcli\<close>, \<open>popcli\<close>.  Mutual exclusion in every
    interleaving of several processors; a critical section restores the interrupt flag.
  \<^item> \<open>Cstring\<close>: \<open>string.c\<close>.  \<open>memmove\<close> for overlapping areas, \<open>safestrcpy\<close>'s bounds.
  \<^item> \<open>Sched\<close>: \<open>sched\<close>, \<open>sleep\<close>, \<open>wakeup\<close>, \<open>yield\<close>.
  \<^item> \<open>Bio\<close>: the buffer cache with its doubly linked list.  What a reader sees (\<open>bview\<close>),
    the laws of the interface \<open>block_cache\<close>, least-recently-used order.
  \<^item> \<open>Log\<close>: transactions.  Crash atomicity at every disk write of a commit, durability,
    admission, absorption.
  \<^item> \<open>Inode\<close>, \<open>Dir\<close>: \<open>fs.c\<close>.  \<open>Blocks\<close>: one access to a block inside a transaction; \<open>balloc\<close>
    and \<open>bfree\<close> on the free map; an inode's way to the disk and back.  \<open>Contents\<close>: \<open>readi\<close>
    and \<open>writei\<close> refine an array of bytes.  \<open>Paths\<close>: \<open>namex\<close> is a walk over the components
    of a path.
  \<^item> \<open>Console\<close>, \<open>Consdev\<close>, \<open>Kbd\<close>: printing, screen, line discipline, key decoding.  The
    printed numeral reads back; the cursor stays on the screen; console input refines a
    line editor; key letters and modifiers.
  \<^item> \<open>Ring\<close>: the circular buffer that pipes and the console share, for wrapping indices.
    \<open>Pipe\<close>: files and pipes; reading and writing refine a queue of bytes.
  \<^item> \<open>Kalloc\<close>: no page is handed out twice (interface \<open>page_pool\<close>).  \<open>Vm\<close>: page tables
    and user memory.
  \<^item> \<open>Proc\<close>, \<open>Procdump\<close>: processes in the default configuration, listings.  \<open>Mlfq\<close>: the
    feedback queues at pointer level; \<open>Mlfq_Lists\<close>: the pointer structure refines twelve
    lists, the operations keep every process in the list of its state and priority and
    never fail, \<open>wakeup\<close> wakes one process only, and a priority of \<open>MAXPRIO + 1\<close> destroys
    the queues.  \<open>Mlfq_Steps\<close>: creation, exit and reaping of processes, and the invariant in
    every reachable state of the queues.
  \<^item> \<open>Exec\<close>, \<open>Sysproc\<close>, \<open>Sysfile\<close>, \<open>Trap\<close>: \<open>exec\<close>, the system calls and the entry points.
  \<^item> \<open>Ulib\<close>, \<open>Grep\<close>, \<open>Sh\<close>, \<open>Sh_Grammar\<close>: user space.  \<open>atoi\<close> reads what \<open>printf\<close> prints; the
    matcher of \<open>grep\<close> decides the meaning of a pattern and the program prints the matching
    lines, within the limits of its buffer; the shell's parser accepts exactly the lines
    of a grammar and returns their trees, and its interpreter creates the processes a
    tree means, with the descriptors of pipelines and redirections connected as the line
    says.

  \<^bold>\<open>Bounds.\<close>  A loop whose number of rounds the code does not bound carries a bound:
  walks over a process list \<open>NPROC + 1\<close> rounds (a list without a cycle has at most
  \<open>NPROC\<close> members, and \<open>Mlfq_Lists\<close> proves that the walks end), the free map as many
  blocks as it has, path names their length, the shell's parser four calls for every
  character and six more (shown to be enough in \<open>Sh\<close>).  Running out of a bound is the outcome
  \<open>Spin\<close> or the panic of the code.

  \<^bold>\<open>The disk.\<close>  There are two drivers with one interface.  The model uses \<open>memide.c\<close>, which
  keeps the disk in memory and completes a request before \<open>iderw\<close> returns.  The Makefile
  links \<open>ide.c\<close>, whose \<open>iderw\<close> queues the request and sleeps until the interrupt; with it
  every access to a block that is not in the cache gives up the processor once.

  \<^bold>\<open>Not modelled.\<close>  Device programming without state the kernel reads back (interrupt
  controllers, timer, multiprocessor tables), boot code and assembly, segment and
  interrupt descriptors.  Of user space only the library, \<open>grep\<close> and the shell are
  modelled: the other programs are short front ends of single system calls, and the test
  programs exercise the kernel from outside.
\<close>

end
